(* ===== verification/Lab_Prelude.thy ===== *)
theory Lab_Prelude
  imports Main "HOL-Library.Word" "HOL-Library.Multiset" "HOL-Library.AList"
begin

unbundle bit_operations_syntax

text \<open>
  The prelude of the development: what Go does that HOL does not.

  \<^item> A Go function that may panic or block forever returns \<open>go_fault + 'a\<close>:
    \<open>Inl\<close> of the fault, or \<open>Inr\<close> of the result. \<open>go_bind\<close> sequences two of them.
  \<^item> Slices are lists. \<open>slice_index\<close>, \<open>slice_from\<close>, \<open>slice_to\<close> and \<open>slice_range\<close>
    are \<open>s[i]\<close>, \<open>s[i:]\<close>, \<open>s[:j]\<close> and \<open>s[i:j]\<close> on \<open>int\<close> indices with the
    bounds check the language makes, so that every out-of-range access of the
    source is a value of the model.
  \<^item> A Go map is an association list with distinct keys, updated with the operations of
    \<open>HOL-Library.AList\<close>; the order of the list is the order in which a \<open>range\<close> loop happens to visit
    it. Statements are about \<open>map_of\<close> and about arbitrary lists, so they do not depend on it.
  \<^item> Integers: \<open>go_quot\<close> is Go's \<open>/\<close>, which truncates towards zero, \<open>int32_of\<close> the conversion \<open>int32(x)\<close>,
    \<open>milliseconds\<close> the method \<open>Milliseconds\<close> of a \<open>time.Duration\<close>, which counts nanoseconds.
  \<^item> \<open>hash/fnv\<close> of the standard library, on bytes (\<open>char\<close>) and words.
  \<^item> Named collections: \<open>go_simps\<close> (unfolding rules of the run-time layer) and
    \<open>go_dests\<close> (what a successful operation says of its arguments).
\<close>

named_theorems go_simps \<open>unfolding of the Go run-time layer\<close>
named_theorems go_dests \<open>what a successful Go operation says of its arguments\<close>

section \<open>Faults and results\<close>

datatype go_fault =
    IndexOutOfRange        \<comment> \<open>run-time panic: index or slice bounds out of range\<close>
  | NilDereference         \<comment> \<open>run-time panic: nil pointer dereference\<close>
  | DivideByZero           \<comment> \<open>run-time panic: integer divide by zero\<close>
  | ExplicitPanic string   \<comment> \<open>a call of \<open>panic\<close> or of \<open>log.Fatalf\<close>\<close>
  | Blocks                 \<comment> \<open>the goroutine waits here until another one acts\<close>
  | BadArgument string     \<comment> \<open>a library call that panics on its argument\<close>

type_synonym 'a go = "go_fault + 'a"

definition go_bind :: "'a go \<Rightarrow> ('a \<Rightarrow> 'b go) \<Rightarrow> 'b go" where
  "go_bind m k = (case m of Inl e \<Rightarrow> Inl e | Inr x \<Rightarrow> k x)"

lemma bind_Inl [simp]: "go_bind (Inl e) k = Inl e"
  by (simp add: go_bind_def)

lemma bind_Inr [simp]: "go_bind (Inr x) k = k x"
  by (simp add: go_bind_def)

lemma bind_eq_Inr [go_simps]: "go_bind m k = Inr y \<longleftrightarrow> (\<exists>x. m = Inr x \<and> k x = Inr y)"
  by (cases m) auto

lemma bind_eq_Inl: "go_bind m k = Inl e \<longleftrightarrow> m = Inl e \<or> (\<exists>x. m = Inr x \<and> k x = Inl e)"
  by (cases m) auto

lemma bind_assoc: "go_bind (go_bind m k) h = go_bind m (\<lambda>x. go_bind (k x) h)"
  by (cases m) auto

text \<open>The status codes of gRPC that the services return.\<close>

datatype code = InvalidArgument | NotFound | Unavailable | Internal

section \<open>Slices\<close>

definition slice_index :: "'a list \<Rightarrow> int \<Rightarrow> 'a go" where
  "slice_index xs i =
     (if 0 \<le> i \<and> i < int (length xs) then Inr (xs ! nat i) else Inl IndexOutOfRange)"

definition slice_from :: "'a list \<Rightarrow> int \<Rightarrow> 'a list go" where
  "slice_from xs i =
     (if 0 \<le> i \<and> i \<le> int (length xs) then Inr (drop (nat i) xs) else Inl IndexOutOfRange)"

definition slice_to :: "'a list \<Rightarrow> int \<Rightarrow> 'a list go" where
  "slice_to xs j =
     (if 0 \<le> j \<and> j \<le> int (length xs) then Inr (take (nat j) xs) else Inl IndexOutOfRange)"

definition slice_range :: "'a list \<Rightarrow> int \<Rightarrow> int \<Rightarrow> 'a list go" where
  "slice_range xs i j =
     (if 0 \<le> i \<and> i \<le> j \<and> j \<le> int (length xs)
      then Inr (take (nat j - nat i) (drop (nat i) xs)) else Inl IndexOutOfRange)"

definition slice_set :: "'a list \<Rightarrow> int \<Rightarrow> 'a \<Rightarrow> 'a list go" where
  "slice_set xs i v =
     (if 0 \<le> i \<and> i < int (length xs) then Inr (xs[nat i := v]) else Inl IndexOutOfRange)"

lemma slice_index_Inr [go_simps]:
  "slice_index xs i = Inr x \<longleftrightarrow> 0 \<le> i \<and> i < int (length xs) \<and> x = xs ! nat i"
  by (auto simp: slice_index_def)

lemma slice_from_Inr [go_simps]:
  "slice_from xs i = Inr ys \<longleftrightarrow> 0 \<le> i \<and> i \<le> int (length xs) \<and> ys = drop (nat i) xs"
  by (auto simp: slice_from_def)

lemma slice_to_Inr [go_simps]:
  "slice_to xs j = Inr ys \<longleftrightarrow> 0 \<le> j \<and> j \<le> int (length xs) \<and> ys = take (nat j) xs"
  by (auto simp: slice_to_def)

lemma slice_range_Inr [go_simps]:
  "slice_range xs i j = Inr ys \<longleftrightarrow>
     0 \<le> i \<and> i \<le> j \<and> j \<le> int (length xs) \<and> ys = take (nat j - nat i) (drop (nat i) xs)"
  by (auto simp: slice_range_def)

lemma slice_set_Inr [go_simps]:
  "slice_set xs i v = Inr ys \<longleftrightarrow> 0 \<le> i \<and> i < int (length xs) \<and> ys = xs[nat i := v]"
  by (auto simp: slice_set_def)

text \<open>The same operations at a natural number: what the simplifier uses.\<close>

lemma slice_index_nat [simp]:
  "slice_index xs (int k) = (if k < length xs then Inr (xs ! k) else Inl IndexOutOfRange)"
  by (simp add: slice_index_def)

lemma slice_from_nat [simp]:
  "slice_from xs (int k) = (if k \<le> length xs then Inr (drop k xs) else Inl IndexOutOfRange)"
  by (simp add: slice_from_def)

lemma slice_to_nat [simp]:
  "slice_to xs (int k) = (if k \<le> length xs then Inr (take k xs) else Inl IndexOutOfRange)"
  by (simp add: slice_to_def)

lemma slice_index_0 [simp]: "xs \<noteq> [] \<Longrightarrow> slice_index xs 0 = Inr (xs ! 0)"
  by (simp add: slice_index_def)

lemma slice_index_last [simp]:
  "xs \<noteq> [] \<Longrightarrow> slice_index xs (int (length xs) - 1) = Inr (last xs)"
  by (cases xs) (simp_all add: slice_index_def last_conv_nth)

section \<open>Lists\<close>

text \<open>Removing the element at a position, as a delivery does to the messages in flight.\<close>

definition remove_nth :: "nat \<Rightarrow> 'a list \<Rightarrow> 'a list" where
  "remove_nth k xs = take k xs @ drop (Suc k) xs"

lemma set_remove_nth_subset: "set (remove_nth k xs) \<subseteq> set xs"
  by (auto simp: remove_nth_def dest: in_set_takeD in_set_dropD)

lemma mset_remove_nth: "k < length xs \<Longrightarrow> mset xs = add_mset (xs ! k) (mset (remove_nth k xs))"
  by (metis append_Cons append_take_drop_id id_take_nth_drop mset.simps(2) mset_append
      remove_nth_def union_mset_add_mset_right)

lemma filter_remove_nth_le: "length (filter P (remove_nth k xs)) \<le> length (filter P xs)"
proof -
  have "filter P xs = filter P (take k xs) @ filter P (drop k xs)"
    by (metis append_take_drop_id filter_append)
  moreover have "length (filter P (drop (Suc k) xs)) \<le> length (filter P (drop k xs))"
    by (cases "drop k xs") (auto simp: drop_Suc tl_drop[symmetric] drop_Suc[symmetric] simp flip: tl_drop)
  ultimately show ?thesis by (simp add: remove_nth_def)
qed

lemma filter_remove_nth:
  "k < length xs \<Longrightarrow>
   length (filter P xs) = (if P (xs ! k) then 1 else 0) + length (filter P (remove_nth k xs))"
  by (subst id_take_nth_drop [of k xs]) (auto simp: remove_nth_def)

text \<open>The order of a loop that starts at a random position and wraps around.\<close>

lemma map_nth_rotate: "map (\<lambda>i. xs ! ((start + i) mod length xs)) [0..<length xs] = rotate start xs"
  by (rule nth_equalityI) (simp_all add: nth_rotate)

section \<open>Integers and durations\<close>

definition go_quot :: "int \<Rightarrow> int \<Rightarrow> int" where
  "go_quot a b = sgn a * sgn b * (\<bar>a\<bar> div \<bar>b\<bar>)"

lemma go_quot_nonneg [simp]: "0 \<le> a \<Longrightarrow> 0 < b \<Longrightarrow> go_quot a b = a div b"
  by (cases "a = 0") (simp_all add: go_quot_def)

lemma go_quot_mono: "0 < b \<Longrightarrow> a \<le> a' \<Longrightarrow> go_quot a b \<le> go_quot a' b"
proof -
  assume b: "0 < b" and le: "a \<le> a'"
  consider "0 \<le> a" | "a < 0" "0 \<le> a'" | "a' < 0" by linarith
  then show ?thesis
  proof cases
    case 2
    then have "go_quot a b \<le> 0" using b by (simp add: go_quot_def pos_imp_zdiv_nonneg_iff)
    moreover have "0 \<le> go_quot a' b" using 2 b by (simp add: pos_imp_zdiv_nonneg_iff)
    ultimately show ?thesis by linarith
  next
    case 3
    then show ?thesis using b le by (simp add: go_quot_def zdiv_mono1)
  qed (use b le in \<open>simp add: zdiv_mono1\<close>)
qed

text \<open>\<open>x % y\<close> for an \<open>x\<close> that is not negative.\<close>

definition go_rem_nonneg :: "nat \<Rightarrow> int \<Rightarrow> int go" where
  "go_rem_nonneg x y = (if y = 0 then Inl DivideByZero else Inr (int x mod \<bar>y\<bar>))"

definition int32_of :: "int \<Rightarrow> int" where
  "int32_of x = (x + 2147483648) mod 4294967296 - 2147483648"

lemma int32_of_id [simp]: "-2147483648 \<le> x \<Longrightarrow> x < 2147483648 \<Longrightarrow> int32_of x = x"
  by (simp add: int32_of_def)

definition milliseconds :: "int \<Rightarrow> int" where
  "milliseconds d = go_quot d 1000000"

lemma milliseconds_mono: "d \<le> d' \<Longrightarrow> milliseconds d \<le> milliseconds d'"
  by (simp add: milliseconds_def go_quot_mono)

lemma milliseconds_zero [simp]: "milliseconds 0 = 0"
  by (simp add: milliseconds_def go_quot_def)

section \<open>Decimal numbers\<close>

text \<open>\<open>%d\<close> of \<open>fmt\<close> and \<open>strconv.ParseUint\<close> in base ten, without the limit on the size.\<close>

fun show_nat :: "nat \<Rightarrow> string" where
  "show_nat n = (if n < 10 then [char_of (48 + n)] else show_nat (n div 10) @ [char_of (48 + n mod 10)])"

declare show_nat.simps [simp del]

definition show_int :: "int \<Rightarrow> string" where
  "show_int i = (if i < 0 then ''-'' @ show_nat (nat (- i)) else show_nat (nat i))"

definition digit :: "char \<Rightarrow> nat option" where
  "digit ch = (let d = of_char ch :: nat in if 48 \<le> d \<and> d \<le> 57 then Some (d - 48) else None)"

fun read_digits :: "nat \<Rightarrow> string \<Rightarrow> nat option" where
  "read_digits n [] = Some n"
| "read_digits n (ch # s) = (case digit ch of None \<Rightarrow> None | Some d \<Rightarrow> read_digits (10 * n + d) s)"

definition read_nat :: "string \<Rightarrow> nat option" where
  "read_nat s = (if s = [] then None else read_digits 0 s)"

lemma digit_char [simp]: "d < 10 \<Longrightarrow> digit (char_of (48 + d)) = Some d"
  by (simp add: digit_def Let_def)

lemma read_digits_append:
  "read_digits n (s @ t) = (case read_digits n s of None \<Rightarrow> None | Some m \<Rightarrow> read_digits m t)"
  by (induction n s rule: read_digits.induct) (auto split: option.splits)

lemma show_nat_not_Nil [simp]: "show_nat n \<noteq> []"
  by (subst show_nat.simps) simp

lemma read_digits_show: "read_digits 0 (show_nat n) = Some n"
proof (induction n rule: show_nat.induct)
  case (1 n)
  show ?case
    using 1 by (subst show_nat.simps) (auto simp: read_digits_append)
qed

lemma read_nat_show [simp]: "read_nat (show_nat n) = Some n"
  by (simp add: read_nat_def read_digits_show)

lemma show_nat_inject [simp]: "show_nat m = show_nat n \<longleftrightarrow> m = n"
  by (metis option.inject read_nat_show)

section \<open>FNV hashes\<close>

text \<open>\<open>fnv.New32\<close> and \<open>fnv.New64\<close>: FNV-1, which multiplies before it adds a byte.\<close>

definition fnv32 :: "string \<Rightarrow> 32 word" where
  "fnv32 s = fold (\<lambda>c h. (h * 16777619) XOR of_char c) s 2166136261"

definition fnv64 :: "string \<Rightarrow> 64 word" where
  "fnv64 s = fold (\<lambda>c h. (h * 1099511628211) XOR of_char c) s 14695981039346656037"

section \<open>Go maps\<close>

lemma map_of_AList_update [simp]: "map_of (AList.update k v m) = (map_of m)(k \<mapsto> v)"
  by (simp add: update_conv')

lemma map_of_AList_delete [simp]: "map_of (AList.delete k m) = (map_of m)(k := None)"
  by (simp add: delete_conv')

lemma distinct_AList_delete: "distinct (map fst m) \<Longrightarrow> distinct (map fst (AList.delete k m))"
  by (simp add: distinct_delete)

lemma map_of_filter_keys:
  "distinct (map fst m) \<Longrightarrow>
   map_of (filter (\<lambda>(k, v). P k v) m) k = (case map_of m k of None \<Rightarrow> None | Some v \<Rightarrow> if P k v then Some v else None)"
  by (induction m) (auto split: option.splits simp: map_of_eq_None_iff rev_image_eqI)

end
