(* ===== verification/Raft_Node.thy ===== *)
theory Raft_Node
  imports Lab_Prelude
begin

text \<open>
  One Raft peer: \<open>lab3/lab3/raft/raft.go\<close>, function by function.

  The record \<open>Raft\<close> is the struct of the same name. Every function that runs
  under \<open>rf.mu\<close> is one definition from the peer's state to its new state, in the
  result type \<open>go\<close> of the prelude, so that an index out of range or a send on the
  full channel \<open>hasCommittedChan\<close> is a value. A \<open>go\<close> statement and an RPC are not
  executed here: the calls a function starts are part of its result, and
  the theory \<open>Raft_Cluster\<close> schedules them.

  Modelling choices. Terms and indices are Go's \<open>int\<close>, taken unbounded. The two
  timers may fire at any time, so resetting them has no effect in the model. The
  local variable \<open>totalVotes\<close> of \<open>conductElection\<close> is shared by the goroutines of
  one election and is only touched while \<open>currentTerm\<close> is the term of that
  election; a peer holds one election per term, so it is a field here. What
  \<open>persist\<close> stores is the encoded triple of term, vote and log; the encoding is
  \<open>labgob\<close>, whose decoding returns the values encoded, so the triple itself is kept.
  A slice \<open>s[:j]\<close> with \<open>j\<close> between length and capacity is a fault here.
\<close>

section \<open>Data\<close>

datatype role = Follower | Candidate | Leader

record 'c LogEntry =
  le_Term :: int
  le_Command :: "'c option"
  le_Index :: int

record 'c ApplyMsg =
  CommandValid :: bool
  Command :: "'c option"
  CommandIndex :: int
  CommandTerm :: int

record 'c AppendEntriesArgs =
  ae_Term :: int
  ae_LeaderId :: int
  ae_PrevLogIndex :: int
  ae_PrevLogTerm :: int
  ae_Entries :: "'c LogEntry list"
  ae_LeaderCommit :: int

record AppendEntriesReply =
  aer_Term :: int
  aer_Success :: bool

record RequestVoteArgs =
  rv_Term :: int
  rv_CandidateId :: int
  rv_LastLogIndex :: int
  rv_LastLogTerm :: int

record RequestVoteReply =
  rvr_Term :: int
  rvr_VoteGranted :: bool

record 'c Raft =
  peers :: nat
  persister :: "(int \<times> int \<times> 'c LogEntry list) option"
  me :: nat
  dead :: bool
  currentTerm :: int
  votedFor :: int
  log :: "'c LogEntry list"
  state :: role
  applyCh :: "'c ApplyMsg list"
  commitIndex :: int
  nextIndex :: "int list"
  matchIndex :: "int list"
  lastApplied :: int
  hasCommittedChan :: nat
  totalVotes :: nat

text \<open>The arguments of one \<open>handleAppendEntries\<close> goroutine: server, expectedNextIndex, args.\<close>

type_synonym 'c append_call = "nat \<times> int \<times> 'c AppendEntriesArgs"

section \<open>Persistence, log accessors\<close>

definition persist :: "'c Raft \<Rightarrow> 'c Raft" where
  "persist rf = rf\<lparr>persister := Some (currentTerm rf, votedFor rf, log rf)\<rparr>"

definition readPersist ::
    "(int \<times> int \<times> 'c LogEntry list) option \<Rightarrow> 'c Raft \<Rightarrow> 'c Raft" where
  "readPersist data rf =
     (case data of None \<Rightarrow> rf
      | Some (t, v, l) \<Rightarrow> rf\<lparr>currentTerm := t, votedFor := v, log := l\<rparr>)"

definition lastLogTerm :: "'c Raft \<Rightarrow> int" where
  "lastLogTerm rf = (if length (log rf) = 0 then -1 else le_Term (log rf ! (length (log rf) - 1)))"

definition lastLogIndex :: "'c Raft \<Rightarrow> int go" where
  "lastLogIndex rf =
     go_bind (slice_index (log rf) (int (length (log rf)) - 1)) (\<lambda>e. Inr (le_Index e))"

text \<open>\<open>rf.log[0].Index\<close>, the offset of every access to the log.\<close>

definition firstIndex :: "'c Raft \<Rightarrow> int go" where
  "firstIndex rf = go_bind (slice_index (log rf) 0) (\<lambda>e. Inr (le_Index e))"

definition GetState :: "'c Raft \<Rightarrow> int \<times> bool" where
  "GetState rf = (currentTerm rf, state rf = Leader)"

definition Kill :: "'c Raft \<Rightarrow> 'c Raft" where
  "Kill rf = rf\<lparr>dead := True\<rparr>"

definition killed :: "'c Raft \<Rightarrow> bool" where
  "killed rf = dead rf"

text \<open>\<open>rf.hasCommittedChan <- struct{}{}\<close>: a channel of capacity 1000, counted.\<close>

definition notifyCommitted :: "'c Raft \<Rightarrow> 'c Raft go" where
  "notifyCommitted rf =
     (if hasCommittedChan rf < 1000
      then Inr (rf\<lparr>hasCommittedChan := Suc (hasCommittedChan rf)\<rparr>) else Inl Blocks)"

section \<open>Log replication\<close>

subsection \<open>The leader's side\<close>

text \<open>The arguments for one peer, as \<open>sendHeartbeats\<close> and the retry of
  \<open>respAppendEntries\<close> build them from \<open>nextIndex\<close>.\<close>

definition appendCall :: "'c Raft \<Rightarrow> nat \<Rightarrow> 'c append_call go" where
  "appendCall rf i =
     go_bind (slice_index (nextIndex rf) (int i)) (\<lambda>ni.
     go_bind (firstIndex rf) (\<lambda>i0.
     go_bind (slice_index (log rf) (ni - 1 - i0)) (\<lambda>prev.
     go_bind (slice_from (log rf) (ni - i0)) (\<lambda>entries.
       Inr (i, ni + int (length entries),
            \<lparr>ae_Term = currentTerm rf, ae_LeaderId = int (me rf),
             ae_PrevLogIndex = ni - 1, ae_PrevLogTerm = le_Term prev,
             ae_Entries = entries, ae_LeaderCommit = commitIndex rf\<rparr>)))))"

fun heartbeatLoop :: "'c Raft \<Rightarrow> nat list \<Rightarrow> 'c append_call list go" where
  "heartbeatLoop rf [] = Inr []"
| "heartbeatLoop rf (i # is) =
     (if i \<noteq> me rf
      then go_bind (appendCall rf i) (\<lambda>c. go_bind (heartbeatLoop rf is) (\<lambda>cs. Inr (c # cs)))
      else heartbeatLoop rf is)"

definition sendHeartbeats :: "'c Raft \<Rightarrow> 'c append_call list go" where
  "sendHeartbeats rf = heartbeatLoop rf [0..<peers rf]"

text \<open>The guard of \<open>handleAppendEntries\<close>: whether the goroutine sends its RPC.\<close>

definition handleAppendEntries :: "'c AppendEntriesArgs \<Rightarrow> 'c Raft \<Rightarrow> bool" where
  "handleAppendEntries args rf \<longleftrightarrow> state rf = Leader \<and> ae_Term args = currentTerm rf"

definition numAgreesToCommit :: "'c Raft \<Rightarrow> int \<Rightarrow> nat" where
  "numAgreesToCommit rf m =
     1 + length (filter (\<lambda>i. i \<noteq> me rf \<and> matchIndex rf ! i \<ge> m) [0..<peers rf])"

text \<open>The branch of \<open>respAppendEntries\<close> for a successful reply.\<close>

definition respSuccess ::
    "nat \<Rightarrow> int \<Rightarrow> 'c AppendEntriesArgs \<Rightarrow> 'c Raft \<Rightarrow> 'c Raft go" where
  "respSuccess server expectedNextIndex args rf =
     go_bind (slice_index (nextIndex rf) (int server)) (\<lambda>ni.
     let rf1 = (if ni + int (length (ae_Entries args)) = expectedNextIndex
                then rf\<lparr>nextIndex := (nextIndex rf)[server := expectedNextIndex],
                         matchIndex := (matchIndex rf)[server := expectedNextIndex - 1]\<rparr>
                else rf) in
     go_bind (slice_index (matchIndex rf1) (int server)) (\<lambda>m.
     go_bind (firstIndex rf1) (\<lambda>i0.
     go_bind (slice_index (log rf1) (m - i0)) (\<lambda>e.
       if numAgreesToCommit rf1 m > peers rf1 div 2 \<and> le_Term e = currentTerm rf1
       then notifyCommitted (rf1\<lparr>commitIndex := max (commitIndex rf1) m\<rparr>)
       else Inr rf1))))"

definition respAppendEntries ::
    "nat \<Rightarrow> int \<Rightarrow> 'c AppendEntriesArgs \<Rightarrow> AppendEntriesReply \<Rightarrow> 'c Raft
     \<Rightarrow> ('c Raft \<times> 'c append_call list) go" where
  "respAppendEntries server expectedNextIndex args reply rf =
     (if state rf = Leader \<and> ae_Term args = currentTerm rf then
        if aer_Term reply > currentTerm rf then
          Inr ((persist rf)\<lparr>state := Follower, votedFor := -1, currentTerm := aer_Term reply\<rparr>, [])
        else if aer_Success reply then
          go_bind (respSuccess server expectedNextIndex args rf) (\<lambda>rf1. Inr (rf1, []))
        else
          go_bind (slice_set (nextIndex rf) (int server) 1) (\<lambda>ni.
          let rf1 = rf\<lparr>nextIndex := ni\<rparr> in
          go_bind (appendCall rf1 server) (\<lambda>c. Inr (rf1, [c])))
      else Inr (rf, []))"

subsection \<open>The follower's side\<close>

text \<open>The loop over \<open>request.Entries\<close>: the second argument is \<open>request.Entries[i:]\<close>.\<close>

fun appendLoop ::
    "'c LogEntry list \<Rightarrow> 'c LogEntry list \<Rightarrow> 'c LogEntry list go" where
  "appendLoop lg [] = Inr lg"
| "appendLoop lg (newEntry # rest) =
     go_bind (slice_index lg 0) (\<lambda>e0.
     let k = le_Index newEntry - le_Index e0 in
     go_bind (if k \<ge> int (length lg) then Inr True
              else go_bind (slice_index lg k) (\<lambda>e. Inr (le_Term e \<noteq> le_Term newEntry)))
       (\<lambda>replace.
         if replace then go_bind (slice_to lg k) (\<lambda>pre. Inr (pre @ newEntry # rest))
         else appendLoop lg rest))"

definition followLeaderCommit :: "int \<Rightarrow> 'c Raft \<Rightarrow> 'c Raft go" where
  "followLeaderCommit leaderCommit rf =
     (if leaderCommit > commitIndex rf then
        go_bind (lastLogIndex rf) (\<lambda>l.
          notifyCommitted (rf\<lparr>commitIndex := (if leaderCommit < l then leaderCommit else l)\<rparr>))
      else Inr rf)"

text \<open>The part of \<open>AppendEntries\<close> reached when the request's term is not old, after
  the term, the vote and the role have been updated.\<close>

definition appendAccepted ::
    "'c AppendEntriesArgs \<Rightarrow> 'c Raft \<Rightarrow> ('c Raft \<times> AppendEntriesReply) go" where
  "appendAccepted request rf =
     go_bind (firstIndex rf) (\<lambda>i0.
     if ae_PrevLogIndex request < i0 - 1
     then Inr (rf, \<lparr>aer_Term = 0, aer_Success = False\<rparr>)
     else
       go_bind (lastLogIndex rf) (\<lambda>l.
       go_bind (if ae_PrevLogIndex request > l then Inr True
                else go_bind (slice_index (log rf) (ae_PrevLogIndex request - i0))
                       (\<lambda>e. Inr (le_Term e \<noteq> ae_PrevLogTerm request))) (\<lambda>mismatch.
       if mismatch then Inr (rf, \<lparr>aer_Term = currentTerm rf, aer_Success = False\<rparr>)
       else
         go_bind (appendLoop (log rf) (ae_Entries request)) (\<lambda>newLog.
         go_bind (followLeaderCommit (ae_LeaderCommit request) (rf\<lparr>log := newLog\<rparr>)) (\<lambda>rf1.
           Inr (rf1, \<lparr>aer_Term = currentTerm rf1, aer_Success = True\<rparr>))))))"

definition adoptTerm :: "int \<Rightarrow> 'c Raft \<Rightarrow> 'c Raft" where
  "adoptTerm t rf =
     (let rf1 = (if t > currentTerm rf then rf\<lparr>votedFor := -1, currentTerm := t\<rparr> else rf)
      in rf1\<lparr>state := Follower\<rparr>)"

definition AppendEntries ::
    "'c AppendEntriesArgs \<Rightarrow> 'c Raft \<Rightarrow> ('c Raft \<times> AppendEntriesReply) go" where
  "AppendEntries request rf =
     (if ae_Term request < currentTerm rf
      then Inr (persist rf, \<lparr>aer_Term = currentTerm rf, aer_Success = False\<rparr>)
      else
        go_bind (appendAccepted request (adoptTerm (ae_Term request) rf)) (\<lambda>(rf1, response).
          Inr (persist rf1, response)))"

text \<open>One iteration of \<open>applyEntries\<close>: apply what is committed, or take one
  notification from the channel.\<close>

definition applyMsg :: "'c LogEntry \<Rightarrow> 'c ApplyMsg" where
  "applyMsg entry = \<lparr>CommandValid = True, Command = le_Command entry,
                     CommandIndex = le_Index entry, CommandTerm = le_Term entry\<rparr>"

definition applyEntries :: "'c Raft \<Rightarrow> 'c Raft go" where
  "applyEntries rf =
     (if lastApplied rf < commitIndex rf then
        go_bind (firstIndex rf) (\<lambda>i0.
        go_bind (slice_range (log rf) (lastApplied rf + 1 - i0) (commitIndex rf + 1 - i0))
          (\<lambda>entriesToApply.
            Inr (if length entriesToApply \<noteq> 0
                 then rf\<lparr>lastApplied := commitIndex rf,
                         applyCh := applyCh rf @ map applyMsg entriesToApply\<rparr>
                 else rf)))
      else if hasCommittedChan rf = 0 then Inl Blocks
      else Inr (rf\<lparr>hasCommittedChan := hasCommittedChan rf - 1\<rparr>))"

definition Start :: "'c \<Rightarrow> 'c Raft \<Rightarrow> ('c Raft \<times> 'c append_call list \<times> int \<times> int \<times> bool) go" where
  "Start command rf =
     (if state rf = Leader then
        let rf1 = persist rf in
        go_bind (lastLogIndex rf1) (\<lambda>l.
        let rf2 = rf1\<lparr>log := log rf1 @ [\<lparr>le_Term = currentTerm rf1,
                                           le_Command = Some command, le_Index = l + 1\<rparr>]\<rparr> in
        go_bind (sendHeartbeats rf2) (\<lambda>cs. Inr (rf2, cs, l + 1, currentTerm rf1, True)))
      else Inr (rf, [], -1, -1, False))"

section \<open>Leader election\<close>

definition logUpToDate :: "RequestVoteArgs \<Rightarrow> 'c Raft \<Rightarrow> bool go" where
  "logUpToDate args rf =
     (if rv_LastLogTerm args > lastLogTerm rf then Inr True
      else if rv_LastLogTerm args = lastLogTerm rf
        then go_bind (lastLogIndex rf) (\<lambda>l. Inr (l \<le> rv_LastLogIndex args))
      else Inr False)"

definition RequestVote :: "RequestVoteArgs \<Rightarrow> 'c Raft \<Rightarrow> ('c Raft \<times> RequestVoteReply) go" where
  "RequestVote args rf =
     (let replyTerm = currentTerm rf;
          rf1 = (if rv_Term args > currentTerm rf
                 then rf\<lparr>currentTerm := rv_Term args, state := Follower, votedFor := -1\<rparr>
                 else rf) in
      go_bind (logUpToDate args rf1) (\<lambda>ok.
        if ok \<and> (votedFor rf1 = -1 \<or> votedFor rf1 = rv_CandidateId args)
        then Inr (rf1\<lparr>votedFor := rv_CandidateId args\<rparr>,
                  \<lparr>rvr_Term = replyTerm, rvr_VoteGranted = True\<rparr>)
        else Inr (rf1, \<lparr>rvr_Term = replyTerm, rvr_VoteGranted = False\<rparr>)))"

text \<open>The peers \<open>conductElection\<close> calls, and what its goroutine does with a reply.\<close>

definition conductElection :: "'c Raft \<Rightarrow> nat list" where
  "conductElection rf = filter (\<lambda>i. i \<noteq> me rf) [0..<peers rf]"

definition becomeLeader :: "'c Raft \<Rightarrow> 'c Raft" where
  "becomeLeader rf =
     rf\<lparr>nextIndex := map (\<lambda>_. commitIndex rf + 1) (nextIndex rf), state := Leader\<rparr>"

definition electionReply ::
    "RequestVoteArgs \<Rightarrow> RequestVoteReply \<Rightarrow> 'c Raft \<Rightarrow> ('c Raft \<times> 'c append_call list) go" where
  "electionReply request response rf =
     (if state rf = Candidate \<and> currentTerm rf = rv_Term request then
        if rvr_Term response > currentTerm rf then
          Inr ((persist rf)\<lparr>state := Follower, currentTerm := rvr_Term response, votedFor := -1\<rparr>, [])
        else if rvr_VoteGranted response then
          let rf1 = rf\<lparr>totalVotes := totalVotes rf + 1\<rparr> in
          if totalVotes rf1 > peers rf1 div 2 then
            go_bind (sendHeartbeats (becomeLeader rf1)) (\<lambda>cs. Inr (becomeLeader rf1, cs))
          else Inr (rf1, [])
        else Inr (rf, [])
      else Inr (rf, []))"

text \<open>The two cases of \<open>ticker\<close>.\<close>

definition tickerHeartbeat :: "'c Raft \<Rightarrow> 'c append_call list go" where
  "tickerHeartbeat rf = (if state rf = Leader then sendHeartbeats rf else Inr [])"

definition tickerElection :: "'c Raft \<Rightarrow> ('c Raft \<times> (nat \<times> RequestVoteArgs) list) go" where
  "tickerElection rf =
     (if state rf \<noteq> Leader then
        let rf1 = (persist rf)\<lparr>currentTerm := currentTerm rf + 1, state := Candidate,
                                votedFor := int (me rf), totalVotes := 1\<rparr> in
        go_bind (lastLogIndex rf1) (\<lambda>l.
        let args = \<lparr>rv_Term = currentTerm rf1, rv_CandidateId = votedFor rf1,
                    rv_LastLogIndex = l, rv_LastLogTerm = lastLogTerm rf1\<rparr> in
        Inr (rf1, map (\<lambda>i. (i, args)) (conductElection rf1)))
      else Inr (rf, []))"

section \<open>Construction\<close>

definition Make ::
    "nat \<Rightarrow> nat \<Rightarrow> (int \<times> int \<times> 'c LogEntry list) option \<Rightarrow> 'c Raft" where
  "Make n i saved =
     readPersist saved
       \<lparr>peers = n, persister = saved, me = i, dead = False, currentTerm = 0, votedFor = -1,
        log = [\<lparr>le_Term = 0, le_Command = None, le_Index = 0\<rparr>], state = Follower,
        applyCh = [], commitIndex = 0, nextIndex = replicate n 0, matchIndex = replicate n 0,
        lastApplied = 0, hasCommittedChan = 0, totalVotes = 0\<rparr>"

section \<open>Well-formed logs\<close>

definition wf_log :: "'c LogEntry list \<Rightarrow> bool" where
  "wf_log l \<longleftrightarrow> l \<noteq> [] \<and> (\<forall>k < length l. le_Index (l ! k) = int k)"

lemma wf_log_length: "wf_log l \<Longrightarrow> 0 < length l"
  by (simp add: wf_log_def)

lemma wf_log_first: "wf_log l \<Longrightarrow> slice_index l 0 = Inr (l ! 0) \<and> le_Index (l ! 0) = 0"
  by (auto simp: wf_log_def slice_index_def)

lemma firstIndex_wf [simp]: "wf_log (log rf) \<Longrightarrow> firstIndex rf = Inr 0"
  using wf_log_first by (fastforce simp: firstIndex_def)

lemma lastLogIndex_wf [simp]: "wf_log (log rf) \<Longrightarrow> lastLogIndex rf = Inr (int (length (log rf)) - 1)"
proof -
  assume wf: "wf_log (log rf)"
  then have "le_Index (last (log rf)) = int (length (log rf) - 1)"
    by (simp add: wf_log_def last_conv_nth)
  with wf show ?thesis
    by (simp add: lastLogIndex_def wf_log_def Suc_leI of_nat_diff)
qed

lemma wf_log_Cons_Make: "wf_log (log (Make n i None))"
  by (simp add: wf_log_def Make_def readPersist_def)

text \<open>Entries that continue a log from position \<open>p\<close>.\<close>

definition wf_entries :: "nat \<Rightarrow> 'c LogEntry list \<Rightarrow> bool" where
  "wf_entries p es \<longleftrightarrow> (\<forall>k < length es. le_Index (es ! k) = int (p + k))"

lemma wf_entries_Cons:
  "wf_entries p (e # es) \<longleftrightarrow> le_Index e = int p \<and> wf_entries (Suc p) es"
  unfolding wf_entries_def by (auto simp: less_Suc_eq_0_disj)

lemma wf_entries_drop: "wf_log l \<Longrightarrow> wf_entries p (drop p l)"
  by (auto simp: wf_entries_def wf_log_def)

lemma wf_log_append: "wf_log l \<Longrightarrow> wf_entries (length l) es \<Longrightarrow> wf_log (l @ es)"
  by (auto simp: wf_log_def wf_entries_def nth_append)

lemma wf_log_take: "wf_log l \<Longrightarrow> 0 < p \<Longrightarrow> wf_log (take p l)"
  by (auto simp: wf_log_def)

text \<open>What the loop of \<open>AppendEntries\<close> leaves: the old log, if every entry of the request
  is already there, or the old log cut at the first entry that is missing or
  has another term, followed by the rest of the request.\<close>

definition appendResult ::
    "'c LogEntry list \<Rightarrow> nat \<Rightarrow> 'c LogEntry list \<Rightarrow> 'c LogEntry list \<Rightarrow> bool" where
  "appendResult lg p es r \<longleftrightarrow>
     (r = lg \<and> p + length es \<le> length lg \<and>
        (\<forall>k < length es. le_Term (lg ! (p + k)) = le_Term (es ! k))) \<or>
     (\<exists>j < length es. p + j \<le> length lg \<and>
        (\<forall>k < j. le_Term (lg ! (p + k)) = le_Term (es ! k)) \<and>
        (p + j < length lg \<longrightarrow> le_Term (lg ! (p + j)) \<noteq> le_Term (es ! j)) \<and>
        r = take (p + j) lg @ drop j es)"

lemma appendResult_step:
  assumes "appendResult lg (Suc p) es r" "p < length lg" "le_Term (lg ! p) = le_Term e"
  shows "appendResult lg p (e # es) r"
  using assms(1) unfolding appendResult_def
proof (elim disjE exE conjE, goal_cases)
  case 1
  with assms show ?case by (auto simp: appendResult_def less_Suc_eq_0_disj)
next
  case (2 j)
  with assms show ?case unfolding appendResult_def
    by (intro disjI2 exI [of _ "Suc j"]) (auto simp: less_Suc_eq_0_disj)
qed

lemma appendLoop_result:
  assumes "wf_log lg" "0 < p" "p \<le> length lg" "wf_entries p es"
  shows "\<exists>r. appendLoop lg es = Inr r \<and> appendResult lg p es r"
  using assms
proof (induction es arbitrary: p)
  case Nil
  then show ?case by (auto simp: appendResult_def)
next
  case (Cons e es)
  from Cons.prems have e: "le_Index e = int p" and es: "wf_entries (Suc p) es"
    by (auto simp: wf_entries_Cons)
  note first = wf_log_first [OF Cons.prems(1)]
  show ?case
  proof (cases "p < length lg \<and> le_Term (lg ! p) = le_Term e")
    case True
    with Cons.IH [OF Cons.prems(1) _ _ es] obtain r where
      "appendLoop lg es = Inr r" "appendResult lg (Suc p) es r" by auto
    with True e first Cons.prems(1) appendResult_step [of lg p es r e] show ?thesis
      by (simp add: Let_def wf_log_def)
  next
    case False
    with Cons.prems e first have "appendLoop lg (e # es) = Inr (take p lg @ e # es)"
      by (auto simp: Let_def wf_log_def)
    moreover from False Cons.prems have "appendResult lg p (e # es) (take p lg @ e # es)"
      unfolding appendResult_def by (intro disjI2 exI [of _ 0]) auto
    ultimately show ?thesis by blast
  qed
qed

lemma appendResult_prefix:
  "appendResult lg p es r \<Longrightarrow> p \<le> length lg \<Longrightarrow> take p r = take p lg"
  by (auto simp: appendResult_def min_def)

lemma appendResult_entries:
  assumes "appendResult lg p es r" "k < length es"
  shows "p + k < length r \<and> le_Term (r ! (p + k)) = le_Term (es ! k)"
  using assms(1) unfolding appendResult_def
proof (elim disjE exE conjE)
  fix j assume j: "j < length es" "p + j \<le> length lg" "r = take (p + j) lg @ drop j es"
    "\<forall>k<j. le_Term (lg ! (p + k)) = le_Term (es ! k)"
  with assms(2) show ?thesis
    by (cases "k < j") (auto simp: nth_append)
qed (use assms(2) in auto)

lemma appendResult_wf:
  assumes "appendResult lg p es r" "wf_log lg" "0 < p" "wf_entries p es"
  shows "wf_log r"
  using assms(1) unfolding appendResult_def
proof (elim disjE exE conjE)
  fix j assume j: "j < length es" "p + j \<le> length lg" "r = take (p + j) lg @ drop j es"
  moreover have "wf_entries (p + j) (drop j es)"
    using assms(4) by (auto simp: wf_entries_def add.assoc)
  ultimately show ?thesis
    using assms(2,3) wf_log_append [OF wf_log_take [of lg "p + j"]] by (simp add: min_def)
qed (use assms(2) in simp)

lemma appendResult_keeps:
  assumes "appendResult lg p es r" "p + length es \<le> length lg"
    "\<forall>k < length es. le_Term (lg ! (p + k)) = le_Term (es ! k)"
  shows "r = lg"
  using assms unfolding appendResult_def by fastforce

section \<open>What one step of a peer may change\<close>

text \<open>The fields fixed when the peer is made.\<close>

definition same_peer :: "'c Raft \<Rightarrow> 'c Raft \<Rightarrow> bool" where
  "same_peer rf rf' \<longleftrightarrow> me rf' = me rf \<and> peers rf' = peers rf \<and>
     length (nextIndex rf') = length (nextIndex rf) \<and>
     length (matchIndex rf') = length (matchIndex rf)"

text \<open>The discipline of votes: the term never decreases, and within a term a vote, once
  given, is kept.\<close>

definition vote_le :: "'c Raft \<Rightarrow> 'c Raft \<Rightarrow> bool" where
  "vote_le rf rf' \<longleftrightarrow> currentTerm rf < currentTerm rf' \<or>
     (currentTerm rf = currentTerm rf' \<and> (votedFor rf = -1 \<or> votedFor rf' = votedFor rf))"

lemma vote_le_refl [simp]: "vote_le rf rf"
  by (simp add: vote_le_def)

lemma vote_le_trans: "vote_le a b \<Longrightarrow> vote_le b c \<Longrightarrow> vote_le a c"
  by (auto simp: vote_le_def)

text \<open>A candidate or a leader has voted for itself.\<close>

definition own_vote :: "'c Raft \<Rightarrow> bool" where
  "own_vote rf \<longleftrightarrow> (state rf \<noteq> Follower \<longrightarrow> votedFor rf = int (me rf))"

lemmas peer_defs = same_peer_def vote_le_def own_vote_def

lemma persist_simps [simp]:
  "me (persist rf) = me rf" "peers (persist rf) = peers rf" "log (persist rf) = log rf"
  "currentTerm (persist rf) = currentTerm rf" "votedFor (persist rf) = votedFor rf"
  "state (persist rf) = state rf" "nextIndex (persist rf) = nextIndex rf"
  "matchIndex (persist rf) = matchIndex rf" "commitIndex (persist rf) = commitIndex rf"
  "totalVotes (persist rf) = totalVotes rf" "lastApplied (persist rf) = lastApplied rf"
  "hasCommittedChan (persist rf) = hasCommittedChan rf" "applyCh (persist rf) = applyCh rf"
  "dead (persist rf) = dead rf"
  "persister (persist rf) = Some (currentTerm rf, votedFor rf, log rf)"
  by (simp_all add: persist_def)

lemma notifyCommitted_Inr:
  "notifyCommitted rf = Inr rf' \<longleftrightarrow> hasCommittedChan rf < 1000 \<and>
     rf' = rf\<lparr>hasCommittedChan := Suc (hasCommittedChan rf)\<rparr>"
  by (auto simp: notifyCommitted_def)

text \<open>The steps that move only the replication indices.\<close>

definition same_core :: "'c Raft \<Rightarrow> 'c Raft \<Rightarrow> bool" where
  "same_core rf rf' \<longleftrightarrow> same_peer rf rf' \<and> currentTerm rf' = currentTerm rf \<and>
     votedFor rf' = votedFor rf \<and> state rf' = state rf \<and> log rf' = log rf \<and>
     totalVotes rf' = totalVotes rf"

lemma same_core_refl [simp]: "same_core rf rf"
  by (simp add: same_core_def same_peer_def)

lemma notifyCommitted_core: "notifyCommitted rf = Inr rf' \<Longrightarrow> same_core rf rf'"
  by (auto simp: notifyCommitted_Inr same_core_def same_peer_def)

lemma same_core_commit [simp]: "same_core (rf\<lparr>commitIndex := ci\<rparr>) rf' = same_core rf rf'"
  by (simp add: same_core_def same_peer_def)

lemma followLeaderCommit_cases:
  assumes "followLeaderCommit lc rf = Inr rf'"
  shows "rf' = rf \<or> (\<exists>ci. notifyCommitted (rf\<lparr>commitIndex := ci\<rparr>) = Inr rf')"
proof (cases "lc > commitIndex rf")
  case True
  with assms show ?thesis
    unfolding followLeaderCommit_def by (auto simp only: if_True bind_eq_Inr)
qed (use assms in \<open>simp add: followLeaderCommit_def\<close>)

lemma followLeaderCommit_core: "followLeaderCommit lc rf = Inr rf' \<Longrightarrow> same_core rf rf'"
  by (drule followLeaderCommit_cases) (auto dest: notifyCommitted_core)

lemma RequestVote_Inr:
  assumes "RequestVote args rf = Inr (rf', rep)"
  obtains "rvr_VoteGranted rep" "rvr_Term rep = currentTerm rf" 
      "rv_Term args > currentTerm rf" 
      "rf' = rf\<lparr>currentTerm := rv_Term args, state := Follower, votedFor := rv_CandidateId args\<rparr>"
    | "rvr_VoteGranted rep" "rvr_Term rep = currentTerm rf" 
      "rv_Term args \<le> currentTerm rf" "votedFor rf = -1 \<or> votedFor rf = rv_CandidateId args"
      "rf' = rf\<lparr>votedFor := rv_CandidateId args\<rparr>"
    | "\<not> rvr_VoteGranted rep" "rvr_Term rep = currentTerm rf" 
      "rv_Term args > currentTerm rf" 
      "rf' = rf\<lparr>currentTerm := rv_Term args, state := Follower, votedFor := -1\<rparr>"
    | "\<not> rvr_VoteGranted rep" "rvr_Term rep = currentTerm rf" 
      "rv_Term args \<le> currentTerm rf"  "rf' = rf"
  using assms by (auto simp: RequestVote_def Let_def go_simps split: if_splits)

lemma RequestVote_peer:
  assumes "RequestVote args rf = Inr (rf', rep)"
  shows "same_peer rf rf' \<and> vote_le rf rf' \<and> log rf' = log rf \<and> (own_vote rf \<longrightarrow> own_vote rf')"
  using assms by (rule RequestVote_Inr) (auto simp: peer_defs)


lemma respSuccess_cases:
  assumes "respSuccess server en args rf = Inr rf'"
  obtains rf1 m where
      "rf1 = rf \<or> rf1 = rf\<lparr>nextIndex := (nextIndex rf)[server := en], matchIndex := (matchIndex rf)[server := en - 1]\<rparr>"
      "rf' = rf1 \<or> notifyCommitted (rf1\<lparr>commitIndex := max (commitIndex rf1) m\<rparr>) = Inr rf'"
proof -
  let ?rf1 = "if nextIndex rf ! server + int (length (ae_Entries args)) = en
    then rf\<lparr>nextIndex := (nextIndex rf)[server := en], matchIndex := (matchIndex rf)[server := en - 1]\<rparr>
    else rf"
  from assms obtain m where "rf' = ?rf1 \<or>
      notifyCommitted (?rf1\<lparr>commitIndex := max (commitIndex ?rf1) m\<rparr>) = Inr rf'"
    by (simp add: respSuccess_def Let_def bind_eq_Inr split: if_split_asm) blast+
  then show thesis by (intro that [of ?rf1 m]) simp_all
qed

lemma respSuccess_core:
  assumes "respSuccess server en args rf = Inr rf'"
  shows "same_core rf rf' \<and> commitIndex rf \<le> commitIndex rf'"
  using assms by (rule respSuccess_cases) (auto simp: notifyCommitted_Inr same_core_def same_peer_def)

lemma electionReply_Inr:
  assumes "electionReply request response rf = Inr (rf', cs)"
  obtains (ignored) "rf' = rf" "cs = []"
    | (stepdown) "state rf = Candidate" "currentTerm rf = rv_Term request"
        "rvr_Term response > currentTerm rf" "cs = []"
        "rf' = (persist rf)\<lparr>state := Follower, currentTerm := rvr_Term response, votedFor := -1\<rparr>"
    | (counted) "state rf = Candidate" "currentTerm rf = rv_Term request" "rvr_VoteGranted response"
        "rvr_Term response \<le> currentTerm rf" "totalVotes rf + 1 \<le> peers rf div 2" "cs = []"
        "rf' = rf\<lparr>totalVotes := totalVotes rf + 1\<rparr>"
    | (elected) "state rf = Candidate" "currentTerm rf = rv_Term request" "rvr_VoteGranted response"
        "rvr_Term response \<le> currentTerm rf" "totalVotes rf + 1 > peers rf div 2"
        "rf' = becomeLeader (rf\<lparr>totalVotes := totalVotes rf + 1\<rparr>)" "sendHeartbeats rf' = Inr cs"
proof (cases "state rf = Candidate \<and> currentTerm rf = rv_Term request")
  case False
  with assms show thesis by (intro that(1)) (simp_all add: electionReply_def)
next
  case True
  then have c: "state rf = Candidate" "currentTerm rf = rv_Term request" by auto
  consider "rvr_Term response > currentTerm rf" | "rvr_Term response \<le> currentTerm rf"
    "rvr_VoteGranted response" | "rvr_Term response \<le> currentTerm rf" "\<not> rvr_VoteGranted response"
    by linarith
  then show thesis
  proof cases
    case 1
    with assms c show thesis by (intro that(2)) (simp_all add: electionReply_def)
  next
    case 2
    show thesis
    proof (cases "totalVotes rf + 1 > peers rf div 2")
      case True
      with 2 assms c show thesis
        by (intro that(4)) (auto simp add: electionReply_def Let_def bind_eq_Inr)
    next
      case False
      with 2 assms c show thesis by (intro that(3)) (simp_all add: electionReply_def)
    qed
  next
    case 3
    with assms c show thesis by (intro that(1)) (simp_all add: electionReply_def)
  qed
qed

lemma electionReply_peer:
  assumes "electionReply request response rf = Inr (rf', cs)"
  shows "same_peer rf rf' \<and> vote_le rf rf' \<and> log rf' = log rf \<and> (own_vote rf \<longrightarrow> own_vote rf')"
  using assms by (rule electionReply_Inr) (auto simp: peer_defs becomeLeader_def)

lemma tickerElection_Inr:
  assumes "tickerElection rf = Inr (rf', vs)"
  obtains (leader) "state rf = Leader" "rf' = rf" "vs = []"
    | (candidate) l where "state rf \<noteq> Leader"
        "rf' = (persist rf)\<lparr>currentTerm := currentTerm rf + 1, state := Candidate,
                                votedFor := int (me rf), totalVotes := 1\<rparr>"
        "lastLogIndex rf' = Inr l"
        "vs = map (\<lambda>i. (i, \<lparr>rv_Term = currentTerm rf + 1, rv_CandidateId = int (me rf),
                    rv_LastLogIndex = l, rv_LastLogTerm = lastLogTerm rf'\<rparr>)) (conductElection rf')"
proof (cases "state rf = Leader")
  case True
  with assms show thesis by (intro that(1)) (simp_all add: tickerElection_def)
next
  case False
  let ?rf1 = "(persist rf)\<lparr>currentTerm := currentTerm rf + 1, state := Candidate,
                                votedFor := int (me rf), totalVotes := 1\<rparr>"
  from False assms obtain l where "lastLogIndex ?rf1 = Inr l" "rf' = ?rf1"
    "vs = map (\<lambda>i. (i, \<lparr>rv_Term = currentTerm rf + 1, rv_CandidateId = int (me rf),
                    rv_LastLogIndex = l, rv_LastLogTerm = lastLogTerm ?rf1\<rparr>)) (conductElection ?rf1)"
    by (auto simp add: tickerElection_def Let_def bind_eq_Inr)
  with False show thesis by (intro that(2) [of l]) (simp_all only: not_False_eq_True)
qed

lemma tickerElection_peer:
  assumes "tickerElection rf = Inr (rf', cs)"
  shows "same_peer rf rf' \<and> vote_le rf rf' \<and> log rf' = log rf \<and> (own_vote rf \<longrightarrow> own_vote rf')"
  using assms by (rule tickerElection_Inr) (auto simp: peer_defs)

lemma respAppendEntries_Inr:
  assumes "respAppendEntries server en args reply rf = Inr (rf', cs)"
  obtains (ignored) "rf' = rf" "cs = []"
    | (stepdown) "state rf = Leader" "ae_Term args = currentTerm rf" "aer_Term reply > currentTerm rf"
        "rf' = (persist rf)\<lparr>state := Follower, votedFor := -1, currentTerm := aer_Term reply\<rparr>" "cs = []"
    | (success) "state rf = Leader" "ae_Term args = currentTerm rf" "aer_Success reply"
        "respSuccess server en args rf = Inr rf'" "cs = []"
    | (retry) c ni where "state rf = Leader" "ae_Term args = currentTerm rf" "\<not> aer_Success reply"
        "slice_set (nextIndex rf) (int server) 1 = Inr ni" "rf' = rf\<lparr>nextIndex := ni\<rparr>"
        "appendCall rf' server = Inr c" "cs = [c]"
proof (cases "state rf = Leader \<and> ae_Term args = currentTerm rf")
  case False
  with assms show thesis by (intro that(1)) (simp_all add: respAppendEntries_def)
next
  case True
  then have c: "state rf = Leader" "ae_Term args = currentTerm rf" by auto
  consider "aer_Term reply > currentTerm rf" | "aer_Term reply \<le> currentTerm rf" "aer_Success reply"
    | "aer_Term reply \<le> currentTerm rf" "\<not> aer_Success reply" by linarith
  then show thesis
  proof cases
    case 1
    with assms c show thesis by (intro that(2)) (simp_all add: respAppendEntries_def)
  next
    case 2
    with assms c show thesis by (intro that(3)) (simp_all add: respAppendEntries_def bind_eq_Inr)
  next
    case 3
    with assms c obtain ni cl where "slice_set (nextIndex rf) (int server) 1 = Inr ni"
      "appendCall (rf\<lparr>nextIndex := ni\<rparr>) server = Inr cl" "rf' = rf\<lparr>nextIndex := ni\<rparr>" "cs = [cl]"
      by (auto simp add: respAppendEntries_def bind_eq_Inr Let_def)
    with 3 c show thesis by (intro that(4)) simp_all
  qed
qed

lemma respAppendEntries_peer:
  assumes "respAppendEntries server en args reply rf = Inr (rf', cs)"
  shows "same_peer rf rf' \<and> vote_le rf rf' \<and> log rf' = log rf \<and> (own_vote rf \<longrightarrow> own_vote rf')"
  using assms
proof (cases rule: respAppendEntries_Inr)
  case success
  with respSuccess_core [OF success(4)] show ?thesis by (auto simp: peer_defs same_core_def)
qed (auto simp: peer_defs go_simps)

lemma appendAccepted_wf:
  assumes "wf_log (log rf)"
  shows "appendAccepted request rf =
    (let p = ae_PrevLogIndex request in
     if p < -1 then Inr (rf, \<lparr>aer_Term = 0, aer_Success = False\<rparr>)
     else if p \<ge> int (length (log rf))
       then Inr (rf, \<lparr>aer_Term = currentTerm rf, aer_Success = False\<rparr>)
     else if p = -1 then Inl IndexOutOfRange
     else if le_Term (log rf ! nat p) \<noteq> ae_PrevLogTerm request
       then Inr (rf, \<lparr>aer_Term = currentTerm rf, aer_Success = False\<rparr>)
     else go_bind (appendLoop (log rf) (ae_Entries request)) (\<lambda>newLog.
          go_bind (followLeaderCommit (ae_LeaderCommit request) (rf\<lparr>log := newLog\<rparr>)) (\<lambda>rf1.
            Inr (rf1, \<lparr>aer_Term = currentTerm rf1, aer_Success = True\<rparr>))))"
  using assms by (auto simp: appendAccepted_def Let_def slice_index_def)

lemma appendAccepted_Inr:
  assumes "appendAccepted request rf = Inr (rf', response)" "wf_log (log rf)"
  obtains (rejected) "rf' = rf" "\<not> aer_Success response"
    | (accepted) l where "same_core (rf\<lparr>log := l\<rparr>) rf'"
        "appendLoop (log rf) (ae_Entries request) = Inr l" "aer_Success response"
        "0 \<le> ae_PrevLogIndex request" "ae_PrevLogIndex request < int (length (log rf))"
        "le_Term (log rf ! nat (ae_PrevLogIndex request)) = ae_PrevLogTerm request"
proof (cases "aer_Success response")
  case False
  with assms show thesis
    by (intro that(1)) (auto simp: appendAccepted_wf Let_def bind_eq_Inr split: if_splits)
next
  case True
  with assms obtain l where "appendLoop (log rf) (ae_Entries request) = Inr l"
      "followLeaderCommit (ae_LeaderCommit request) (rf\<lparr>log := l\<rparr>) = Inr rf'"
      "0 \<le> ae_PrevLogIndex request" "ae_PrevLogIndex request < int (length (log rf))"
      "le_Term (log rf ! nat (ae_PrevLogIndex request)) = ae_PrevLogTerm request"
    by (auto simp: appendAccepted_wf Let_def bind_eq_Inr split: if_splits)
  with True show thesis by (intro that(2)) (auto dest: followLeaderCommit_core)
qed

lemma adoptTerm_simps [simp]:
  "me (adoptTerm t rf) = me rf" "peers (adoptTerm t rf) = peers rf" "log (adoptTerm t rf) = log rf"
  "currentTerm (adoptTerm t rf) = max t (currentTerm rf)"
  "votedFor (adoptTerm t rf) = (if t > currentTerm rf then -1 else votedFor rf)"
  "state (adoptTerm t rf) = Follower" "nextIndex (adoptTerm t rf) = nextIndex rf"
  "matchIndex (adoptTerm t rf) = matchIndex rf" "totalVotes (adoptTerm t rf) = totalVotes rf"
  "commitIndex (adoptTerm t rf) = commitIndex rf"
  by (simp_all add: adoptTerm_def Let_def)

lemma AppendEntries_Inr:
  assumes "AppendEntries request rf = Inr (rf', response)" "wf_log (log rf)"
  obtains (old) "ae_Term request < currentTerm rf" "rf' = persist rf" "\<not> aer_Success response"
      "aer_Term response = currentTerm rf"
    | (rejected) "currentTerm rf \<le> ae_Term request" "same_peer rf rf'" "log rf' = log rf"
        "currentTerm rf' = ae_Term request" "state rf' = Follower" "totalVotes rf' = totalVotes rf"
        "votedFor rf' = (if ae_Term request > currentTerm rf then -1 else votedFor rf)"
        "\<not> aer_Success response"
    | (accepted) "currentTerm rf \<le> ae_Term request" "same_peer rf rf'"
        "currentTerm rf' = ae_Term request" "state rf' = Follower" "totalVotes rf' = totalVotes rf"
        "votedFor rf' = (if ae_Term request > currentTerm rf then -1 else votedFor rf)"
        "appendLoop (log rf) (ae_Entries request) = Inr (log rf')" "aer_Success response"
        "0 \<le> ae_PrevLogIndex request" "ae_PrevLogIndex request < int (length (log rf))"
        "le_Term (log rf ! nat (ae_PrevLogIndex request)) = ae_PrevLogTerm request"
proof (cases "ae_Term request < currentTerm rf")
  case True
  with assms(1) show thesis by (intro old) (auto simp: AppendEntries_def)
next
  case False
  let ?rf1 = "adoptTerm (ae_Term request) rf"
  from False assms(1) obtain rf2 where
    *: "appendAccepted request ?rf1 = Inr (rf2, response)" "rf' = persist rf2"
    by (auto simp: AppendEntries_def bind_eq_Inr)
  have "wf_log (log ?rf1)" using assms(2) by simp
  with *(1) show thesis
  proof (cases rule: appendAccepted_Inr)
    case rejected
    then show thesis using False *(2) that(2) by (simp add: same_peer_def max_def)
  next
    case (accepted l)
    then show thesis using False *(2) that(3) by (simp add: same_peer_def same_core_def max_def)
  qed
qed

lemma AppendEntries_peer:
  assumes "AppendEntries request rf = Inr (rf', response)" "wf_log (log rf)"
  shows "same_peer rf rf' \<and> vote_le rf rf' \<and> (own_vote rf \<longrightarrow> own_vote rf')"
  using assms by (cases rule: AppendEntries_Inr) (auto simp: peer_defs)

lemma Start_Inr:
  assumes "Start command rf = Inr (rf', cs, index, term, isLeader)" "wf_log (log rf)"
  obtains (refused) "state rf \<noteq> Leader" "rf' = rf" "cs = []" "\<not> isLeader" "index = -1" "term = -1"
    | (started) "state rf = Leader" "isLeader" "index = int (length (log rf))" "term = currentTerm rf"
        "rf' = (persist rf)\<lparr>log := log rf @ [\<lparr>le_Term = currentTerm rf,
                                           le_Command = Some command, le_Index = index\<rparr>]\<rparr>"
        "sendHeartbeats rf' = Inr cs"
proof (cases "state rf = Leader")
  case True
  with assms show thesis by (intro that(2)) (auto simp add: Start_def Let_def bind_eq_Inr)
next
  case False
  with assms show thesis by (intro that(1)) (simp_all add: Start_def)
qed

lemma applyEntries_core: "applyEntries rf = Inr rf' \<Longrightarrow> same_core rf rf' \<and> commitIndex rf' = commitIndex rf"
  by (auto simp: applyEntries_def bind_eq_Inr same_core_def same_peer_def split: if_splits)

lemma same_core_peer:
  "same_core rf rf' \<Longrightarrow> same_peer rf rf' \<and> vote_le rf rf' \<and> (own_vote rf \<longrightarrow> own_vote rf')"
  by (auto simp: same_core_def peer_defs)

end
