(* ===== verification/Raft_Cluster.thy ===== *)
theory Raft_Cluster
  imports Raft_Node
begin

text \<open>
  A cluster of Raft peers over \<open>labrpc\<close>: the peers of \<open>Raft_Node\<close>, the goroutines
  and remote calls they have started, and one event per critical section.

  \<open>net\<close> lists the calls in progress. \<open>RunAppend\<close> is a \<open>handleAppendEntries\<close> goroutine
  that has not taken the lock yet; \<open>AppendReq\<close>, \<open>VoteReq\<close> are requests on their way
  to \<open>dst\<close>; \<open>AppendRep\<close>, \<open>VoteRep\<close> are replies on their way back to \<open>src\<close>;
  \<open>AppendEnd\<close> is the deferred \<open>persist\<close> of a \<open>handleAppendEntries\<close> whose call has
  returned. The network of \<open>labrpc\<close> delays, reorders and loses requests and
  replies, and delivers each at most once: any position of \<open>net\<close> may be
  delivered or lost next.

  \<open>cluster_exec\<close> runs one event; its result is \<open>Inl\<close> when the event is not enabled
  or the code would panic there. \<open>run\<close> is the set of finite executions, latest
  state first, from the cluster \<open>config.go\<close> builds with \<open>start1\<close>. No peer crashes
  in a \<open>run\<close>; \<open>Raft_Crash\<close> adds crashes and restarts.
\<close>

section \<open>The cluster and its events\<close>

datatype 'c rpc =
    RunAppend nat nat int "'c AppendEntriesArgs"
  | AppendReq nat nat int "'c AppendEntriesArgs"
  | AppendRep nat nat int "'c AppendEntriesArgs" AppendEntriesReply
  | AppendEnd nat
  | VoteReq nat nat RequestVoteArgs
  | VoteRep nat nat RequestVoteArgs RequestVoteReply

record 'c cluster =
  nodes :: "'c Raft list"
  net :: "'c rpc list"

datatype 'c event =
    ElectionTimeout nat     \<comment> \<open>\<open>electionTime\<close> of a peer fires\<close>
  | HeartbeatTimeout nat    \<comment> \<open>\<open>heartbeatTime\<close> of a peer fires\<close>
  | Deliver nat             \<comment> \<open>the call at a position of \<open>net\<close> makes its next step\<close>
  | Lose nat                \<comment> \<open>the network drops the request or reply at a position\<close>
  | ClientStart nat 'c      \<comment> \<open>the service calls \<open>Start\<close> on a peer\<close>
  | Apply nat               \<comment> \<open>\<open>applyEntries\<close> of a peer makes one iteration\<close>

definition spawnAppends :: "nat \<Rightarrow> 'c append_call list \<Rightarrow> 'c rpc list" where
  "spawnAppends src cs = map (\<lambda>(server, en, args). RunAppend src server en args) cs"

definition sendVotes :: "nat \<Rightarrow> (nat \<times> RequestVoteArgs) list \<Rightarrow> 'c rpc list" where
  "sendVotes src vs = map (\<lambda>(peer, args). VoteReq src peer args) vs"

fun deliver ::
    "'c rpc \<Rightarrow> 'c Raft list \<Rightarrow> 'c rpc list \<Rightarrow> ('c Raft list \<times> 'c rpc list) go" where
  "deliver (RunAppend src dst en args) ns rest =
     Inr (if handleAppendEntries args (ns ! src) then (ns, AppendReq src dst en args # rest)
          else (ns[src := persist (ns ! src)], rest))"
| "deliver (AppendReq src dst en args) ns rest =
     go_bind (AppendEntries args (ns ! dst)) (\<lambda>(rf, rep).
       Inr (ns[dst := rf], AppendRep src dst en args rep # rest))"
| "deliver (AppendRep src dst en args rep) ns rest =
     go_bind (respAppendEntries dst en args rep (ns ! src)) (\<lambda>(rf, cs).
       Inr (ns[src := rf], AppendEnd src # spawnAppends src cs @ rest))"
| "deliver (AppendEnd src) ns rest = Inr (ns[src := persist (ns ! src)], rest)"
| "deliver (VoteReq src dst args) ns rest =
     go_bind (RequestVote args (ns ! dst)) (\<lambda>(rf, rep).
       Inr (ns[dst := rf], VoteRep src dst args rep # rest))"
| "deliver (VoteRep src dst args rep) ns rest =
     go_bind (electionReply args rep (ns ! src)) (\<lambda>(rf, cs).
       Inr (ns[src := rf], spawnAppends src cs @ rest))"

fun lose :: "'c rpc \<Rightarrow> 'c rpc list \<Rightarrow> 'c rpc list go" where
  "lose (AppendReq src dst en args) rest = Inr (AppendEnd src # rest)"
| "lose (AppendRep src dst en args rep) rest = Inr (AppendEnd src # rest)"
| "lose (VoteReq src dst args) rest = Inr rest"
| "lose (VoteRep src dst args rep) rest = Inr rest"
| "lose _ rest = Inl Blocks"

definition at_node :: "nat \<Rightarrow> 'c cluster \<Rightarrow> ('c Raft \<Rightarrow> ('c Raft \<times> 'c rpc list) go) \<Rightarrow> 'c cluster go" where
  "at_node i s f =
     (if i < length (nodes s)
      then go_bind (f (nodes s ! i)) (\<lambda>(rf, ms).
             Inr (s\<lparr>nodes := (nodes s)[i := rf], net := ms @ net s\<rparr>))
      else Inl Blocks)"

fun cluster_exec :: "'c event \<Rightarrow> 'c cluster \<Rightarrow> 'c cluster go" where
  "cluster_exec (ElectionTimeout i) s = at_node i s (\<lambda>rf.
     go_bind (tickerElection rf) (\<lambda>(rf', vs). Inr (rf', sendVotes i vs)))"
| "cluster_exec (HeartbeatTimeout i) s = at_node i s (\<lambda>rf.
     go_bind (tickerHeartbeat rf) (\<lambda>cs. Inr (rf, spawnAppends i cs)))"
| "cluster_exec (ClientStart i command) s = at_node i s (\<lambda>rf.
     go_bind (Start command rf) (\<lambda>(rf', cs, _). Inr (rf', spawnAppends i cs)))"
| "cluster_exec (Apply i) s = at_node i s (\<lambda>rf.
     go_bind (applyEntries rf) (\<lambda>rf'. Inr (rf', [])))"
| "cluster_exec (Deliver k) s =
     (if k < length (net s)
      then go_bind (deliver (net s ! k) (nodes s) (remove_nth k (net s))) (\<lambda>(ns, ms).
             Inr (s\<lparr>nodes := ns, net := ms\<rparr>))
      else Inl Blocks)"
| "cluster_exec (Lose k) s =
     (if k < length (net s)
      then go_bind (lose (net s ! k) (remove_nth k (net s))) (\<lambda>ms. Inr (s\<lparr>net := ms\<rparr>))
      else Inl Blocks)"

definition init_cluster :: "nat \<Rightarrow> 'c cluster" where
  "init_cluster n = \<lparr>nodes = map (\<lambda>i. Make n i None) [0..<n], net = []\<rparr>"

inductive run :: "nat \<Rightarrow> 'c cluster list \<Rightarrow> bool" for n where
  start: "run n [init_cluster n]"
| step: "run n (s # ss) \<Longrightarrow> cluster_exec e s = Inr s' \<Longrightarrow> run n (s' # s # ss)"

text \<open>Executing a list of events from a state, for concrete runs.\<close>

fun exec_events :: "'c event list \<Rightarrow> 'c cluster list \<Rightarrow> 'c cluster list go" where
  "exec_events [] ss = Inr ss"
| "exec_events (e # es) ss = go_bind (cluster_exec e (hd ss)) (\<lambda>s'. exec_events es (s' # ss))"

lemma run_nonempty: "run n ss \<Longrightarrow> ss \<noteq> []"
  by (induction rule: run.induct) auto

lemma exec_events_run: "run n ss \<Longrightarrow> exec_events es ss = Inr ss' \<Longrightarrow> run n ss'"
proof (induction es arbitrary: ss)
  case (Cons e es)
  from Cons.prems obtain s' where "cluster_exec e (hd ss) = Inr s'" "exec_events es (s' # ss) = Inr ss'"
    by (auto simp: bind_eq_Inr)
  moreover from this(1) Cons.prems(1) run_nonempty [OF Cons.prems(1)] have "run n (s' # ss)"
    by (metis list.collapse run.step)
  ultimately show ?case by (rule_tac Cons.IH)
qed simp

section \<open>The steps of a cluster\<close>

definition peer_ok :: "nat \<Rightarrow> nat \<Rightarrow> 'c Raft \<Rightarrow> bool" where
  "peer_ok n i rf \<longleftrightarrow> me rf = i \<and> peers rf = n \<and>
     length (nextIndex rf) = n \<and> length (matchIndex rf) = n \<and>
     wf_log (log rf) \<and> own_vote rf \<and> 0 \<le> currentTerm rf \<and>
     (state rf \<noteq> Follower \<longrightarrow> 0 < currentTerm rf)"

definition args_ok :: "'c AppendEntriesArgs \<Rightarrow> bool" where
  "args_ok args \<longleftrightarrow> 0 \<le> ae_PrevLogIndex args \<and>
     wf_entries (nat (ae_PrevLogIndex args) + 1) (ae_Entries args)"

fun rpc_ok :: "nat \<Rightarrow> 'c rpc \<Rightarrow> bool" where
  "rpc_ok n (RunAppend src dst en args) \<longleftrightarrow> src < n \<and> dst < n \<and> src \<noteq> dst \<and> args_ok args"
| "rpc_ok n (AppendReq src dst en args) \<longleftrightarrow> src < n \<and> dst < n \<and> src \<noteq> dst \<and> args_ok args"
| "rpc_ok n (AppendRep src dst en args rep) \<longleftrightarrow> src < n \<and> dst < n \<and> src \<noteq> dst \<and> args_ok args"
| "rpc_ok n (AppendEnd src) \<longleftrightarrow> src < n"
| "rpc_ok n (VoteReq src dst args) \<longleftrightarrow>
     src < n \<and> dst < n \<and> src \<noteq> dst \<and> rv_CandidateId args = int src"
| "rpc_ok n (VoteRep src dst args rep) \<longleftrightarrow>
     src < n \<and> dst < n \<and> src \<noteq> dst \<and> rv_CandidateId args = int src"

definition cluster_ok :: "nat \<Rightarrow> 'c cluster \<Rightarrow> bool" where
  "cluster_ok n s \<longleftrightarrow> length (nodes s) = n \<and> (\<forall>i < n. peer_ok n i (nodes s ! i)) \<and>
     (\<forall>m \<in> set (net s). rpc_ok n m)"

lemma cluster_okD:
  "cluster_ok n s \<Longrightarrow> length (nodes s) = n"
  "cluster_ok n s \<Longrightarrow> i < n \<Longrightarrow> peer_ok n i (nodes s ! i)"
  "cluster_ok n s \<Longrightarrow> k < length (net s) \<Longrightarrow> rpc_ok n (net s ! k)"
  by (auto simp: cluster_ok_def)

text \<open>Every successful event is one of ten kinds of step.\<close>

lemma cluster_exec_Inr:
  assumes "cluster_exec e s = Inr s'" "cluster_ok n s"
  obtains (timeout) i rf vs where "i < n" "tickerElection (nodes s ! i) = Inr (rf, vs)"
      "nodes s' = (nodes s)[i := rf]" "net s' = sendVotes i vs @ net s"
    | (heartbeat) i cs where "i < n" "tickerHeartbeat (nodes s ! i) = Inr cs"
      "nodes s' = nodes s" "net s' = spawnAppends i cs @ net s"
    | (client) i c rf cs r where "i < n" "Start c (nodes s ! i) = Inr (rf, cs, r)"
      "nodes s' = (nodes s)[i := rf]" "net s' = spawnAppends i cs @ net s"
    | (applied) i rf where "i < n" "applyEntries (nodes s ! i) = Inr rf"
      "nodes s' = (nodes s)[i := rf]" "net s' = net s"
    | (sent) k src dst en args where "k < length (net s)" "net s ! k = RunAppend src dst en args"
      "nodes s' = nodes s" "net s' = AppendReq src dst en args # remove_nth k (net s)"
    | (ended) k i where "k < length (net s)" "i < n"
      "nodes s' = (nodes s)[i := persist (nodes s ! i)]" "net s' = remove_nth k (net s)"
    | (appendReq) k src dst en args rf rep where "k < length (net s)" "dst < n"
      "net s ! k = AppendReq src dst en args" "AppendEntries args (nodes s ! dst) = Inr (rf, rep)"
      "nodes s' = (nodes s)[dst := rf]" "net s' = AppendRep src dst en args rep # remove_nth k (net s)"
    | (appendRep) k src dst en args rep rf cs where "k < length (net s)" "src < n" "dst < n" "src \<noteq> dst"
      "net s ! k = AppendRep src dst en args rep"
      "respAppendEntries dst en args rep (nodes s ! src) = Inr (rf, cs)"
      "nodes s' = (nodes s)[src := rf]"
      "net s' = AppendEnd src # spawnAppends src cs @ remove_nth k (net s)"
    | (voteReq) k src dst args rf rep where "k < length (net s)" "dst < n"
      "net s ! k = VoteReq src dst args" "RequestVote args (nodes s ! dst) = Inr (rf, rep)"
      "nodes s' = (nodes s)[dst := rf]" "net s' = VoteRep src dst args rep # remove_nth k (net s)"
    | (voteRep) k src dst args rep rf cs where "k < length (net s)" "src < n"
      "net s ! k = VoteRep src dst args rep" "electionReply args rep (nodes s ! src) = Inr (rf, cs)"
      "nodes s' = (nodes s)[src := rf]" "net s' = spawnAppends src cs @ remove_nth k (net s)"
    | (lost) k ms where "k < length (net s)" "nodes s' = nodes s" "net s' = ms @ remove_nth k (net s)"
      "\<forall>m \<in> set ms. \<exists>src < n. m = AppendEnd src"
proof (cases e)
  case (ElectionTimeout i)
  with assms that(1) show thesis
    by (auto simp: at_node_def bind_eq_Inr cluster_okD split: if_splits)
next
  case (HeartbeatTimeout i)
  with assms that(2) show thesis
    by (auto simp: at_node_def bind_eq_Inr cluster_okD split: if_splits)
next
  case (ClientStart i c)
  with assms that(3) show thesis
    by (auto simp: at_node_def bind_eq_Inr cluster_okD split: if_splits)
next
  case (Apply i)
  with assms that(4) show thesis
    by (auto simp: at_node_def bind_eq_Inr cluster_okD split: if_splits)
next
  case (Lose k)
  with assms have k: "k < length (net s)" by (auto split: if_splits)
  with assms Lose that(11) [of k "[]"] that(11) [of k "[AppendEnd src]" for src] cluster_okD(3) [OF assms(2) k]
  show thesis by (cases "net s ! k") (auto simp: bind_eq_Inr)
next
  case (Deliver k)
  with assms have k: "k < length (net s)" by (auto split: if_splits)
  note ok = cluster_okD(3) [OF assms(2) k]
  show thesis
  proof (cases "net s ! k")
    case (RunAppend src dst en args)
    with assms(1) Deliver k ok show thesis
      using that(5) [OF k RunAppend] that(6) [OF k] by (auto simp: bind_eq_Inr split: if_splits)
  next
    case (AppendReq src dst en args)
    with assms(1) Deliver k ok that(7) [OF k _ AppendReq] show thesis by (auto simp: bind_eq_Inr)
  next
    case (AppendRep src dst en args rep)
    with assms(1) Deliver k ok that(8) [OF k _ _ _ AppendRep] show thesis by (auto simp: bind_eq_Inr)
  next
    case (AppendEnd src)
    with assms(1) Deliver k ok that(6) [OF k] show thesis by (auto simp: bind_eq_Inr)
  next
    case (VoteReq src dst args)
    with assms(1) Deliver k ok that(9) [OF k _ VoteReq] show thesis by (auto simp: bind_eq_Inr)
  next
    case (VoteRep src dst args rep)
    with assms(1) Deliver k ok that(10) [OF k _ VoteRep] show thesis by (auto simp: bind_eq_Inr)
  qed
qed


text \<open>What a call to \<open>AppendEntries\<close> carries: the suffix of a log after \<open>PrevLogIndex\<close>.\<close>

definition carries :: "'c LogEntry list \<Rightarrow> 'c AppendEntriesArgs \<Rightarrow> bool" where
  "carries l args \<longleftrightarrow> 0 \<le> ae_PrevLogIndex args \<and> nat (ae_PrevLogIndex args) < length l \<and>
     ae_PrevLogTerm args = le_Term (l ! nat (ae_PrevLogIndex args)) \<and>
     ae_Entries args = drop (nat (ae_PrevLogIndex args) + 1) l"

fun call_from :: "'c Raft \<Rightarrow> 'c append_call \<Rightarrow> bool" where
  "call_from rf (dst, en, args) \<longleftrightarrow> dst < peers rf \<and> dst \<noteq> me rf \<and> state rf = Leader \<and>
     ae_Term args = currentTerm rf \<and> carries (log rf) args"

lemma carries_args_ok: "carries l args \<Longrightarrow> wf_log l \<Longrightarrow> args_ok args"
  using wf_entries_drop [of l "nat (ae_PrevLogIndex args) + 1"] by (simp add: carries_def args_ok_def)

lemma appendCall_from:
  assumes "appendCall rf i = Inr c" "wf_log (log rf)" "i < peers rf" "i \<noteq> me rf" "state rf = Leader"
  shows "call_from rf c"
  using assms by (cases c)
    (auto simp: appendCall_def bind_eq_Inr carries_def go_simps nat_diff_distrib nat_add_distrib Suc_nat_eq_nat_zadd1)

lemma heartbeatLoop_from:
  assumes "heartbeatLoop rf is = Inr cs" "wf_log (log rf)" "set is \<subseteq> {..<peers rf}" "state rf = Leader"
  shows "\<forall>c \<in> set cs. call_from rf c"
  using assms
proof (induction "is" arbitrary: cs)
  case (Cons i "is")
  then show ?case
    by (auto simp: bind_eq_Inr simp del: call_from.simps split: if_splits intro: appendCall_from)
qed simp

lemma sendHeartbeats_from:
  "sendHeartbeats rf = Inr cs \<Longrightarrow> wf_log (log rf) \<Longrightarrow> state rf = Leader \<Longrightarrow> \<forall>c \<in> set cs. call_from rf c"
  by (auto simp: sendHeartbeats_def simp del: call_from.simps dest!: heartbeatLoop_from)

lemma peer_ok_carry:
  assumes "peer_ok n i rf" "same_peer rf rf'" "vote_le rf rf'" "own_vote rf'" "wf_log (log rf')"
    "state rf' \<noteq> Follower \<Longrightarrow> state rf \<noteq> Follower \<or> currentTerm rf < currentTerm rf'"
  shows "peer_ok n i rf'"
  using assms by (auto simp: peer_ok_def same_peer_def vote_le_def)

lemma peer_ok_core: "peer_ok n i rf \<Longrightarrow> same_core rf rf' \<Longrightarrow> peer_ok n i rf'"
  using same_core_peer [of rf rf'] by (auto simp: peer_ok_def same_core_def same_peer_def)

lemma tickerElection_ok:
  assumes "tickerElection rf = Inr (rf', vs)" "peer_ok n i rf"
  shows "peer_ok n i rf'"
  using assms(1)
proof (cases rule: tickerElection_Inr)
  case (candidate l)
  then show ?thesis using assms(2) by (auto simp: peer_ok_def own_vote_def)
qed (use assms(2) in simp)

lemma Start_ok:
  assumes "Start c rf = Inr (rf', cs, r)" "peer_ok n i rf"
  shows "peer_ok n i rf' \<and> vote_le rf rf' \<and> (\<forall>c \<in> set cs. call_from rf' c)"
proof -
  have wf: "wf_log (log rf)" using assms(2) by (simp add: peer_ok_def)
  obtain x y z where r: "r = (x, y, z)" by (cases r)
  from assms(1) [unfolded r] wf show ?thesis
  proof (cases rule: Start_Inr)
    case started
    then have "wf_log (log rf')"
      using wf_log_append [OF wf, of "[\<lparr>le_Term = currentTerm rf, le_Command = Some c, le_Index = x\<rparr>]"]
      by (simp add: wf_entries_def)
    moreover from this sendHeartbeats_from [OF started(6)] started(1,5)
    have "\<forall>c \<in> set cs. call_from rf' c" by simp
    ultimately show ?thesis using started(5) assms(2) by (simp add: peer_ok_def own_vote_def vote_le_def)
  qed (use assms(2) in simp)
qed

lemma respAppendEntries_ok:
  assumes "respAppendEntries dst en args rep rf = Inr (rf', cs)" "peer_ok n i rf" "dst < n" "dst \<noteq> i"
  shows "peer_ok n i rf' \<and> (\<forall>c \<in> set cs. call_from rf' c)"
  using assms(1)
proof (cases rule: respAppendEntries_Inr)
  case success
  with respSuccess_core [OF success(4)] assms(2) peer_ok_core show ?thesis by auto
next
  case (retry c ni)
  with assms(2) have "peer_ok n i rf'" by (auto simp: peer_ok_def own_vote_def go_simps)
  with retry assms appendCall_from [OF retry(6)] show ?thesis by (simp add: peer_ok_def)
qed (use assms(2) in \<open>auto simp: peer_ok_def own_vote_def\<close>)

lemma electionReply_ok:
  assumes "electionReply args rep rf = Inr (rf', cs)" "peer_ok n i rf"
  shows "peer_ok n i rf' \<and> (\<forall>c \<in> set cs. call_from rf' c)"
  using assms(1)
proof (cases rule: electionReply_Inr)
  case elected
  then have "peer_ok n i rf'" using assms(2) by (simp add: peer_ok_def own_vote_def becomeLeader_def)
  moreover from this sendHeartbeats_from [OF elected(7)] have "\<forall>c \<in> set cs. call_from rf' c"
    using elected(6) by (simp add: peer_ok_def becomeLeader_def)
  ultimately show ?thesis by simp
qed (use assms(2) in \<open>auto simp: peer_ok_def own_vote_def\<close>)

lemma RequestVote_ok:
  assumes "RequestVote args rf = Inr (rf', rep)" "peer_ok n i rf"
  shows "peer_ok n i rf'"
  using assms(1)
proof (cases rule: RequestVote_Inr)
qed (use assms(2) in \<open>auto simp: peer_ok_def own_vote_def\<close>)

lemma AppendEntries_log:
  assumes "AppendEntries args rf = Inr (rf', rep)" "wf_log (log rf)" "args_ok args"
  shows "log rf' = log rf \<or> (appendResult (log rf) (nat (ae_PrevLogIndex args) + 1) (ae_Entries args) (log rf')
    \<and> nat (ae_PrevLogIndex args) < length (log rf)
    \<and> le_Term (log rf ! nat (ae_PrevLogIndex args)) = ae_PrevLogTerm args \<and> state rf' = Follower)"
  using assms(1,2)
proof (cases rule: AppendEntries_Inr)
  case accepted
  with appendLoop_result [OF assms(2), of "nat (ae_PrevLogIndex args) + 1" "ae_Entries args"] assms(3)
  show ?thesis by (auto simp: args_ok_def)
qed auto

lemma AppendEntries_ok:
  assumes "AppendEntries args rf = Inr (rf', rep)" "peer_ok n i rf" "args_ok args"
  shows "peer_ok n i rf'"
proof -
  have wf: "wf_log (log rf)" using assms(2) by (simp add: peer_ok_def)
  then have "wf_log (log rf')"
    using AppendEntries_log [OF assms(1) wf assms(3)] assms(3) appendResult_wf
    by (fastforce simp: args_ok_def)
  with AppendEntries_peer [OF assms(1) wf] assms(2)
  have ok: "(state rf' \<noteq> Follower \<Longrightarrow> state rf \<noteq> Follower \<or> currentTerm rf < currentTerm rf') \<Longrightarrow> peer_ok n i rf'"
    by (intro peer_ok_carry [OF assms(2)]) (simp_all add: peer_ok_def)
  from assms(1) wf show ?thesis
    by (cases rule: AppendEntries_Inr) (rule ok, simp)+
qed

lemma set_remove_nthD: "m \<in> set (remove_nth k xs) \<Longrightarrow> m \<in> set xs"
  using set_remove_nth_subset by fast

lemma spawnAppends_ok:
  assumes "\<forall>c \<in> set cs. call_from rf c" "peer_ok n i rf" "i < n" "m \<in> set (spawnAppends i cs)"
  shows "rpc_ok n m"
  using assms by (fastforce simp: spawnAppends_def peer_ok_def intro: carries_args_ok)

lemma sendVotes_ok:
  assumes "tickerElection rf = Inr (rf', vs)" "peer_ok n i rf" "i < n" "m \<in> set (sendVotes i vs)"
  shows "rpc_ok n m"
  using assms(1)
proof (cases rule: tickerElection_Inr)
  case (candidate l)
  then show ?thesis using assms(2-) by (auto simp: sendVotes_def conductElection_def peer_ok_def)
qed (use assms(4) in \<open>simp add: sendVotes_def\<close>)

lemma tickerHeartbeat_from:
  "tickerHeartbeat rf = Inr cs \<Longrightarrow> peer_ok n i rf \<Longrightarrow> \<forall>c \<in> set cs. call_from rf c"
  by (auto simp: tickerHeartbeat_def peer_ok_def simp del: call_from.simps split: if_splits
      dest!: sendHeartbeats_from)

lemma cluster_ok_update:
  assumes "cluster_ok n s" "nodes s' = (nodes s)[i := rf]" "i < n" "peer_ok n i rf"
    "\<And>m. m \<in> set (net s') \<Longrightarrow> m \<in> set (net s) \<or> rpc_ok n m"
  shows "cluster_ok n s'"
  using assms by (auto simp: cluster_ok_def nth_list_update)

lemma cluster_exec_ok:
  assumes "cluster_exec e s = Inr s'" and ok: "cluster_ok n s"
  shows "cluster_ok n s'"
  using assms
proof (cases rule: cluster_exec_Inr)
  case (timeout i rf vs)
  with cluster_okD(2) [OF ok timeout(1)] show ?thesis
    by (intro cluster_ok_update [OF ok timeout(3)]) (auto intro: tickerElection_ok sendVotes_ok)
next
  case (heartbeat i cs)
  note i = cluster_okD(2) [OF ok heartbeat(1)]
  from heartbeat i spawnAppends_ok [OF tickerHeartbeat_from [OF heartbeat(2) i] i heartbeat(1)]
  show ?thesis by (intro cluster_ok_update [OF ok, where i = i and rf = "nodes s ! i"]) auto
next
  case (client i c rf cs r)
  with Start_ok [OF client(2) cluster_okD(2) [OF ok client(1)]] show ?thesis
    by (intro cluster_ok_update [OF ok client(3)]) (auto intro: spawnAppends_ok)
next
  case (applied i rf)
  with applyEntries_core [OF applied(2)] peer_ok_core [OF cluster_okD(2) [OF ok applied(1)]]
  show ?thesis by (intro cluster_ok_update [OF ok applied(3)]) auto
next
  case (sent k src dst en args)
  with cluster_okD(3) [OF ok sent(1)] ok show ?thesis
    by (auto simp: cluster_ok_def dest: set_remove_nthD)
next
  case (ended k i)
  with cluster_okD(2) [OF ok ended(2)] show ?thesis
    by (intro cluster_ok_update [OF ok ended(3)]) (auto simp: peer_ok_def own_vote_def dest: set_remove_nthD)
next
  case (appendReq k src dst en args rf rep)
  with cluster_okD(3) [OF ok appendReq(1)] AppendEntries_ok [OF appendReq(4) cluster_okD(2) [OF ok appendReq(2)]]
  show ?thesis by (intro cluster_ok_update [OF ok appendReq(5)]) (auto dest: set_remove_nthD)
next
  case (appendRep k src dst en args rep rf cs)
  with respAppendEntries_ok [OF appendRep(6) cluster_okD(2) [OF ok appendRep(2)]] show ?thesis
    by (intro cluster_ok_update [OF ok appendRep(7)]) (auto dest: set_remove_nthD intro: spawnAppends_ok)
next
  case (voteReq k src dst args rf rep)
  with cluster_okD(3) [OF ok voteReq(1)] RequestVote_ok [OF voteReq(4) cluster_okD(2) [OF ok voteReq(2)]]
  show ?thesis by (intro cluster_ok_update [OF ok voteReq(5)]) (auto dest: set_remove_nthD)
next
  case (voteRep k src dst args rep rf cs)
  with electionReply_ok [OF voteRep(4) cluster_okD(2) [OF ok voteRep(2)]] show ?thesis
    by (intro cluster_ok_update [OF ok voteRep(5)]) (auto dest: set_remove_nthD intro: spawnAppends_ok)
next
  case (lost k ms)
  with ok show ?thesis by (auto simp: cluster_ok_def dest: set_remove_nthD)
qed

lemma init_cluster_nth: "i < n \<Longrightarrow> nodes (init_cluster n) ! i = Make n i None"
  by (simp add: init_cluster_def)

lemma init_cluster_ok: "cluster_ok n (init_cluster n)"
  by (auto simp: cluster_ok_def init_cluster_def peer_ok_def own_vote_def wf_log_Cons_Make)
    (simp_all add: Make_def readPersist_def)

lemma run_ok: "run n ss \<Longrightarrow> s \<in> set ss \<Longrightarrow> cluster_ok n s"
  by (induction arbitrary: s rule: run.induct) (auto simp: init_cluster_ok intro: cluster_exec_ok)

text \<open>Each step changes at most one peer, and respects the discipline of votes.\<close>

lemma cluster_exec_vote_le:
  assumes "cluster_exec e s = Inr s'" "cluster_ok n s" "i < n"
  shows "vote_le (nodes s ! i) (nodes s' ! i)"
  using assms(1,2)
proof (cases rule: cluster_exec_Inr)
  case (timeout i rf vs)
  with tickerElection_peer [OF timeout(2)] assms(2,3) show ?thesis
    by (auto simp add: nth_list_update cluster_okD)
next
  case (client i c rf cs r)
  with Start_ok [OF client(2) cluster_okD(2) [OF assms(2) client(1)]] assms(2,3) show ?thesis
    by (auto simp add: nth_list_update cluster_okD)
next
  case (applied i rf)
  with applyEntries_core [OF applied(2)] same_core_peer assms(2,3) show ?thesis
    by (auto simp add: nth_list_update cluster_okD)
next
  case (ended k i)
  with assms(2,3) show ?thesis by (auto simp add: nth_list_update cluster_okD vote_le_def)
next
  case (appendReq k src dst en args rf rep)
  with cluster_okD(2) [OF assms(2) appendReq(2)] AppendEntries_peer [OF appendReq(4)] assms(2,3)
  show ?thesis by (auto simp add: nth_list_update cluster_okD peer_ok_def)
next
  case (appendRep k src dst en args rep rf cs)
  with respAppendEntries_peer [OF appendRep(6)] assms(2,3) show ?thesis
    by (auto simp add: nth_list_update cluster_okD)
next
  case (voteReq k src dst args rf rep)
  with RequestVote_peer [OF voteReq(4)] assms(2,3) show ?thesis
    by (auto simp add: nth_list_update cluster_okD)
next
  case (voteRep k src dst args rep rf cs)
  with electionReply_peer [OF voteRep(4)] assms(2,3) show ?thesis
    by (auto simp add: nth_list_update cluster_okD)
qed simp_all

lemma run_votes_sorted:
  "run n ss \<Longrightarrow> i < n \<Longrightarrow> sorted_wrt (\<lambda>s' s. vote_le (nodes s ! i) (nodes s' ! i)) ss"
proof (induction rule: run.induct)
  case (step s ss e s')
  have "vote_le (nodes s ! i) (nodes s' ! i)"
    using cluster_exec_vote_le [OF step.hyps(2) run_ok [OF step.hyps(1)] step.prems] by simp
  with step.IH [OF step.prems] show ?case by (auto intro: vote_le_trans)
qed simp

lemma sorted_wrt_total:
  "sorted_wrt R xs \<Longrightarrow> x \<in> set xs \<Longrightarrow> y \<in> set xs \<Longrightarrow> x = y \<or> R x y \<or> R y x"
  by (induction xs) auto

lemma run_vote_le_cases:
  assumes "run n ss" "i < n" "s \<in> set ss" "s' \<in> set ss"
  shows "vote_le (nodes s ! i) (nodes s' ! i) \<or> vote_le (nodes s' ! i) (nodes s ! i)"
  using sorted_wrt_total [OF run_votes_sorted [OF assms(1,2)] assms(3,4)] by auto

lemma run_hd_latest:
  assumes "run n (s # ss)" "i < n" "s' \<in> set (s # ss)"
  shows "vote_le (nodes s' ! i) (nodes s ! i)"
  using run_votes_sorted [OF assms(1,2)] assms(3) by auto

lemma run_drop: "run n ss \<Longrightarrow> k < length ss \<Longrightarrow> run n (drop k ss)"
proof (induction arbitrary: k rule: run.induct)
  case (step s ss e s')
  then show ?case by (cases k) (auto intro: run.step)
qed (auto intro: run.start)

section \<open>A sample execution\<close>

text \<open>Three peers: peer 0 is elected by peer 1, the service starts command 7, peer 1 stores
  and acknowledges it, peer 0 commits and applies it, and after a heartbeat so does peer 1.\<close>

definition sample_events :: "nat event list" where
  "sample_events =
     [ElectionTimeout 0, Deliver 0, Deliver 0, ClientStart 0 7, Deliver 0, Deliver 0, Deliver 0,
      Apply 0, HeartbeatTimeout 0, Deliver 0, Deliver 0, Deliver 0, Apply 1]"

definition sample_run :: "nat cluster list" where
  "sample_run =
     (case exec_events sample_events [init_cluster 3] of Inr ss \<Rightarrow> ss | Inl _ \<Rightarrow> [])"

lemma sample_run_run: "run 3 sample_run"
proof -
  have "case exec_events sample_events [init_cluster 3] of Inr ss \<Rightarrow> True | Inl _ \<Rightarrow> False" by code_simp
  then have "exec_events sample_events [init_cluster 3] = Inr sample_run"
    by (auto simp: sample_run_def split: sum.splits)
  with exec_events_run [OF run.start] show ?thesis by blast
qed

lemma sample_run_length: "length sample_run = 14"
  by code_simp

lemma sample_run_nth: "k < 14 \<Longrightarrow> sample_run ! k \<in> set sample_run"
  by (simp add: sample_run_length)

section \<open>Handlers do not panic\<close>

lemma logUpToDate_total: "wf_log (log rf) \<Longrightarrow> \<exists>b. logUpToDate args rf = Inr b"
  by (auto simp: logUpToDate_def)

lemma RequestVote_total: "wf_log (log rf) \<Longrightarrow> \<exists>r. RequestVote args rf = Inr r"
  unfolding RequestVote_def Let_def
  using logUpToDate_total [of rf args]
    logUpToDate_total [of "rf\<lparr>currentTerm := rv_Term args, state := Follower, votedFor := -1\<rparr>" args]
  by auto

lemma tickerElection_total: "wf_log (log rf) \<Longrightarrow> \<exists>r. tickerElection rf = Inr r"
  by (simp add: tickerElection_def Let_def)

lemma followLeaderCommit_total:
  "wf_log (log rf) \<Longrightarrow> hasCommittedChan rf < 1000 \<Longrightarrow> \<exists>r. followLeaderCommit lc rf = Inr r"
  by (simp add: followLeaderCommit_def notifyCommitted_def)

lemma AppendEntries_total:
  assumes "wf_log (log rf)" "args_ok args" "hasCommittedChan rf < 1000"
  shows "\<exists>r. AppendEntries args rf = Inr r"
proof (cases "ae_Term args < currentTerm rf")
  case False
  let ?p = "nat (ae_PrevLogIndex args)" and ?rf = "adoptTerm (ae_Term args) rf"
  have wf: "wf_log (log ?rf)" and p: "0 \<le> ae_PrevLogIndex args" "wf_entries (?p + 1) (ae_Entries args)"
    using assms(1,2) by (simp_all add: args_ok_def)
  have "\<exists>r. appendAccepted args ?rf = Inr r"
  proof (cases "?p < length (log rf) \<and> le_Term (log rf ! ?p) = ae_PrevLogTerm args")
    case True
    then obtain r where r: "appendLoop (log rf) (ae_Entries args) = Inr r"
      "appendResult (log rf) (?p + 1) (ae_Entries args) r"
      using appendLoop_result [OF assms(1) _ _ p(2)] by auto
    have "wf_log r" using appendResult_wf [OF r(2) assms(1) _ p(2)] by simp
    moreover have "hasCommittedChan ?rf < 1000" using assms(3) by (simp add: adoptTerm_def Let_def)
    ultimately obtain rf1 where
      "followLeaderCommit (ae_LeaderCommit args) (?rf\<lparr>log := r\<rparr>) = Inr rf1"
      using followLeaderCommit_total [of "?rf\<lparr>log := r\<rparr>"] by auto
    with True r(1) wf p(1) show ?thesis by (simp add: appendAccepted_wf Let_def)
  next
    case False
    then show ?thesis using wf p(1) by (auto simp: appendAccepted_wf Let_def)
  qed
  with False show ?thesis by (auto simp: AppendEntries_def)
qed (simp add: AppendEntries_def)

text \<open>C7: in every execution, a peer never panics in \<open>RequestVote\<close> or when its election timer
  fires, and \<open>AppendEntries\<close> never panics on a request that is in transit; it can only block,
  and only when a thousand commit notifications are waiting in \<open>hasCommittedChan\<close>.\<close>

theorem handlers_do_not_panic:
  assumes "run n (s # ss)" "i < n"
  shows "(\<exists>r. RequestVote vargs (nodes s ! i) = Inr r) \<and> (\<exists>r. tickerElection (nodes s ! i) = Inr r) \<and>
    (AppendReq src i en args \<in> set (net s) \<and> hasCommittedChan (nodes s ! i) < 1000 \<longrightarrow>
      (\<exists>r. AppendEntries args (nodes s ! i) = Inr r))"
proof -
  have ok: "cluster_ok n s" using run_ok [OF assms(1)] by simp
  then have wf: "wf_log (log (nodes s ! i))" using cluster_okD(2) [OF ok assms(2)] by (simp add: peer_ok_def)
  have "args_ok args" if "AppendReq src i en args \<in> set (net s)"
    using ok that by (auto simp: cluster_ok_def)
  then show ?thesis
    using AppendEntries_total [OF wf] RequestVote_total [OF wf] tickerElection_total [OF wf] by blast
qed

theorem handlers_do_not_panic_witness:
  "(\<exists>r. tickerElection (nodes (hd sample_run) ! 2) = Inr r) \<and>
   (\<exists>r. RequestVote \<lparr>rv_Term = 5, rv_CandidateId = 1, rv_LastLogIndex = 0, rv_LastLogTerm = 0\<rparr>
      (nodes (hd sample_run) ! 2) = Inr r)"
proof -
  have "run 3 (hd sample_run # tl sample_run)"
    using sample_run_run run_nonempty [OF sample_run_run] by simp
  then show ?thesis
    using handlers_do_not_panic [of 3 "hd sample_run" "tl sample_run" 2] by simp
qed



text \<open>A request that \<open>AppendEntries\<close> accepts. The peer takes the term of the request
  and follows; its log keeps everything up to \<open>PrevLogIndex\<close>, holds an entry of the
  right term for every entry of the request, and is left alone when the request
  brings nothing new, so that a delayed request does not truncate it.\<close>

theorem AppendEntries_accepts:
  assumes "AppendEntries args rf = Inr (rf', rep)" "aer_Success rep" "wf_log (log rf)" "args_ok args"
  defines "p \<equiv> nat (ae_PrevLogIndex args)" and "es \<equiv> ae_Entries args"
  shows "currentTerm rf' = ae_Term args \<and> state rf' = Follower \<and> wf_log (log rf') \<and>
    p < length (log rf) \<and> take (p + 1) (log rf') = take (p + 1) (log rf) \<and>
    (\<forall>k < length es. p + 1 + k < length (log rf') \<and> le_Term (log rf' ! (p + 1 + k)) = le_Term (es ! k)) \<and>
    (p + 1 + length es \<le> length (log rf) \<and>
       (\<forall>k < length es. le_Term (log rf ! (p + 1 + k)) = le_Term (es ! k)) \<longrightarrow> log rf' = log rf)"
  using assms(1,3)
proof (cases rule: AppendEntries_Inr)
  case accepted
  then have p: "p + 1 \<le> length (log rf)" by (simp add: p_def)
  have es: "wf_entries (p + 1) es" using assms(4) by (simp add: args_ok_def p_def es_def)
  with appendLoop_result [OF assms(3) _ p es] accepted(7)
  have r: "appendResult (log rf) (p + 1) es (log rf')" by (simp add: es_def)
  with accepted p appendResult_wf [OF r assms(3) _ es] appendResult_prefix [OF r p]
    appendResult_entries [OF r] appendResult_keeps [OF r] show ?thesis by auto
qed (use assms(2) in auto)

theorem AppendEntries_accepts_witness:
  "let rf = (Make 3 1 None :: nat Raft);
       e = \<lparr>le_Term = 1, le_Command = Some 7, le_Index = 1\<rparr>;
       args = \<lparr>ae_Term = 1, ae_LeaderId = 0, ae_PrevLogIndex = 0, ae_PrevLogTerm = 0,
               ae_Entries = [e], ae_LeaderCommit = 0\<rparr> in
   case AppendEntries args rf of
     Inr (rf', rep) \<Rightarrow> aer_Success rep \<and> take 1 (log rf') = log rf \<and> 1 < length (log rf') \<and> log rf' ! 1 = e
   | Inl _ \<Rightarrow> False"
proof -
  define e :: "nat LogEntry" where "e = \<lparr>le_Term = 1, le_Command = Some 7, le_Index = 1\<rparr>"
  define args where "args = \<lparr>ae_Term = 1, ae_LeaderId = 0, ae_PrevLogIndex = 0, ae_PrevLogTerm = 0,
               ae_Entries = [e], ae_LeaderCommit = 0\<rparr>"
  define rf where "rf = (Make 3 1 None :: nat Raft)"
  have "case AppendEntries args rf of Inr (rf', rep) \<Rightarrow> aer_Success rep \<and> log rf' ! 1 = e | Inl _ \<Rightarrow> False"
    unfolding args_def rf_def e_def by code_simp
  then obtain rf' rep where 1: "AppendEntries args rf = Inr (rf', rep)" "aer_Success rep" "log rf' ! 1 = e"
    by (auto split: sum.splits)
  have wf: "wf_log (log rf)" by (simp add: rf_def wf_log_Cons_Make)
  have ok: "args_ok args" by (simp add: args_ok_def args_def wf_entries_def e_def)
  have "log rf = take 1 (log rf)" by (simp add: rf_def Make_def readPersist_def)
  with AppendEntries_accepts [OF 1(1,2) wf ok] 1 have
    "take 1 (log rf') = log rf \<and> 1 < length (log rf')" by (simp add: args_def)
  with 1 show ?thesis by (simp add: args_def rf_def e_def Let_def)
qed

end
