(* ===== verification/Raft_Election.thy ===== *)
theory Raft_Election
  imports Raft_Cluster
begin

text \<open>
  Election safety of \<open>raft.go\<close>: in an execution without crashes no term has two leaders.

  The interface \<open>ballots\<close> is the argument of the Raft paper without its state
  machine: quorums that intersect, and voters that give one vote per term, elect at
  most one candidate. The rest of the theory shows that the code provides it: the
  vote of a peer in a term never changes, a granted reply in transit
  stands for a vote that was given, and the counter \<open>totalVotes\<close> of a candidate counts
  distinct voters, because each peer's answer is delivered at most once.
\<close>

section \<open>Quorums and ballots\<close>

locale quorum_system =
  fixes quorum :: "'p set \<Rightarrow> bool"
  assumes quorum_inter: "quorum Q \<Longrightarrow> quorum R \<Longrightarrow> Q \<inter> R \<noteq> {}"

locale ballots = quorum_system quorum
  for quorum :: "'p set \<Rightarrow> bool" +
  fixes voted_for :: "'p \<Rightarrow> 't \<Rightarrow> 'c \<Rightarrow> bool"
  assumes voted_unique: "voted_for d t c \<Longrightarrow> voted_for d t c' \<Longrightarrow> c = c'"
begin

lemma one_winner:
  assumes "quorum Q" "\<And>d. d \<in> Q \<Longrightarrow> voted_for d t c"
    and "quorum R" "\<And>d. d \<in> R \<Longrightarrow> voted_for d t c'"
  shows "c = c'"
  using quorum_inter [OF assms(1,3)] assms(2,4) voted_unique by blast

end

definition majority :: "nat \<Rightarrow> nat set \<Rightarrow> bool" where
  "majority n Q \<longleftrightarrow> Q \<subseteq> {..<n} \<and> n div 2 < card Q"

interpretation maj: quorum_system "majority n" for n
proof
  fix Q R assume "majority n Q" "majority n R"
  then have Q: "Q \<subseteq> {..<n}" "R \<subseteq> {..<n}" and c: "n < card Q + card R"
    by (auto simp: majority_def)
  show "Q \<inter> R \<noteq> {}"
  proof
    assume "Q \<inter> R = {}"
    then have "card Q + card R = card (Q \<union> R)"
      using Q by (metis card_Un_disjoint finite_lessThan finite_subset)
    also have "\<dots> \<le> n" using Q card_mono [of "{..<n}" "Q \<union> R"] by simp
    finally show False using c by simp
  qed
qed

section \<open>Elections\<close>

text \<open>The votes still in transit between a candidate and a peer.\<close>

fun is_vote :: "nat \<Rightarrow> nat \<Rightarrow> int \<Rightarrow> 'c rpc \<Rightarrow> bool" where
  "is_vote i d t (VoteReq src dst args) \<longleftrightarrow> src = i \<and> dst = d \<and> rv_Term args = t"
| "is_vote i d t (VoteRep src dst args rep) \<longleftrightarrow> src = i \<and> dst = d \<and> rv_Term args = t"
| "is_vote i d t _ \<longleftrightarrow> False"

definition pending :: "nat \<Rightarrow> nat \<Rightarrow> int \<Rightarrow> 'c rpc list \<Rightarrow> nat" where
  "pending i d t ms = length (filter (is_vote i d t) ms)"

lemma pending_simps [simp]:
  "pending i d t [] = 0"
  "pending i d t (m # ms) = (if is_vote i d t m then Suc (pending i d t ms) else pending i d t ms)"
  "pending i d t (xs @ ys) = pending i d t xs + pending i d t ys"
  by (simp_all add: pending_def)

lemma pending_spawn [simp]: "pending i d t (spawnAppends j cs) = 0"
  by (induction cs) (auto simp: spawnAppends_def)

lemma pending_remove_le: "pending i d t (remove_nth k ms) \<le> pending i d t ms"
  by (simp add: pending_def filter_remove_nth_le)

lemma pending_remove:
  "k < length ms \<Longrightarrow> is_vote i d t (ms ! k) \<Longrightarrow> Suc (pending i d t (remove_nth k ms)) = pending i d t ms"
  using filter_remove_nth [of k ms "is_vote i d t"] by (simp add: pending_def)

lemma pending_remove_id:
  "k < length ms \<Longrightarrow> \<not> is_vote i d t (ms ! k) \<Longrightarrow> pending i d t (remove_nth k ms) = pending i d t ms"
  using filter_remove_nth [of k ms "is_vote i d t"] by (simp add: pending_def)

lemma pending_zero: "(\<And>m. m \<in> set ms \<Longrightarrow> \<not> is_vote i d t m) \<Longrightarrow> pending i d t ms = 0"
  by (simp add: pending_def filter_empty_conv)

text \<open>A step that does not move a peer's candidature or leadership.\<close>

definition role_keep :: "'c Raft \<Rightarrow> 'c Raft \<Rightarrow> bool" where
  "role_keep rf rf' \<longleftrightarrow> (state rf' \<noteq> Follower \<longrightarrow> state rf' = state rf \<and>
     currentTerm rf' = currentTerm rf \<and> totalVotes rf' = totalVotes rf)"

lemma role_keep_refl [simp]: "role_keep rf rf"
  by (simp add: role_keep_def)

lemma role_keep_core: "same_core rf rf' \<Longrightarrow> role_keep rf rf'"
  by (simp add: role_keep_def same_core_def)

lemma Start_role:
  assumes "Start c rf = Inr (rf', cs, r)" "wf_log (log rf)"
  shows "role_keep rf rf'"
proof -
  obtain x y z where r: "r = (x, y, z)" by (cases r)
  from assms [unfolded r] show ?thesis
    by (cases rule: Start_Inr) (simp_all add: role_keep_def)
qed

lemma AppendEntries_role:
  "AppendEntries args rf = Inr (rf', rep) \<Longrightarrow> wf_log (log rf) \<Longrightarrow> role_keep rf rf'"
  by (erule AppendEntries_Inr) (simp_all add: role_keep_def)

lemma respAppendEntries_role:
  assumes "respAppendEntries d en args rep rf = Inr (rf', cs)"
  shows "role_keep rf rf'"
  using assms
proof (cases rule: respAppendEntries_Inr)
  case success
  with respSuccess_core [OF success(4)] show ?thesis by (simp add: role_keep_core)
qed (simp_all add: role_keep_def)

lemma RequestVote_role: "RequestVote args rf = Inr (rf', rep) \<Longrightarrow> role_keep rf rf'"
  by (erule RequestVote_Inr) (simp_all add: role_keep_def)

lemma pending_sendVotes:
  "pending j d t (sendVotes i (map (\<lambda>k. (k, args)) (filter P [0..<n]))) =
     (if j = i \<and> t = rv_Term args \<and> d < n \<and> P d then 1 else 0)"
proof (induction n)
  case (Suc n)
  then show ?case by (auto simp: sendVotes_def less_Suc_eq)
qed (simp add: sendVotes_def)

lemma cluster_exec_roles:
  assumes "cluster_exec e s = Inr s'" and ok: "cluster_ok n s"
  obtains (keep) "\<forall>i < n. role_keep (nodes s ! i) (nodes s' ! i)"
      "\<forall>i d t. pending i d t (net s') \<le> pending i d t (net s)"
    | (candidate) i where "i < n" "state (nodes s' ! i) = Candidate" "totalVotes (nodes s' ! i) = 1"
      "currentTerm (nodes s' ! i) = currentTerm (nodes s ! i) + 1"
      "\<forall>j. j \<noteq> i \<longrightarrow> nodes s' ! j = nodes s ! j"
      "\<forall>j d t. pending j d t (net s') \<le> pending j d t (net s) +
         (if j = i \<and> d \<noteq> i \<and> t = currentTerm (nodes s ! i) + 1 then 1 else 0)"
    | (vote) k i d args rep where "i < n" "k < length (net s)" "net s ! k = VoteRep i d args rep"
      "rvr_VoteGranted rep" "rvr_Term rep \<le> rv_Term args"
      "state (nodes s ! i) = Candidate" "currentTerm (nodes s ! i) = rv_Term args"
      "totalVotes (nodes s' ! i) = totalVotes (nodes s ! i) + 1"
      "currentTerm (nodes s' ! i) = currentTerm (nodes s ! i)"
      "state (nodes s' ! i) = Candidate \<or> state (nodes s' ! i) = Leader \<and> n div 2 < totalVotes (nodes s' ! i)"
      "\<forall>j. j \<noteq> i \<longrightarrow> nodes s' ! j = nodes s ! j"
      "\<forall>j d t. pending j d t (net s') = pending j d t (remove_nth k (net s))"
  using assms
proof (cases rule: cluster_exec_Inr)
  case (timeout i rf vs)
  note i = cluster_okD(2) [OF ok timeout(1)]
  from timeout(2) show ?thesis
  proof (cases rule: tickerElection_Inr)
    case leader
    with timeout show ?thesis by (intro keep) (auto simp: sendVotes_def)
  next
    case (candidate l)
    have "pending j d t (net s') \<le> pending j d t (net s) +
         (if j = i \<and> d \<noteq> i \<and> t = currentTerm (nodes s ! i) + 1 then 1 else 0)" for j d t
      using i unfolding timeout(4) candidate(4) conductElection_def
      by (simp add: pending_sendVotes peer_ok_def candidate(2))
    with timeout candidate(2) ok show ?thesis
      by (intro that(2) [of i]) (simp_all add: cluster_okD)
  qed
next
  case (voteRep k src dst args rep rf cs)
  note i = cluster_okD(2) [OF ok voteRep(2)]
  from voteRep(4) show ?thesis
  proof (cases rule: electionReply_Inr)
    case ignored
    with voteRep show ?thesis by (intro keep) (auto simp: pending_remove_le)
  next
    case stepdown
    with voteRep ok show ?thesis
      by (intro keep) (auto simp: pending_remove_le nth_list_update cluster_okD role_keep_def)
  next
    case counted
    with voteRep ok show ?thesis by (intro vote [OF voteRep(2,1,3)]) (simp_all add: cluster_okD)
  next
    case elected
    with voteRep ok i show ?thesis
      by (intro vote [OF voteRep(2,1,3)]) (simp_all add: cluster_okD becomeLeader_def peer_ok_def)
  qed
next
  case (client i c rf cs r)
  with Start_role [OF client(2)] cluster_okD(2) [OF ok client(1)] ok show ?thesis
    by (intro keep) (auto simp: nth_list_update cluster_okD peer_ok_def)
next
  case (applied i rf)
  with role_keep_core applyEntries_core [OF applied(2)] ok show ?thesis
    by (intro keep) (auto simp: nth_list_update cluster_okD)
next
  case (ended k i)
  with ok show ?thesis
    by (intro keep) (auto simp: nth_list_update cluster_okD role_keep_def pending_remove_le)
next
  case (appendReq k src dst en args rf rep)
  with AppendEntries_role [OF appendReq(4)] cluster_okD(2) [OF ok appendReq(2)] ok show ?thesis
    by (intro keep) (auto simp: nth_list_update cluster_okD peer_ok_def pending_remove_le)
next
  case (appendRep k src dst en args rep rf cs)
  with respAppendEntries_role [OF appendRep(6)] ok show ?thesis
    by (intro keep) (auto simp: nth_list_update cluster_okD pending_remove_le)
next
  case (voteReq k src dst args rf rep)
  have "pending j d t (net s') \<le> pending j d t (net s)" for j d t
    using pending_remove [OF voteReq(1), of j d t] pending_remove_le [of j d t k "net s"]
    by (simp add: voteReq(3,6))
  with voteReq RequestVote_role [OF voteReq(4)] ok show ?thesis
    by (intro keep) (auto simp: nth_list_update cluster_okD)
next
  case (lost k ms)
  have "pending i d t ms = 0" for i d t using lost(4) by (intro pending_zero) auto
  with lost show ?thesis by (intro keep) (auto simp: pending_remove_le)
qed (auto simp: pending_remove_le intro!: keep)

section \<open>The votes given in an execution\<close>

definition voted :: "'c cluster list \<Rightarrow> nat \<Rightarrow> int \<Rightarrow> nat \<Rightarrow> bool" where
  "voted ss d t c \<longleftrightarrow>
     (\<exists>s \<in> set ss. currentTerm (nodes s ! d) = t \<and> votedFor (nodes s ! d) = int c)"

definition led :: "'c cluster list \<Rightarrow> nat \<Rightarrow> int \<Rightarrow> bool" where
  "led ss i t \<longleftrightarrow> (\<exists>s \<in> set ss. currentTerm (nodes s ! i) = t \<and> state (nodes s ! i) = Leader)"

definition won :: "nat \<Rightarrow> 'c cluster list \<Rightarrow> nat \<Rightarrow> int \<Rightarrow> bool" where
  "won n ss i t \<longleftrightarrow> (\<exists>Q. majority n Q \<and> (\<forall>d \<in> Q. voted ss d t i))"

lemma voted_mono [intro]: "voted ss d t c \<Longrightarrow> voted (s # ss) d t c"
  by (auto simp: voted_def)

lemma won_mono [intro]: "won n ss i t \<Longrightarrow> won n (s # ss) i t"
  by (auto simp: won_def)

lemma led_Cons:
  "led (s # ss) i t \<longleftrightarrow> led ss i t \<or> currentTerm (nodes s ! i) = t \<and> state (nodes s ! i) = Leader"
  by (auto simp: led_def)

definition run_voted :: "nat \<Rightarrow> 'c cluster list \<Rightarrow> nat \<Rightarrow> int \<Rightarrow> nat \<Rightarrow> bool" where
  "run_voted n ss d t c \<longleftrightarrow> run n ss \<and> d < n \<and> voted ss d t c"

lemma voted_once:
  assumes "run n ss" "d < n" "voted ss d t c" "voted ss d t c'"
  shows "c = c'"
proof -
  from assms(3,4) obtain s s' where "s \<in> set ss" "s' \<in> set ss"
    and "currentTerm (nodes s ! d) = t" "votedFor (nodes s ! d) = int c"
    and "currentTerm (nodes s' ! d) = t" "votedFor (nodes s' ! d) = int c'"
    by (auto simp: voted_def)
  with run_vote_le_cases [OF assms(1,2), of s s'] show ?thesis by (auto simp: vote_le_def)
qed

interpretation raft_ballots: ballots "majority n" "run_voted n ss" for n ss
  by unfold_locales (auto simp: run_voted_def intro: voted_once)

lemma won_unique:
  assumes "run n ss" "won n ss i t" "won n ss j t"
  shows "i = j"
proof -
  from assms(2,3) obtain Q R where "majority n Q" "\<forall>d \<in> Q. voted ss d t i"
    "majority n R" "\<forall>d \<in> R. voted ss d t j" by (auto simp: won_def)
  with assms(1) show ?thesis
    by (intro raft_ballots.one_winner [of n Q ss t i R j]) (auto simp: run_voted_def majority_def)
qed

section \<open>What the calls in transit and the counters stand for\<close>

fun vote_msg :: "'c cluster list \<Rightarrow> 'c rpc \<Rightarrow> bool" where
  "vote_msg ss (VoteReq src dst args) \<longleftrightarrow> rv_Term args \<le> currentTerm (nodes (hd ss) ! src)"
| "vote_msg ss (VoteRep src dst args rep) \<longleftrightarrow> rv_Term args \<le> currentTerm (nodes (hd ss) ! src) \<and>
     (rvr_VoteGranted rep \<and> rvr_Term rep \<le> rv_Term args \<longrightarrow> voted ss dst (rv_Term args) src)"
| "vote_msg ss _ \<longleftrightarrow> True"

definition tally :: "nat \<Rightarrow> 'c cluster list \<Rightarrow> nat \<Rightarrow> nat set \<Rightarrow> bool" where
  "tally n ss i V \<longleftrightarrow> (let rf = nodes (hd ss) ! i; t = currentTerm rf in
     V \<subseteq> {..<n} - {i} \<and> totalVotes rf = Suc (card V) \<and> (\<forall>d \<in> V. voted ss d t i) \<and>
     (\<forall>d. pending i d t (net (hd ss)) + (if d \<in> V then 1 else 0) \<le> 1))"

definition vote_inv :: "nat \<Rightarrow> 'c cluster list \<Rightarrow> bool" where
  "vote_inv n ss \<longleftrightarrow> (\<forall>m \<in> set (net (hd ss)). vote_msg ss m) \<and>
     (\<forall>i < n. state (nodes (hd ss) ! i) = Candidate \<longrightarrow> (\<exists>V. tally n ss i V)) \<and>
     (\<forall>i < n. \<forall>t. led ss i t \<longrightarrow> won n ss i t)"

lemma vote_msg_mono:
  assumes "vote_msg (s # ss) m" "cluster_exec e s = Inr s'" "cluster_ok n s" "rpc_ok n m"
  shows "vote_msg (s' # s # ss) m"
proof -
  have "currentTerm (nodes s ! i) \<le> currentTerm (nodes s' ! i)" if "i < n" for i
    using cluster_exec_vote_le [OF assms(2,3) that] by (auto simp: vote_le_def)
  with assms(1,4) show ?thesis by (cases m) (force)+
qed

lemma RequestVote_granted:
  assumes "RequestVote args rf = Inr (rf', rep)" "rvr_VoteGranted rep" "rvr_Term rep \<le> rv_Term args"
  shows "currentTerm rf' = rv_Term args \<and> votedFor rf' = rv_CandidateId args"
  using assms(1) by (cases rule: RequestVote_Inr) (use assms(2,3) in auto)

lemma vote_msg_step:
  assumes "cluster_exec e s = Inr s'" and ok: "cluster_ok n s"
    and msgs: "\<forall>m \<in> set (net s). vote_msg (s # ss) m" and m: "m \<in> set (net s')"
  shows "vote_msg (s' # s # ss) m"
proof -
  have old: "vote_msg (s' # s # ss) m" if "m \<in> set (net s)" for m
    using that msgs ok vote_msg_mono [OF _ assms(1) ok] by (auto simp: cluster_ok_def)
  from assms(1,2) show ?thesis
  proof (cases rule: cluster_exec_Inr)
    case (timeout i rf vs)
    show ?thesis
    proof (cases "m \<in> set (net s)")
      case False
      with m timeout(4) have "m \<in> set (sendVotes i vs)" by auto
      with timeout(2,3) timeout(1) ok show ?thesis
        by (cases rule: tickerElection_Inr) (auto simp: sendVotes_def cluster_okD)
    qed (rule old)
  next
    case (voteReq k src dst args rf rep)
    have vr: "vote_msg (s' # s # ss) (VoteReq src dst args)"
      using voteReq(1,3) old by (metis nth_mem)
    have src: "rv_CandidateId args = int src" using cluster_okD(3) [OF ok voteReq(1)] voteReq(3) by simp
    have "vote_msg (s' # s # ss) (VoteRep src dst args rep)"
      using vr RequestVote_granted [OF voteReq(4)] voteReq(2,5) ok src
      by (auto simp: voted_def cluster_okD)
    with m voteReq(6) old show ?thesis by (auto dest: set_remove_nthD)
  next
    case (lost k ms)
    with m old show ?thesis by (force dest: set_remove_nthD)
  qed (use m old in \<open>auto dest: set_remove_nthD simp: spawnAppends_def\<close>)
qed

lemma tally_keep:
  assumes "tally n (s # ss) i V" "currentTerm (nodes s' ! i) = currentTerm (nodes s ! i)"
    "totalVotes (nodes s' ! i) = totalVotes (nodes s ! i)"
    "\<forall>d. pending i d (currentTerm (nodes s ! i)) (net s') \<le> pending i d (currentTerm (nodes s ! i)) (net s)"
  shows "tally n (s' # s # ss) i V"
proof -
  have "pending i d (currentTerm (nodes s ! i)) (net s') + (if d \<in> V then 1 else 0) \<le> 1" for d
  proof (rule le_trans [OF add_le_mono1 [OF assms(4) [rule_format, of d]]])
  qed (use assms(1) in \<open>simp add: tally_def Let_def\<close>)
  with assms show ?thesis by (auto simp: tally_def Let_def)
qed

lemma tally_vote:
  assumes t: "tally n (s # ss) i V" and ok: "cluster_ok n s"
    and k: "k < length (net s)" "net s ! k = VoteRep i d args rep"
    and v: "vote_msg (s # ss) (net s ! k)" "rvr_VoteGranted rep" "rvr_Term rep \<le> rv_Term args"
    and c: "currentTerm (nodes s ! i) = rv_Term args"
      "currentTerm (nodes s' ! i) = currentTerm (nodes s ! i)"
      "totalVotes (nodes s' ! i) = totalVotes (nodes s ! i) + 1"
      "\<forall>j d t. pending j d t (net s') = pending j d t (remove_nth k (net s))"
  shows "tally n (s' # s # ss) i (insert d V)"
proof -
  have d: "d < n" "d \<noteq> i" using cluster_okD(3) [OF ok k(1)] k(2) by auto
  have 1: "pending i d (rv_Term args) (net s) = Suc (pending i d (rv_Term args) (net s'))"
    using pending_remove [OF k(1), of i d "rv_Term args"] k(2) c(4) by simp
  moreover have 2: "pending i e (rv_Term args) (net s) + (if e \<in> V then 1 else 0) \<le> 1" for e
    using t c(1) by (simp add: tally_def Let_def)
  ultimately have nd: "d \<notin> V" "pending i d (rv_Term args) (net s') = 0"
    using 2 [of d] by (auto split: if_splits)
  have "pending i e (rv_Term args) (net s') + (if e \<in> insert d V then 1 else 0) \<le> 1" for e
    using 2 [of e] nd(2) pending_remove_le [of i e "rv_Term args" k "net s"] c(4) by (cases "e = d") auto
  moreover have "finite V" using t by (auto simp: tally_def Let_def dest: finite_subset)
  moreover have "voted (s' # s # ss) d (rv_Term args) i" using v k(2) by auto
  ultimately show ?thesis using t c d nd(1)
    by (auto simp: tally_def Let_def)
qed

lemma tally_candidate:
  assumes ok: "cluster_ok n s" "i < n" and msgs: "\<forall>m \<in> set (net s). vote_msg (s # ss) m"
    and c: "totalVotes (nodes s' ! i) = 1"
      "currentTerm (nodes s' ! i) = currentTerm (nodes s ! i) + 1"
      "\<forall>j d t. pending j d t (net s') \<le> pending j d t (net s) +
         (if j = i \<and> d \<noteq> i \<and> t = currentTerm (nodes s ! i) + 1 then 1 else 0)"
  shows "tally n (s' # s # ss) i {}"
proof -
  have "\<not> is_vote i d (currentTerm (nodes s ! i) + 1) m" if "m \<in> set (net s)" for m d
    using msgs [rule_format, OF that] by (cases m) auto
  then have "pending i d (currentTerm (nodes s ! i) + 1) (net s) = 0" for d by (intro pending_zero) auto
  then have "pending i d (currentTerm (nodes s ! i) + 1) (net s') \<le> 1" for d
    using c(3) [rule_format, of i d "currentTerm (nodes s ! i) + 1"] by (simp split: if_splits)
  with c(1,2) show ?thesis by (simp add: tally_def Let_def)
qed

text \<open>A tally that passes half of the peers is a majority of voters, the candidate included.\<close>

lemma tally_won:
  assumes "tally n ss i V" "i < n" "n div 2 < totalVotes (nodes (hd ss) ! i)"
    "voted ss i (currentTerm (nodes (hd ss) ! i)) i"
  shows "won n ss i (currentTerm (nodes (hd ss) ! i))"
proof -
  have V: "V \<subseteq> {..<n} - {i}" "finite V"
    using assms(1) by (auto simp: tally_def Let_def dest: finite_subset)
  then have "card (insert i V) = Suc (card V)" by (intro card_insert_disjoint) auto
  with assms V(1) have "majority n (insert i V)" by (auto simp: majority_def tally_def Let_def)
  moreover have "\<forall>d \<in> insert i V. voted ss d (currentTerm (nodes (hd ss) ! i)) i"
    using assms(1,4) by (auto simp: tally_def Let_def)
  ultimately show ?thesis by (auto simp: won_def)
qed

lemma own_voted:
  assumes "cluster_ok n s" "i < n" "s \<in> set ss" "state (nodes s ! i) \<noteq> Follower"
  shows "voted ss i (currentTerm (nodes s ! i)) i"
  using cluster_okD(2) [OF assms(1,2)] assms(3,4) by (auto simp: voted_def peer_ok_def own_vote_def)

text \<open>The invariant after a step, from the peers whose candidature or leadership it moved.\<close>

lemma vote_inv_other:
  assumes "cluster_exec e s = Inr s'" and ok: "cluster_ok n s" and inv: "vote_inv n (s # ss)"
    and other: "\<And>i. i < n \<Longrightarrow> i \<notin> A \<Longrightarrow> role_keep (nodes s ! i) (nodes s' ! i)"
      "\<And>i d t. i < n \<Longrightarrow> i \<notin> A \<Longrightarrow> pending i d t (net s') \<le> pending i d t (net s)"
    and moved: "\<And>i. i < n \<Longrightarrow> i \<in> A \<Longrightarrow> state (nodes s' ! i) = Candidate \<Longrightarrow>
        \<exists>V. tally n (s' # s # ss) i V"
      "\<And>i. i < n \<Longrightarrow> i \<in> A \<Longrightarrow> state (nodes s' ! i) = Leader \<Longrightarrow>
        won n (s' # s # ss) i (currentTerm (nodes s' ! i))"
  shows "vote_inv n (s' # s # ss)"
  unfolding vote_inv_def list.sel
proof (intro conjI ballI allI impI)
  fix m assume "m \<in> set (net s')"
  with vote_msg_step [OF assms(1) ok] inv show "vote_msg (s' # s # ss) m" by (auto simp: vote_inv_def)
next
  fix i assume i: "i < n" "state (nodes s' ! i) = Candidate"
  show "\<exists>V. tally n (s' # s # ss) i V"
  proof (cases "i \<in> A")
    case False
    with i other(1) [of i] have "state (nodes s ! i) = Candidate" by (simp add: role_keep_def)
    with inv i(1) obtain V where "tally n (s # ss) i V" by (auto simp: vote_inv_def)
    with other [OF i(1) False] i(2) show ?thesis
      by (intro exI [of _ V] tally_keep) (simp_all add: role_keep_def)
  qed (use moved i in blast)
next
  fix i t assume i: "i < n" "led (s' # s # ss) i t"
  then consider "led (s # ss) i t" | "state (nodes s' ! i) = Leader" "currentTerm (nodes s' ! i) = t" "i \<in> A"
    using other(1) [of i] by (cases "i \<in> A") (auto simp: led_Cons role_keep_def)
  then show "won n (s' # s # ss) i t"
    using inv i(1) moved(2) by cases (auto simp: vote_inv_def)
qed

lemma vote_inv_step:
  assumes "cluster_exec e s = Inr s'" and ok: "cluster_ok n s" and inv: "vote_inv n (s # ss)"
  shows "vote_inv n (s' # s # ss)"
proof -
  have msgs: "\<forall>m \<in> set (net s). vote_msg (s # ss) m" using inv by (simp add: vote_inv_def)
  note other = vote_inv_other [OF assms]
  from assms(1) ok show ?thesis
  proof (cases rule: cluster_exec_roles)
    case keep
    then show ?thesis by (intro other [where A = "{}"]) auto
  next
    case (candidate i)
    note T = tally_candidate [OF ok candidate(1) msgs candidate(3,4,6)]
    have "pending j d t (net s') \<le> pending j d t (net s)" if "j \<noteq> i" for j d t
      using that candidate(6) [rule_format, of j d t] by simp
    with candidate(2,5) T show ?thesis by (intro other [where A = "{i}"]) auto
  next
    case (vote k i d args rep)
    obtain V where "tally n (s # ss) i V" using inv vote(1,6) by (auto simp: vote_inv_def)
    from tally_vote [OF this ok vote(2,3) _ vote(4,5,7,9,8,12)] msgs vote(2)
    have T: "tally n (s' # s # ss) i (insert d V)" by auto
    have "voted (s' # s # ss) i (currentTerm (nodes s' ! i)) i"
      using own_voted [OF ok vote(1), of "s' # s # ss"] vote(6,9) by simp
    then have "won n (s' # s # ss) i (currentTerm (nodes s' ! i))"
      if "state (nodes s' ! i) = Leader" using tally_won [OF T] vote(1,10) that by auto
    with T vote(11,12) show ?thesis by (intro other [where A = "{i}"]) (auto simp: pending_remove_le)
  qed
qed

lemma run_vote_inv: "run n ss \<Longrightarrow> vote_inv n ss"
proof (induction rule: run.induct)
  case start
  then show ?case
    by (auto simp: vote_inv_def led_def init_cluster_nth) (simp_all add: init_cluster_def Make_def readPersist_def)
next
  case (step s ss e s')
  with vote_inv_step [OF step.hyps(2) run_ok [OF step.hyps(1)]] show ?case by simp
qed

lemma led_unique:
  assumes "run n ss" "i < n" "j < n" "led ss i t" "led ss j t"
  shows "i = j"
proof (rule won_unique [OF assms(1)])
  show "won n ss i t" "won n ss j t" using run_vote_inv [OF assms(1)] assms by (auto simp: vote_inv_def)
qed

section \<open>Election safety\<close>

text \<open>C1: election safety. In an execution, if two peers report, at any two moments, that they
  lead the same term, they are the same peer.\<close>

theorem election_safety:
  assumes "run n ss" "s \<in> set ss" "s' \<in> set ss" "i < n" "j < n"
    and "GetState (nodes s ! i) = (t, True)" "GetState (nodes s' ! j) = (t, True)"
  shows "i = j"
  using led_unique [OF assms(1,4,5), of t] assms(2,3,6,7) by (auto simp: led_def GetState_def)

theorem election_safety_witness:
  "GetState (nodes (sample_run ! 0) ! 0) = (1, True) \<and> GetState (nodes (sample_run ! 9) ! 0) = (1, True) \<and>
   (0::nat) = 0"
proof -
  have 1: "GetState (nodes (sample_run ! 0) ! 0) = (1, True)" "GetState (nodes (sample_run ! 9) ! 0) = (1, True)"
    by code_simp+
  from election_safety [OF sample_run_run sample_run_nth sample_run_nth _ _ 1] 1 show ?thesis by simp
qed

text \<open>A leader was elected by a majority: more than half of the peers, at some moment of the
  execution, had the leader's term as their term and had voted for the leader.\<close>

theorem leader_has_majority:
  assumes "run n ss" "s \<in> set ss" "i < n" "GetState (nodes s ! i) = (t, True)"
  shows "\<exists>Q. Q \<subseteq> {..<n} \<and> n div 2 < card Q \<and> (\<forall>d \<in> Q. voted ss d t i)"
proof -
  have "led ss i t" using assms(2,4) by (auto simp: led_def GetState_def)
  with run_vote_inv [OF assms(1)] assms(3) have "won n ss i t" by (simp add: vote_inv_def)
  then show ?thesis by (auto simp: won_def majority_def)
qed

theorem leader_has_majority_witness:
  "\<exists>Q. Q \<subseteq> {..<3} \<and> 3 div 2 < card Q \<and> (\<forall>d \<in> Q. voted sample_run d 1 0)"
proof (rule leader_has_majority [OF sample_run_run])
  show "sample_run ! 0 \<in> set sample_run" by (rule sample_run_nth) simp
  show "GetState (nodes (sample_run ! 0) ! 0) = (1, True)" by code_simp
qed simp

end
