(* ===== verification/Raft_Log.thy ===== *)
theory Raft_Log
  imports Raft_Election "HOL-Library.Sublist"
begin

text \<open>
  The logs of a cluster in an execution without crashes: a leader only appends, and
  logs match: two logs, of any two peers at any two moments of an execution, that hold an
  entry of the same term at the same index are equal up to that index.

  The proof keeps, over the whole history, that every \<open>AppendEntries\<close> request in transit carries a
  suffix of a log that some peer once had, and that every entry was made by the leader
  of its term, whose log, as long as it leads, holds that index. Accepting a request
  then gives the receiver a log that already existed, so \<open>Start\<close> is the only source of new logs.
\<close>

section \<open>How a step changes the logs\<close>

lemma led_not_candidate:
  "run n ss \<Longrightarrow> i < n \<Longrightarrow> led ss i (currentTerm (nodes (hd ss) ! i)) \<Longrightarrow>
     state (nodes (hd ss) ! i) \<noteq> Candidate"
proof (induction rule: run.induct)
  case start
  then show ?case by (simp add: led_def)
next
  case (step s ss e s')
  have ok: "cluster_ok n s" using run_ok [OF step.hyps(1)] by simp
  show ?case
  proof
    assume cand: "state (nodes (hd (s' # s # ss)) ! i) = Candidate"
    with step.prems(2) have old: "led (s # ss) i (currentTerm (nodes s' ! i))" by (simp add: led_Cons)
    then obtain s0 where "s0 \<in> set (s # ss)" "currentTerm (nodes s0 ! i) = currentTerm (nodes s' ! i)"
      by (auto simp: led_def)
    with run_hd_latest [OF step.hyps(1) step.prems(1)]
    have le: "currentTerm (nodes s' ! i) \<le> currentTerm (nodes s ! i)" by (fastforce simp: vote_le_def)
    note IH = step.IH [OF step.prems(1)]
    from step.hyps(2) ok show False
    proof (cases rule: cluster_exec_roles)
      case keep
      with IH step.prems(1) old cand show False by (auto simp: role_keep_def)
    next
      case (candidate j)
      with IH old cand le show False by (cases "i = j") auto
    next
      case (vote k j d args rep)
      with IH old cand show False by (cases "i = j") auto
    qed
  qed
qed

text \<open>A peer that leads after a step already led that term, or never did before.\<close>

lemma leader_step:
  assumes "run n (s # ss)" "cluster_exec e s = Inr s'" "i < n" "state (nodes s' ! i) = Leader"
  obtains (still) "state (nodes s ! i) = Leader" "currentTerm (nodes s' ! i) = currentTerm (nodes s ! i)"
    | (new) "\<not> led (s # ss) i (currentTerm (nodes s' ! i))" "state (nodes s ! i) = Candidate"
proof -
  have ok: "cluster_ok n s" using run_ok [OF assms(1)] by simp
  from assms(2) ok show thesis
  proof (cases rule: cluster_exec_roles)
    case keep
    with assms(3,4) still show thesis by (auto simp: role_keep_def)
  next
    case (candidate j)
    with assms(4) still show thesis by (cases "i = j") auto
  next
    case (vote k j d args rep)
    with assms(4) still new led_not_candidate [OF assms(1,3)] show thesis by (cases "i = j") auto
  qed
qed

lemma cluster_exec_logs:
  assumes "cluster_exec e s = Inr s'" and ok: "cluster_ok n s"
  obtains (same) "\<forall>i < n. log (nodes s' ! i) = log (nodes s ! i)"
    | (append) i en where "i < n" "state (nodes s ! i) = Leader"
      "log (nodes s' ! i) = log (nodes s ! i) @ [en]" "le_Term en = currentTerm (nodes s ! i)"
      "\<forall>j. j \<noteq> i \<longrightarrow> nodes s' ! j = nodes s ! j"
    | (replicated) src dst en args where "dst < n" "AppendReq src dst en args \<in> set (net s)"
      "appendResult (log (nodes s ! dst)) (nat (ae_PrevLogIndex args) + 1) (ae_Entries args) (log (nodes s' ! dst))"
      "nat (ae_PrevLogIndex args) < length (log (nodes s ! dst))"
      "le_Term (log (nodes s ! dst) ! nat (ae_PrevLogIndex args)) = ae_PrevLogTerm args"
      "state (nodes s' ! dst) = Follower" "\<forall>j. j \<noteq> dst \<longrightarrow> nodes s' ! j = nodes s ! j"
  using assms
proof (cases rule: cluster_exec_Inr)
  case (timeout i rf vs)
  with tickerElection_peer [OF timeout(2)] ok show ?thesis
    by (intro same) (auto simp: nth_list_update cluster_okD)
next
  case (client i c rf cs r)
  have wf: "wf_log (log (nodes s ! i))" using cluster_okD(2) [OF ok client(1)] by (simp add: peer_ok_def)
  obtain x y z where r: "r = (x, y, z)" by (cases r)
  from client(2) [unfolded r] wf show ?thesis
  proof (cases rule: Start_Inr)
    case refused
    with client ok show ?thesis by (intro same) (auto simp: nth_list_update cluster_okD)
  next
    case started
    with client ok show ?thesis by (intro append [OF client(1), of "last (log rf)"]) (simp_all add: cluster_okD)
  qed
next
  case (applied i rf)
  with applyEntries_core [OF applied(2)] ok show ?thesis
    by (intro same) (auto simp: nth_list_update cluster_okD same_core_def)
next
  case (ended k i)
  with ok show ?thesis by (intro same) (auto simp: nth_list_update cluster_okD)
next
  case (appendReq k src dst en args rf rep)
  have "wf_log (log (nodes s ! dst))" "args_ok args"
    using cluster_okD(2) [OF ok appendReq(2)] cluster_okD(3) [OF ok appendReq(1)] appendReq(3)
    by (simp_all add: peer_ok_def)
  from AppendEntries_log [OF appendReq(4) this] show ?thesis
  proof (elim disjE conjE)
    assume "log rf = log (nodes s ! dst)"
    with appendReq(2,5) ok show ?thesis by (intro same) (auto simp: nth_list_update cluster_okD)
  next
    assume "appendResult (log (nodes s ! dst)) (nat (ae_PrevLogIndex args) + 1) (ae_Entries args) (log rf)"
      "nat (ae_PrevLogIndex args) < length (log (nodes s ! dst))"
      "le_Term (log (nodes s ! dst) ! nat (ae_PrevLogIndex args)) = ae_PrevLogTerm args" "state rf = Follower"
    with appendReq(2,5) nth_mem [OF appendReq(1), unfolded appendReq(3)] ok show ?thesis
      by (intro replicated [OF appendReq(2)]) (simp_all add: cluster_okD)
  qed
next
  case (appendRep k src dst en args rep rf cs)
  with respAppendEntries_peer [OF appendRep(6)] ok show ?thesis
    by (intro same) (auto simp: nth_list_update cluster_okD)
next
  case (voteReq k src dst args rf rep)
  with RequestVote_peer [OF voteReq(4)] ok show ?thesis
    by (intro same) (auto simp: nth_list_update cluster_okD)
next
  case (voteRep k src dst args rep rf cs)
  with electionReply_peer [OF voteRep(4)] ok show ?thesis
    by (intro same) (auto simp: nth_list_update cluster_okD)
qed (auto intro!: same)

text \<open>A leader only appends to its log.\<close>

lemma leader_log_prefix:
  assumes "cluster_exec e s = Inr s'" "cluster_ok n s" "i < n" "state (nodes s' ! i) = Leader"
  shows "prefix (log (nodes s ! i)) (log (nodes s' ! i))"
  using assms(1,2)
proof (cases rule: cluster_exec_logs)
  case (append j en)
  with assms(3) show ?thesis by (cases "i = j") auto
next
  case (replicated src dst en args)
  with assms(3,4) show ?thesis by (cases "i = dst") auto
qed (use assms(3) in simp)

section \<open>Log matching\<close>

definition logs :: "nat \<Rightarrow> 'c cluster list \<Rightarrow> 'c LogEntry list set" where
  "logs n ss = {log (nodes s ! i) |s i. s \<in> set ss \<and> i < n}"

definition matching :: "'c LogEntry list set \<Rightarrow> bool" where
  "matching L \<longleftrightarrow> (\<forall>l \<in> L. \<forall>l' \<in> L. \<forall>k. k < length l \<and> k < length l' \<and>
     le_Term (l ! k) = le_Term (l' ! k) \<longrightarrow> take (Suc k) l = take (Suc k) l')"

lemma matchingD:
  "matching L \<Longrightarrow> l \<in> L \<Longrightarrow> l' \<in> L \<Longrightarrow> k < length l \<Longrightarrow> k < length l' \<Longrightarrow>
     le_Term (l ! k) = le_Term (l' ! k) \<Longrightarrow> take (Suc k) l = take (Suc k) l'"
  unfolding matching_def by blast

lemma logsI: "s \<in> set ss \<Longrightarrow> i < n \<Longrightarrow> log (nodes s ! i) \<in> logs n ss"
  by (auto simp: logs_def)

lemma logs_mono: "logs n ss \<subseteq> logs n (s # ss)"
  by (auto simp: logs_def)

text \<open>Accepting a suffix of one of the logs of the execution yields that log, or changes nothing.\<close>

lemma appendResult_in:
  assumes m: "matching L" "lg \<in> L" "l \<in> L" and "carries l args"
    and "appendResult lg (nat (ae_PrevLogIndex args) + 1) (ae_Entries args) r"
    and "nat (ae_PrevLogIndex args) < length lg"
    and "le_Term (lg ! nat (ae_PrevLogIndex args)) = ae_PrevLogTerm args"
  shows "r = lg \<or> r = l"
proof -
  define p where "p = nat (ae_PrevLogIndex args)"
  have c: "p < length l" "le_Term (lg ! p) = le_Term (l ! p)" "ae_Entries args = drop (Suc p) l" "p < length lg"
    using assms(4-) by (auto simp: carries_def p_def)
  have eq: "take (Suc k) lg = take (Suc k) l"
    if "k < length lg" "k < length l" "le_Term (lg ! k) = le_Term (l ! k)" for k
    by (rule matchingD [OF m that])
  from assms(5) [folded p_def, unfolded appendResult_def c(3)] show ?thesis
  proof (elim disjE exE conjE)
    fix j assume j: "j < length (drop (Suc p) l)" "p + 1 + j \<le> length lg"
      "\<forall>k<j. le_Term (lg ! (p + 1 + k)) = le_Term (drop (Suc p) l ! k)"
      "r = take (p + 1 + j) lg @ drop j (drop (Suc p) l)"
    have "take (p + 1 + j) lg = take (p + 1 + j) l"
    proof (cases j)
      case 0
      with eq [of p] c show ?thesis by simp
    next
      case (Suc i)
      with j c eq [of "p + 1 + i"] show ?thesis by simp
    qed
    with j(4) have "r = take (p + 1 + j) l @ drop (p + 1 + j) l" by (simp add: add.commute)
    then show ?thesis by simp
  qed simp
qed

lemma matching_append:
  assumes m: "matching L" and l: "l \<in> L"
    and new: "\<And>l'. l' \<in> L \<Longrightarrow> length l < length l' \<Longrightarrow> le_Term (l' ! length l) \<noteq> le_Term e"
  shows "matching (insert (l @ [e]) L)"
proof -
  have one: "take (Suc k) (l @ [e]) = take (Suc k) l'"
    if "l' \<in> L" "k < length (l @ [e])" "k < length l'" "le_Term ((l @ [e]) ! k) = le_Term (l' ! k)" for l' k
  proof (cases "k < length l")
    case True
    with that(4) have "le_Term (l ! k) = le_Term (l' ! k)" by (simp add: nth_append)
    from matchingD [OF m l that(1) True that(3) this] True show ?thesis by simp
  next
    case False
    with that have "k = length l" by simp
    with that new [OF that(1)] show ?thesis by simp
  qed
  show ?thesis unfolding matching_def
  proof (intro ballI allI impI, elim conjE)
    fix x y k assume "x \<in> insert (l @ [e]) L" "y \<in> insert (l @ [e]) L"
      and k: "k < length x" "k < length y" "le_Term (x ! k) = le_Term (y ! k)"
    then consider "x = y" | "x \<in> L" "y \<in> L" | "x = l @ [e]" "y \<in> L" | "x \<in> L" "y = l @ [e]" by auto
    then show "take (Suc k) x = take (Suc k) y"
    proof cases
      case 2
      from matchingD [OF m this k] show ?thesis .
    next
      case 3
      with one [of y k] k show ?thesis by simp
    next
      case 4
      with one [of x k] k show ?thesis by simp
    qed simp
  qed
qed

fun log_msg :: "nat \<Rightarrow> 'c cluster list \<Rightarrow> 'c rpc \<Rightarrow> bool" where
  "log_msg n ss (RunAppend src dst en args) \<longleftrightarrow> (\<exists>l \<in> logs n ss. carries l args)"
| "log_msg n ss (AppendReq src dst en args) \<longleftrightarrow> (\<exists>l \<in> logs n ss. carries l args)"
| "log_msg n ss _ \<longleftrightarrow> True"

text \<open>Who made the entry at index \<open>k\<close>: nobody (the first entry of every log), or the
  leader of its term, whose log holds that index as long as it leads.\<close>

definition made :: "nat \<Rightarrow> 'c cluster list \<Rightarrow> nat \<Rightarrow> int \<Rightarrow> bool" where
  "made n ss k t \<longleftrightarrow> t = 0 \<or> (\<exists>i < n. led ss i t \<and>
     (state (nodes (hd ss) ! i) = Leader \<and> currentTerm (nodes (hd ss) ! i) = t \<longrightarrow>
        k < length (log (nodes (hd ss) ! i))))"

definition log_inv :: "nat \<Rightarrow> 'c cluster list \<Rightarrow> bool" where
  "log_inv n ss \<longleftrightarrow> matching (logs n ss) \<and> (\<forall>m \<in> set (net (hd ss)). log_msg n ss m) \<and>
     (\<forall>l \<in> logs n ss. \<forall>k < length l. made n ss k (le_Term (l ! k)))"

lemma log_msg_mono: "log_msg n ss m \<Longrightarrow> log_msg n (s # ss) m"
  using logs_mono [of n ss s] by (cases m) auto

lemma spawned_log_msg:
  assumes "\<forall>c \<in> set cs. call_from (nodes s' ! i) c" "i < n" "m \<in> set (spawnAppends i cs)"
  shows "log_msg n (s' # ss) m"
  using assms logsI [of s' "s' # ss" i n] by (fastforce simp: spawnAppends_def)

lemma log_msg_step:
  assumes "cluster_exec e s = Inr s'" and ok: "cluster_ok n s"
    and msgs: "\<forall>m \<in> set (net s). log_msg n (s # ss) m" and m: "m \<in> set (net s')"
  shows "log_msg n (s' # s # ss) m"
proof -
  have old: "log_msg n (s' # s # ss) m" if "m \<in> set (net s)" for m
    by (rule log_msg_mono) (use that msgs in simp)
  have at: "(nodes s)[i := rf] ! i = rf" if "i < n" for i rf using that ok by (simp add: cluster_okD)
  from assms(1,2) show ?thesis
  proof (cases rule: cluster_exec_Inr)
    case (heartbeat i cs)
    from tickerHeartbeat_from [OF heartbeat(2) cluster_okD(2) [OF ok heartbeat(1)]] heartbeat m old
    show ?thesis using spawned_log_msg [of cs s' i n m "s # ss"] by auto
  next
    case (client i c rf cs r)
    from Start_ok [OF client(2) cluster_okD(2) [OF ok client(1)]] client m old at
    show ?thesis using spawned_log_msg [of cs s' i n m "s # ss"] by auto
  next
    case (sent k src dst en args)
    with old [OF nth_mem [OF sent(1)]] m old show ?thesis by (auto dest: set_remove_nthD)
  next
    case (appendRep k src dst en args rep rf cs)
    from respAppendEntries_ok [OF appendRep(6) cluster_okD(2) [OF ok appendRep(2)]] appendRep m old at
    show ?thesis using spawned_log_msg [of cs s' src n m "s # ss"] by (auto dest: set_remove_nthD)
  next
    case (voteRep k src dst args rep rf cs)
    from electionReply_ok [OF voteRep(4) cluster_okD(2) [OF ok voteRep(2)]] voteRep m old at
    show ?thesis using spawned_log_msg [of cs s' src n m "s # ss"] by (auto dest: set_remove_nthD)
  next
    case (timeout i rf vs)
    with m old show ?thesis by (auto simp: sendVotes_def)
  next
    case (lost k ms)
    with m old show ?thesis by (force dest: set_remove_nthD)
  qed (use m old in \<open>auto dest: set_remove_nthD\<close>)
qed

lemma made_step:
  assumes "run n (s # ss)" "cluster_exec e s = Inr s'" "made n (s # ss) k t"
  shows "made n (s' # s # ss) k t"
proof (cases "t = 0")
  case False
  have ok: "cluster_ok n s" using run_ok [OF assms(1)] by simp
  from assms(3) False obtain i where i: "i < n" "led (s # ss) i t"
    "state (nodes s ! i) = Leader \<and> currentTerm (nodes s ! i) = t \<Longrightarrow> k < length (log (nodes s ! i))"
    by (auto simp: made_def)
  have "k < length (log (nodes s' ! i))"
    if l: "state (nodes s' ! i) = Leader" "currentTerm (nodes s' ! i) = t"
    using assms(1,2) i(1) l(1)
  proof (cases rule: leader_step)
    case still
    with i l leader_log_prefix [OF assms(2) ok i(1) l(1)] show ?thesis
      by (auto dest: prefix_length_le)
  next
    case new
    with i l show ?thesis by auto
  qed
  with i show ?thesis by (auto simp: made_def led_Cons)
qed (simp add: made_def)

text \<open>The index at which the leader appends holds no entry of its term in any log.\<close>

lemma append_index_fresh:
  assumes "run n (s # ss)" "log_inv n (s # ss)" "i < n" "state (nodes s ! i) = Leader"
    and "l \<in> logs n (s # ss)" "length (log (nodes s ! i)) < length l"
  shows "le_Term (l ! length (log (nodes s ! i))) \<noteq> currentTerm (nodes s ! i)"
proof
  let ?k = "length (log (nodes s ! i))" and ?t = "currentTerm (nodes s ! i)"
  assume eq: "le_Term (l ! ?k) = ?t"
  have "cluster_ok n s" using run_ok [OF assms(1)] by simp
  with assms(3,4) have pos: "0 < ?t" by (auto simp: cluster_ok_def peer_ok_def)
  from assms(2,5,6) have "made n (s # ss) ?k (le_Term (l ! ?k))" by (simp add: log_inv_def)
  with pos eq obtain j where j: "j < n" "led (s # ss) j ?t"
    "state (nodes s ! j) = Leader \<and> currentTerm (nodes s ! j) = ?t \<longrightarrow> ?k < length (log (nodes s ! j))"
    by (auto simp: made_def)
  have "led (s # ss) i ?t" using assms(4) by (simp add: led_Cons)
  with led_unique [OF assms(1) j(1) assms(3) j(2)] have "j = i" by simp
  with j(3) assms(4) show False by simp
qed

text \<open>The only new log a step can bring is the leader's, with the command of \<open>Start\<close>.\<close>

lemma logs_step:
  assumes "run n (s # ss)" "cluster_exec e s = Inr s'" "log_inv n (s # ss)"
  obtains (old) "logs n (s' # s # ss) = logs n (s # ss)"
    | (new) i en where "i < n" "state (nodes s ! i) = Leader" "le_Term en = currentTerm (nodes s ! i)"
      "length (log (nodes s' ! i)) = Suc (length (log (nodes s ! i)))"
      "logs n (s' # s # ss) = insert (log (nodes s ! i) @ [en]) (logs n (s # ss))"
proof -
  have ok: "cluster_ok n s" using run_ok [OF assms(1)] by simp
  have step: "logs n (s' # s # ss) = {log (nodes s' ! i) |i. i < n} \<union> logs n (s # ss)"
    by (auto simp: logs_def)
  have mem: "log (nodes s ! i) \<in> logs n (s # ss)" if "i < n" for i using that by (simp add: logsI)
  from assms(2) ok show thesis
  proof (cases rule: cluster_exec_logs)
    case same
    with mem show thesis by (intro old) (auto simp: step)
  next
    case (append i en)
    have "log (nodes s' ! j) \<in> insert (log (nodes s ! i) @ [en]) (logs n (s # ss))" if "j < n" for j
      using append mem [OF that] by (cases "j = i") auto
    moreover have "log (nodes s ! i) @ [en] \<in> {log (nodes s' ! i) |i. i < n}"
      using append(1,3) by force
    ultimately show thesis using append by (intro new [of i en]) (auto simp: step)
  next
    case (replicated src dst en args)
    from replicated(2) assms(3) obtain l where l: "l \<in> logs n (s # ss)" "carries l args"
      by (force simp: log_inv_def)
    have "matching (logs n (s # ss))" using assms(3) by (simp add: log_inv_def)
    from appendResult_in [OF this mem [OF replicated(1)] l replicated(3-5)] l(1) mem [OF replicated(1)]
    have "log (nodes s' ! dst) \<in> logs n (s # ss)" by auto
    then have "log (nodes s' ! j) \<in> logs n (s # ss)" if "j < n" for j
      using replicated(7) mem [OF that] by (cases "j = dst") auto
    then show thesis by (intro old) (auto simp: step)
  qed
qed

lemma log_inv_step:
  assumes "run n (s # ss)" "cluster_exec e s = Inr s'" "log_inv n (s # ss)"
  shows "log_inv n (s' # s # ss)"
proof -
  have ok: "cluster_ok n s" using run_ok [OF assms(1)] by simp
  have msgs: "\<forall>m \<in> set (net s'). log_msg n (s' # s # ss) m"
    using log_msg_step [OF assms(2) ok] assms(3) by (simp add: log_inv_def)
  have old_made: "made n (s' # s # ss) k (le_Term (l ! k))" if "l \<in> logs n (s # ss)" "k < length l" for l k
    using that assms(3) by (intro made_step [OF assms(1,2)]) (simp add: log_inv_def)
  from assms show ?thesis
  proof (cases rule: logs_step)
    case old
    with assms(3) msgs old_made show ?thesis by (simp add: log_inv_def)
  next
    case (new i en)
    have "log (nodes s ! i) \<in> logs n (s # ss)" using new(1) by (simp add: logsI)
    with assms(3) new append_index_fresh [OF assms(1,3) new(1,2)]
    have "matching (logs n (s' # s # ss))" by (simp add: matching_append log_inv_def)
    moreover have "made n (s' # s # ss) (length (log (nodes s ! i))) (le_Term en)"
      using new(1-4) by (auto simp: made_def led_Cons)
    ultimately show ?thesis using msgs old_made \<open>log (nodes s ! i) \<in> _\<close>
      by (auto simp: log_inv_def new(5) nth_append less_Suc_eq)
  qed
qed

lemma run_log_inv: "run n ss \<Longrightarrow> log_inv n ss"
proof (induction rule: run.induct)
  case start
  have "log (nodes (init_cluster n) ! i) = [\<lparr>le_Term = 0, le_Command = None, le_Index = 0\<rparr>]" if "i < n" for i
    using that by (simp add: init_cluster_nth Make_def readPersist_def)
  then have L: "l = [\<lparr>le_Term = 0, le_Command = None, le_Index = 0\<rparr>]" if "l \<in> logs n [init_cluster n]" for l
    using that by (auto simp: logs_def)
  have "matching (logs n [init_cluster n])" unfolding matching_def by (auto dest!: L)
  moreover have "\<forall>l \<in> logs n [init_cluster n]. \<forall>k < length l. made n [init_cluster n] k (le_Term (l ! k))"
    by (auto dest!: L simp: made_def)
  ultimately show ?case by (simp add: log_inv_def) (simp add: init_cluster_def)
qed (rule log_inv_step)



text \<open>Leader append-only. In one step, the log of a peer that leads after the step only grows
  at its end.\<close>

theorem leader_append_only:
  assumes "run n (s # ss)" "cluster_exec e s = Inr s'" "i < n" "state (nodes s' ! i) = Leader"
  shows "prefix (log (nodes s ! i)) (log (nodes s' ! i))"
  using leader_log_prefix [OF assms(2) run_ok [OF assms(1)] assms(3,4)] by simp

theorem leader_append_only_witness:
  "prefix (log (nodes (sample_run ! 10) ! 0)) (log (nodes (sample_run ! 9) ! 0)) \<and>
   length (log (nodes (sample_run ! 9) ! 0)) = Suc (length (log (nodes (sample_run ! 10) ! 0)))"
proof -
  have r: "run 3 (sample_run ! 10 # drop 11 sample_run)"
    using run_drop [OF sample_run_run, of 10] Cons_nth_drop_Suc [of 10 sample_run]
    by (simp add: sample_run_length)
  have e: "cluster_exec (ClientStart 0 7) (sample_run ! 10) = Inr (sample_run ! 9)" by code_simp
  have l: "state (nodes (sample_run ! 9) ! 0) = Leader"
    "length (log (nodes (sample_run ! 9) ! 0)) = Suc (length (log (nodes (sample_run ! 10) ! 0)))" by code_simp+
  from leader_append_only [OF r e _ l(1)] l(2) show ?thesis by simp
qed

text \<open>Every entry of every log was made by the leader of its term: apart from the first entry
  of a log, whose term is 0, some peer led the entry's term.\<close>

theorem entries_have_leader:
  assumes "run n ss" "s \<in> set ss" "i < n" "k < length (log (nodes s ! i))"
  shows "le_Term (log (nodes s ! i) ! k) = 0 \<or>
    (\<exists>j < n. \<exists>s' \<in> set ss. GetState (nodes s' ! j) = (le_Term (log (nodes s ! i) ! k), True))"
proof -
  have "made n ss k (le_Term (log (nodes s ! i) ! k))"
    using run_log_inv [OF assms(1)] logsI [OF assms(2,3)] assms(4) by (simp add: log_inv_def)
  then show ?thesis by (auto simp: made_def led_def GetState_def)
qed

theorem entries_have_leader_witness:
  "le_Term (log (nodes (sample_run ! 0) ! 1) ! 1) = 1 \<and>
   (\<exists>j < 3. \<exists>s' \<in> set sample_run. GetState (nodes s' ! j) = (1, True))"
proof -
  have 1: "1 < length (log (nodes (sample_run ! 0) ! 1))" "le_Term (log (nodes (sample_run ! 0) ! 1) ! 1) = 1"
    by code_simp+
  from entries_have_leader [OF sample_run_run sample_run_nth _ 1(1)] 1(2) show ?thesis by simp
qed

end
