(* ===== verification/Raft_Crash.thy ===== *)
theory Raft_Crash
  imports Raft_Log
begin

text \<open>
  Crashes and restarts, as \<open>crash1\<close> and \<open>start1\<close> of \<open>config.go\<close> make them: the peer is replaced by
  a fresh \<open>Make\<close> on the state it persisted last, and the calls it had in progress, in either
  direction, are gone.

  \<open>AppendEntries\<close> persists what it changed before it answers, so an accepted entry
  survives a restart. \<open>RequestVote\<close> does not persist at all, and \<open>ticker\<close> persists before it
  changes the term and the vote, so a vote does not survive: the last section shows an
  execution with one crash in which a term gets two leaders.
\<close>

fun rpc_of :: "nat \<Rightarrow> 'c rpc \<Rightarrow> bool" where
  "rpc_of i (RunAppend src dst en args) \<longleftrightarrow> src = i \<or> dst = i"
| "rpc_of i (AppendReq src dst en args) \<longleftrightarrow> src = i \<or> dst = i"
| "rpc_of i (AppendRep src dst en args rep) \<longleftrightarrow> src = i \<or> dst = i"
| "rpc_of i (AppendEnd src) \<longleftrightarrow> src = i"
| "rpc_of i (VoteReq src dst args) \<longleftrightarrow> src = i \<or> dst = i"
| "rpc_of i (VoteRep src dst args rep) \<longleftrightarrow> src = i \<or> dst = i"

definition restart :: "nat \<Rightarrow> 'c cluster \<Rightarrow> 'c cluster" where
  "restart i s =
     s\<lparr>nodes := (nodes s)[i := Make (length (nodes s)) i (persister (nodes s ! i))],
       net := filter (\<lambda>m. \<not> rpc_of i m) (net s)\<rparr>"

inductive crash_run :: "nat \<Rightarrow> 'c cluster list \<Rightarrow> bool" for n where
  crash_start: "crash_run n [init_cluster n]"
| crash_step: "crash_run n (s # ss) \<Longrightarrow> cluster_exec e s = Inr s' \<Longrightarrow> crash_run n (s' # s # ss)"
| crash_restart: "crash_run n (s # ss) \<Longrightarrow> i < length (nodes s) \<Longrightarrow>
    crash_run n (restart i s # s # ss)"

lemma run_crash_run: "run n ss \<Longrightarrow> crash_run n ss"
  by (induction rule: run.induct) (auto intro: crash_run.intros)

text \<open>A list of events in which \<open>Inr i\<close> stands for the restart of peer \<open>i\<close>.\<close>

fun crash_events :: "('c event + nat) list \<Rightarrow> 'c cluster list \<Rightarrow> 'c cluster list go" where
  "crash_events [] ss = Inr ss"
| "crash_events (Inl e # es) ss =
     go_bind (cluster_exec e (hd ss)) (\<lambda>s'. crash_events es (s' # ss))"
| "crash_events (Inr i # es) ss =
     (if i < length (nodes (hd ss)) then crash_events es (restart i (hd ss) # ss) else Inl Blocks)"

section \<open>What survives a restart\<close>

lemma Make_restores:
  "persister rf = Some (currentTerm rf, votedFor rf, log rf) \<Longrightarrow>
   currentTerm (Make n i (persister rf)) = currentTerm rf \<and>
   votedFor (Make n i (persister rf)) = votedFor rf \<and> log (Make n i (persister rf)) = log rf"
  by (simp add: Make_def readPersist_def)

lemma AppendEntries_persists:
  assumes "AppendEntries args rf = Inr (rf', rep)"
  shows "persister rf' = Some (currentTerm rf', votedFor rf', log rf')"
  using assms by (auto simp: AppendEntries_def bind_eq_Inr split: if_splits)

text \<open>C5: whatever \<open>AppendEntries\<close> answers, the peer that crashes right after the answer and is
  made again from its persisted state comes back with the term, the vote and the log it had
  when it answered; in particular an accepted entry is not lost.\<close>

theorem AppendEntries_durable:
  assumes "AppendEntries args (nodes s ! i) = Inr (nodes s' ! i, rep)" "i < length (nodes s')"
  shows "let rf = nodes (restart i s') ! i in
    currentTerm rf = currentTerm (nodes s' ! i) \<and> votedFor rf = votedFor (nodes s' ! i) \<and>
    log rf = log (nodes s' ! i) \<and> state rf = Follower"
  using Make_restores [OF AppendEntries_persists [OF assms(1)]] assms(2)
  by (simp add: restart_def Let_def) (simp add: Make_def readPersist_def split: option.split)

theorem AppendEntries_durable_witness:
  "\<exists>args rep. AppendEntries args (nodes (sample_run ! 8) ! 1) = Inr (nodes (sample_run ! 7) ! 1, rep) \<and>
     log (nodes (restart 1 (sample_run ! 7)) ! 1) = log (nodes (sample_run ! 7) ! 1) \<and>
     length (log (nodes (sample_run ! 7) ! 1)) = 2"
proof -
  define args where "args = \<lparr>ae_Term = 1, ae_LeaderId = 0, ae_PrevLogIndex = 0, ae_PrevLogTerm = 0,
    ae_Entries = [\<lparr>le_Term = 1, le_Command = Some (7::nat), le_Index = 1\<rparr>], ae_LeaderCommit = 0\<rparr>"
  have 1: "AppendEntries args (nodes (sample_run ! 8) ! 1) =
      Inr (nodes (sample_run ! 7) ! 1, \<lparr>aer_Term = 1, aer_Success = True\<rparr>)"
    unfolding args_def by code_simp
  have 2: "1 < length (nodes (sample_run ! 7))" "length (log (nodes (sample_run ! 7) ! 1)) = 2" by code_simp+
  from AppendEntries_durable [OF 1 2(1)] 1 2(2) show ?thesis by (auto simp: Let_def)
qed

section \<open>What does not\<close>

text \<open>A vote is not persisted. \<open>RequestVote\<close> leaves the stored state as it was, so a peer
  that grants its vote for a newer term and then restarts comes back with a term below the
  one it voted in.\<close>

theorem vote_not_durable:
  assumes "RequestVote args rf = Inr (rf', rep)" "rvr_VoteGranted rep" "currentTerm rf < rv_Term args"
    and "persister rf = None \<or> persister rf = Some (currentTerm rf, votedFor rf, log rf)" "0 \<le> currentTerm rf"
  shows "persister rf' = persister rf \<and> currentTerm rf' = rv_Term args \<and>
    votedFor rf' = rv_CandidateId args \<and> currentTerm (Make n i (persister rf')) < rv_Term args"
proof -
  from assms(1) have "persister rf' = persister rf \<and> currentTerm rf' = rv_Term args \<and>
      votedFor rf' = rv_CandidateId args"
    by (cases rule: RequestVote_Inr) (use assms(2,3) in auto)
  with assms(3-5) show ?thesis by (auto simp: Make_def readPersist_def)
qed

theorem vote_not_durable_witness:
  "case RequestVote \<lparr>rv_Term = 1, rv_CandidateId = 0, rv_LastLogIndex = 0, rv_LastLogTerm = 0\<rparr>
      (Make 3 1 None :: nat Raft) of
     Inr (rf', rep) \<Rightarrow> votedFor rf' = 0 \<and> currentTerm (Make 3 1 (persister rf')) < 1
   | Inl _ \<Rightarrow> False"
proof -
  let ?args = "\<lparr>rv_Term = 1, rv_CandidateId = 0, rv_LastLogIndex = 0, rv_LastLogTerm = 0\<rparr>"
  and ?rf = "Make 3 1 None :: nat Raft"
  have "case RequestVote ?args ?rf of Inr (rf', rep) \<Rightarrow> rvr_VoteGranted rep | Inl _ \<Rightarrow> False" by code_simp
  then obtain rf' rep where 1: "RequestVote ?args ?rf = Inr (rf', rep)" "rvr_VoteGranted rep"
    by (auto split: sum.splits)
  have "currentTerm ?rf = 0" "persister ?rf = None" by code_simp+
  with vote_not_durable [OF 1] 1(1) show ?thesis by simp
qed

definition split_events :: "(nat event + nat) list" where
  "split_events =
     [Inl (ElectionTimeout 0), Inl (Deliver 0), Inl (Deliver 0), Inr 1,
      Inl (ElectionTimeout 2), Inl (Deliver 1), Inl (Deliver 0)]"

lemma crash_run_nonempty: "crash_run n ss \<Longrightarrow> ss \<noteq> []"
  by (induction rule: crash_run.induct) auto

lemma crash_events_run: "crash_run n ss \<Longrightarrow> crash_events es ss = Inr ss' \<Longrightarrow> crash_run n ss'"
proof (induction es ss rule: crash_events.induct)
  case (2 e es ss)
  from "2.prems" obtain s' where s': "cluster_exec e (hd ss) = Inr s'" "crash_events es (s' # ss) = Inr ss'"
    by (auto simp: bind_eq_Inr)
  have "crash_run n (s' # ss)"
    using "2.prems"(1) s'(1) crash_run_nonempty [OF "2.prems"(1)] crash_run.crash_step [of n "hd ss" "tl ss"] by simp
  from "2.IH" [OF this] s' show ?case by simp
next
  case (3 i es ss)
  from "3.prems" have i: "i < length (nodes (hd ss))" "crash_events es (restart i (hd ss) # ss) = Inr ss'"
    by (auto split: if_splits)
  have "crash_run n (restart i (hd ss) # ss)"
    using "3.prems"(1) i(1) crash_run_nonempty [OF "3.prems"(1)] crash_run.crash_restart [of n "hd ss" "tl ss"] by simp
  from "3.IH" [OF i(1) this i(2)] show ?case .
qed simp

text \<open>C6: with crashes, election safety is lost. Three peers, one restart: peer 1 votes for peer 0 in
  term 1, which makes peer 0 the leader; peer 1 crashes, restarts without a memory of its
  vote, and votes for peer 2 in term 1, which makes peer 2 a leader of term 1, too.\<close>

theorem crash_two_leaders:
  "\<exists>ss :: nat cluster list. crash_run 3 ss \<and> GetState (nodes (hd ss) ! 0) = (1, True) \<and>
     GetState (nodes (hd ss) ! 2) = (1, True)"
proof -
  have "case crash_events split_events [init_cluster 3] of
      Inr ss \<Rightarrow> GetState (nodes (hd ss) ! 0) = (1, True) \<and> GetState (nodes (hd ss) ! 2) = (1, True)
    | Inl _ \<Rightarrow> False" by code_simp
  then obtain ss where "crash_events split_events [init_cluster 3] = Inr ss"
    "GetState (nodes (hd ss) ! 0) = (1, True)" "GetState (nodes (hd ss) ! 2) = (1, True)"
    by (auto split: sum.splits)
  with crash_events_run [OF crash_run.crash_start] show ?thesis by blast
qed

end
