(* ===== verification/Raft_Apply.thy ===== *)
theory Raft_Apply
  imports Raft_Cluster
begin

text \<open>
  What \<open>applyEntries\<close> sends to the service: every peer, in every execution without
  crashes, sends messages with the indices 1, 2, 3, \<open>\<dots>\<close>, in this order and without gaps.
\<close>

section \<open>What reaches the service\<close>

definition same_applied :: "'c Raft \<Rightarrow> 'c Raft \<Rightarrow> bool" where
  "same_applied rf rf' \<longleftrightarrow> lastApplied rf' = lastApplied rf \<and> applyCh rf' = applyCh rf"

lemma same_applied_refl [simp]: "same_applied rf rf"
  by (simp add: same_applied_def)

lemma followLeaderCommit_applied: "followLeaderCommit lc rf = Inr rf' \<Longrightarrow> same_applied rf rf'"
  by (drule followLeaderCommit_cases) (auto simp: notifyCommitted_Inr same_applied_def)

lemma adoptTerm_applied [simp]:
  "lastApplied (adoptTerm t rf) = lastApplied rf" "applyCh (adoptTerm t rf) = applyCh rf"
  by (simp_all add: adoptTerm_def Let_def)

lemma AppendEntries_applied:
  assumes "AppendEntries args rf = Inr (rf', rep)" "wf_log (log rf)"
  shows "same_applied rf rf'"
proof (cases "ae_Term args < currentTerm rf")
  case False
  with assms(1) obtain rf1 where 1: "appendAccepted args (adoptTerm (ae_Term args) rf) = Inr (rf1, rep)"
    "rf' = persist rf1" by (auto simp: AppendEntries_def bind_eq_Inr)
  have "same_applied (adoptTerm (ae_Term args) rf) rf1"
    using 1(1) assms(2) followLeaderCommit_applied
    by (fastforce simp: appendAccepted_wf Let_def bind_eq_Inr same_applied_def split: if_splits)
  with 1(2) show ?thesis by (simp add: same_applied_def)
qed (use assms in \<open>auto simp: AppendEntries_def same_applied_def\<close>)

lemma respSuccess_applied: "respSuccess server en args rf = Inr rf' \<Longrightarrow> same_applied rf rf'"
  by (erule respSuccess_cases) (auto simp: notifyCommitted_Inr same_applied_def)

lemma respAppendEntries_applied:
  assumes "respAppendEntries d en args rep rf = Inr (rf', cs)"
  shows "same_applied rf rf'"
  using assms by (cases rule: respAppendEntries_Inr) (auto simp: same_applied_def dest: respSuccess_applied)

lemma Start_applied:
  assumes "Start c rf = Inr (rf', cs, r)" "wf_log (log rf)"
  shows "same_applied rf rf'"
proof -
  obtain x y z where r: "r = (x, y, z)" by (cases r)
  from assms [unfolded r] show ?thesis
    by (cases rule: Start_Inr) (simp_all add: same_applied_def)
qed

lemma tickerElection_applied: "tickerElection rf = Inr (rf', vs) \<Longrightarrow> same_applied rf rf'"
  by (erule tickerElection_Inr) (simp_all add: same_applied_def)

lemma electionReply_applied: "electionReply request response rf = Inr (rf', cs) \<Longrightarrow> same_applied rf rf'"
  by (erule electionReply_Inr) (simp_all add: same_applied_def becomeLeader_def)

lemma RequestVote_applied: "RequestVote args rf = Inr (rf', rep) \<Longrightarrow> same_applied rf rf'"
  by (erule RequestVote_Inr) (simp_all add: same_applied_def)

text \<open>The messages sent so far carry the indices 1, 2, 3, \<open>\<dots>\<close> up to \<open>lastApplied\<close>.\<close>

definition applied_ok :: "'c Raft \<Rightarrow> bool" where
  "applied_ok rf \<longleftrightarrow> 0 \<le> lastApplied rf \<and>
     map CommandIndex (applyCh rf) = map int [1..<Suc (nat (lastApplied rf))] \<and>
     (\<forall>m \<in> set (applyCh rf). CommandValid m)"

lemma wf_log_indices:
  "wf_log l \<Longrightarrow> j \<le> length l \<Longrightarrow> map le_Index (take (j - i) (drop i l)) = map int [i..<j]"
  by (rule nth_equalityI) (auto simp: wf_log_def)

lemma applyEntries_ok:
  assumes "applyEntries rf = Inr rf'" "wf_log (log rf)" "applied_ok rf"
  shows "applied_ok rf'"
proof (cases "lastApplied rf < commitIndex rf")
  case True
  let ?es = "take (nat (commitIndex rf + 1) - nat (lastApplied rf + 1)) (drop (nat (lastApplied rf + 1)) (log rf))"
  have la: "0 \<le> lastApplied rf" using assms(3) by (simp add: applied_ok_def)
  from assms(1,2) True la have c: "commitIndex rf < int (length (log rf))"
    and rf': "rf' = rf\<lparr>lastApplied := commitIndex rf, applyCh := applyCh rf @ map applyMsg ?es\<rparr>"
    by (auto simp: applyEntries_def bind_eq_Inr slice_range_Inr split: if_splits)
  have "map CommandIndex (map applyMsg ?es) = map le_Index ?es" by (simp add: applyMsg_def)
  also have "\<dots> = map int [nat (lastApplied rf + 1)..<nat (commitIndex rf + 1)]"
    using c by (intro wf_log_indices [OF assms(2)]) simp
  finally have "map CommandIndex (applyCh rf') =
      map int ([1..<Suc (nat (lastApplied rf))] @ [Suc (nat (lastApplied rf))..<Suc (nat (commitIndex rf))])"
    using assms(3) True la by (simp add: applied_ok_def rf' nat_add_distrib)
  also have "[1..<Suc (nat (lastApplied rf))] @ [Suc (nat (lastApplied rf))..<Suc (nat (commitIndex rf))]
      = [1..<Suc (nat (commitIndex rf))]"
    using True la upt_add_eq_append [of 1 "Suc (nat (lastApplied rf))" "nat (commitIndex rf) - nat (lastApplied rf)"]
    by simp
  finally show ?thesis using assms(3) True la by (auto simp: applied_ok_def rf' applyMsg_def)
next
  case False
  with assms show ?thesis by (auto simp: applyEntries_def applied_ok_def split: if_splits)
qed

lemma applied_ok_same: "same_applied rf rf' \<Longrightarrow> applied_ok rf \<Longrightarrow> applied_ok rf'"
  by (simp add: same_applied_def applied_ok_def)

lemma cluster_exec_applied:
  assumes "cluster_exec e s = Inr s'" and ok: "cluster_ok n s" and i: "i < n" "applied_ok (nodes s ! i)"
  shows "applied_ok (nodes s' ! i)"
proof -
  have wf: "wf_log (log (nodes s ! j))" if "j < n" for j
    using cluster_okD(2) [OF ok that] by (simp add: peer_ok_def)
  have upd: "applied_ok ((nodes s)[j := rf] ! i)"
    if "j < n" "applied_ok (nodes s ! j) \<Longrightarrow> applied_ok rf" for j rf
    using that i ok by (auto simp: nth_list_update cluster_okD)
  from assms(1,2) show ?thesis
  proof (cases rule: cluster_exec_Inr)
    case (timeout j rf vs)
    with upd tickerElection_applied [OF timeout(2)] show ?thesis by (auto intro: applied_ok_same)
  next
    case (client j c rf cs r)
    with upd Start_applied [OF client(2) wf] show ?thesis by (auto intro: applied_ok_same)
  next
    case (applied j rf)
    with upd applyEntries_ok [OF applied(2) wf] show ?thesis by auto
  next
    case (ended k j)
    with upd [of j "persist (nodes s ! j)"] show ?thesis by (auto simp: applied_ok_def)
  next
    case (appendReq k src dst en args rf rep)
    with upd AppendEntries_applied [OF appendReq(4) wf] show ?thesis by (auto intro: applied_ok_same)
  next
    case (appendRep k src dst en args rep rf cs)
    with upd respAppendEntries_applied [OF appendRep(6)] show ?thesis by (auto intro: applied_ok_same)
  next
    case (voteReq k src dst args rf rep)
    with upd RequestVote_applied [OF voteReq(4)] show ?thesis by (auto intro: applied_ok_same)
  next
    case (voteRep k src dst args rep rf cs)
    with upd electionReply_applied [OF voteRep(4)] show ?thesis by (auto intro: applied_ok_same)
  qed (use i in simp_all)
qed

lemma run_applied_ok: "run n ss \<Longrightarrow> s \<in> set ss \<Longrightarrow> i < n \<Longrightarrow> applied_ok (nodes s ! i)"
proof (induction arbitrary: s rule: run.induct)
  case start
  then show ?case by (simp add: init_cluster_nth applied_ok_def Make_def readPersist_def)
next
  case (step s ss e s' s0)
  with cluster_exec_applied [OF step.hyps(2) run_ok [OF step.hyps(1)]] show ?case by auto
qed

text \<open>C4: what a peer has sent to its service so far are valid commands with the indices
  1, 2, 3, \<open>\<dots>\<close>, \<open>lastApplied\<close>: in order, without gaps, none twice.\<close>

theorem applied_in_order:
  assumes "run n ss" "s \<in> set ss" "i < n"
  shows "map CommandIndex (applyCh (nodes s ! i)) = map int [1..<Suc (nat (lastApplied (nodes s ! i)))] \<and>
    (\<forall>m \<in> set (applyCh (nodes s ! i)). CommandValid m)"
  using run_applied_ok [OF assms] by (simp add: applied_ok_def)

theorem applied_in_order_witness:
  "map CommandIndex (applyCh (nodes (sample_run ! 0) ! 1)) = map int [1..<Suc 1] \<and>
   lastApplied (nodes (sample_run ! 0) ! 1) = 1"
proof -
  have 1: "lastApplied (nodes (sample_run ! 0) ! 1) = 1" by code_simp
  from applied_in_order [OF sample_run_run sample_run_nth, of 0 1] 1 show ?thesis by simp
qed

end
