(* ===== verification/Raft_Config.thy ===== *)
theory Raft_Config
  imports Raft_Crash Raft_Apply
begin

text \<open>
  The checks of \<open>config.go\<close>: what the harness of the laboratory demands of a Raft cluster.

  \<open>checkLogs\<close> and \<open>applier\<close> read the messages of a peer and stop the process when two
  peers apply different commands at an index or a peer skips one; \<open>checkOneLeader\<close>,
  \<open>checkTerms\<close>, \<open>checkNoLeader\<close> and \<open>nCommitted\<close> inspect the peers. They turn the theorems on executions into
  statements on the verdict of the harness: no peer is ever caught out of order, and
  \<open>checkOneLeader\<close> never sees two leaders in a term. Agreement of the applied commands does
  not hold: \<open>matchIndex\<close> is not reset when a peer becomes a leader, and the last
  section gives an execution in which \<open>applier\<close> stops the process.

  Of the record \<open>config\<close> the fields these functions use are kept. \<open>log.Fatalf\<close> and
  \<open>cfg.t.Fatalf\<close> are results in a type of errors. A Go map with integer keys is a map.
\<close>

section \<open>The harness\<close>

record 'c config =
  connected :: "bool list"
  cfg_logs :: "(int \<rightharpoonup> 'c option) list"
  maxIndex :: int

datatype 'c cfg_error =
    CommitMismatch int nat "'c option" nat "'c option"
  | ApplyOutOfOrder nat int
  | TwoLeaders int nat
  | NoLeader
  | LeaderExpectedNone nat
  | TermsDisagree
  | ValuesDiffer int "'c option" "'c option"
  | OnlyDecided nat int nat
  | NoAgreement "'c option"
  | TooSlow

text \<open>The loop over \<open>cfg.logs\<close>: the last server with another command at the index.\<close>

definition conflictWith :: "'c ApplyMsg \<Rightarrow> (int \<rightharpoonup> 'c option) list \<Rightarrow> (nat \<times> 'c option) option" where
  "conflictWith m ls = fold (\<lambda>j err.
     case (ls ! j) (CommandIndex m) of
       Some old \<Rightarrow> if old \<noteq> Command m then Some (j, old) else err
     | None \<Rightarrow> err) [0..<length ls] None"

definition checkLogs :: "nat \<Rightarrow> 'c ApplyMsg \<Rightarrow> 'c config \<Rightarrow> 'c cfg_error option \<times> bool \<times> 'c config" where
  "checkLogs i m cfg =
     (let err = (case conflictWith m (cfg_logs cfg) of None \<Rightarrow> None
                 | Some (j, old) \<Rightarrow> Some (CommitMismatch (CommandIndex m) i (Command m) j old));
          prevok = (cfg_logs cfg ! i) (CommandIndex m - 1) \<noteq> None
      in (err, prevok,
          cfg\<lparr>cfg_logs := (cfg_logs cfg)[i := (cfg_logs cfg ! i)(CommandIndex m \<mapsto> Command m)],
              maxIndex := max (maxIndex cfg) (CommandIndex m)\<rparr>))"

definition applierStep :: "nat \<Rightarrow> 'c ApplyMsg \<Rightarrow> 'c config \<Rightarrow> 'c cfg_error + 'c config" where
  "applierStep i m cfg =
     (if \<not> CommandValid m then Inr cfg
      else case checkLogs i m cfg of (err_msg, prevok, cfg') \<Rightarrow>
        let err = (if CommandIndex m > 1 \<and> \<not> prevok then Some (ApplyOutOfOrder i (CommandIndex m)) else err_msg)
        in case err of None \<Rightarrow> Inr cfg' | Some e \<Rightarrow> Inl e)"

fun applier :: "nat \<Rightarrow> 'c ApplyMsg list \<Rightarrow> 'c config \<Rightarrow> 'c cfg_error + 'c config" where
  "applier i [] cfg = Inr cfg"
| "applier i (m # ms) cfg = (case applierStep i m cfg of Inl e \<Rightarrow> Inl e | Inr cfg' \<Rightarrow> applier i ms cfg')"

text \<open>One round of \<open>checkOneLeader\<close>: \<open>obs ! i\<close> is what \<open>GetState\<close> of server \<open>i\<close> returned when the loop came
  to it. \<open>None\<close> means that no leader was seen and the next round follows.\<close>

definition leadersAt :: "(int \<times> bool) list \<Rightarrow> bool list \<Rightarrow> int \<Rightarrow> nat list" where
  "leadersAt obs conn t = filter (\<lambda>i. conn ! i \<and> obs ! i = (t, True)) [0..<length obs]"

definition leaderTerms :: "(int \<times> bool) list \<Rightarrow> bool list \<Rightarrow> int list" where
  "leaderTerms obs conn =
     remdups (map (\<lambda>i. fst (obs ! i)) (filter (\<lambda>i. conn ! i \<and> snd (obs ! i)) [0..<length obs]))"

definition oneLeaderRound :: "(int \<times> bool) list \<Rightarrow> bool list \<Rightarrow> 'c cfg_error + nat option" where
  "oneLeaderRound obs conn =
     (let terms = leaderTerms obs conn in
      case find (\<lambda>t. length (leadersAt obs conn t) > 1) terms of
        Some t \<Rightarrow> Inl (TwoLeaders t (length (leadersAt obs conn t)))
      | None \<Rightarrow>
          let lastTermWithLeader = fold max terms (-1) in
          Inr (if terms = [] then None else Some (hd (leadersAt obs conn lastTermWithLeader))))"

fun checkOneLeader :: "(int \<times> bool) list list \<Rightarrow> bool list \<Rightarrow> 'c cfg_error + nat" where
  "checkOneLeader [] conn = Inl NoLeader"
| "checkOneLeader (obs # rounds) conn =
     (case oneLeaderRound obs conn of Inl e \<Rightarrow> Inl e
      | Inr (Some i) \<Rightarrow> Inr i
      | Inr None \<Rightarrow> checkOneLeader rounds conn)"

fun checkTermsLoop :: "(int \<times> bool) list \<Rightarrow> bool list \<Rightarrow> nat list \<Rightarrow> int \<Rightarrow> 'c cfg_error + int" where
  "checkTermsLoop obs conn [] term = Inr term"
| "checkTermsLoop obs conn (i # is) term =
     (if conn ! i then
        let xterm = fst (obs ! i) in
        if term = -1 then checkTermsLoop obs conn is xterm
        else if term \<noteq> xterm then Inl TermsDisagree
        else checkTermsLoop obs conn is term
      else checkTermsLoop obs conn is term)"

definition checkTerms :: "(int \<times> bool) list \<Rightarrow> bool list \<Rightarrow> 'c cfg_error + int" where
  "checkTerms obs conn = checkTermsLoop obs conn [0..<length obs] (-1)"

definition checkNoLeader :: "(int \<times> bool) list \<Rightarrow> bool list \<Rightarrow> 'c cfg_error + unit" where
  "checkNoLeader obs conn =
     (case find (\<lambda>i. conn ! i \<and> snd (obs ! i)) [0..<length obs] of
        Some i \<Rightarrow> Inl (LeaderExpectedNone i) | None \<Rightarrow> Inr ())"

fun nCommittedLoop ::
    "(int \<rightharpoonup> 'c option) list \<Rightarrow> int \<Rightarrow> nat \<Rightarrow> 'c option \<Rightarrow> 'c cfg_error + (nat \<times> 'c option)" where
  "nCommittedLoop [] index cnt cmd = Inr (cnt, cmd)"
| "nCommittedLoop (l # ls) index cnt cmd =
     (case l index of
        None \<Rightarrow> nCommittedLoop ls index cnt cmd
      | Some cmd1 \<Rightarrow>
          if cnt > 0 \<and> cmd \<noteq> cmd1 then Inl (ValuesDiffer index cmd cmd1)
          else nCommittedLoop ls index (cnt + 1) cmd1)"

definition nCommitted :: "int \<Rightarrow> 'c config \<Rightarrow> 'c cfg_error + (nat \<times> 'c option)" where
  "nCommitted index cfg = nCommittedLoop (cfg_logs cfg) index 0 None"

section \<open>Verdicts of the harness\<close>

lemma checkLogs_frame:
  "checkLogs i m cfg = (err, prevok, cfg') \<Longrightarrow>
     prevok = ((cfg_logs cfg ! i) (CommandIndex m - 1) \<noteq> None) \<and>
     cfg_logs cfg' = (cfg_logs cfg)[i := (cfg_logs cfg ! i)(CommandIndex m \<mapsto> Command m)] \<and>
     (\<forall>k. err \<noteq> Some (ApplyOutOfOrder i' k))"
  by (auto simp: checkLogs_def Let_def split: option.splits)

lemma applierStep_cases:
  assumes "CommandIndex m > 1 \<Longrightarrow> (cfg_logs cfg ! i) (CommandIndex m - 1) \<noteq> None" "CommandValid m"
  shows "(\<exists>e. applierStep i m cfg = Inl e \<and> (\<forall>i' k. e \<noteq> ApplyOutOfOrder i' k)) \<or>
    (\<exists>cfg'. applierStep i m cfg = Inr cfg' \<and>
       cfg_logs cfg' = (cfg_logs cfg)[i := (cfg_logs cfg ! i)(CommandIndex m \<mapsto> Command m)])"
  using assms by (auto simp: applierStep_def checkLogs_def Let_def split: option.splits)

lemma applier_in_order:
  assumes "map CommandIndex ms = map int [a..<b]" "\<forall>m \<in> set ms. CommandValid m" "1 \<le> a" "i < length (cfg_logs cfg)"
    "a = 1 \<or> (cfg_logs cfg ! i) (int a - 1) \<noteq> None"
  shows "applier i ms cfg \<noteq> Inl (ApplyOutOfOrder i' k)"
  using assms
proof (induction ms arbitrary: a cfg)
  case (Cons m ms)
  from Cons.prems(1) have ab: "a < b" "CommandIndex m = int a" "map CommandIndex ms = map int [Suc a..<b]"
    by (cases "a < b"; simp add: upt_conv_Cons)+
  from Cons.prems ab applierStep_cases [of m cfg i] show ?case
    using Cons.IH [OF ab(3)] by auto
qed simp

lemma distinct_filter_length:
  "distinct xs \<Longrightarrow> length (filter P xs) > 1 \<Longrightarrow>
     \<exists>i \<in> set xs. \<exists>j \<in> set xs. i \<noteq> j \<and> P i \<and> P j"
proof -
  assume d: "distinct xs" and l: "length (filter P xs) > 1"
  then have "filter P xs ! 0 \<noteq> filter P xs ! 1"
    by (subst nth_eq_iff_index_eq) (auto simp: distinct_filter)
  moreover have "filter P xs ! 0 \<in> set (filter P xs)" "filter P xs ! 1 \<in> set (filter P xs)"
    using nth_mem [of 0 "filter P xs"] nth_mem [of 1 "filter P xs"] l by linarith+
  ultimately show ?thesis by auto
qed

lemma fold_max_in: "fold max xs (y::int) \<in> insert y (set xs)"
  by (induction xs arbitrary: y) (auto simp: max_def split: if_splits)

lemma fold_max_ge: "y \<le> fold max xs (y::int) \<and> (\<forall>x \<in> set xs. x \<le> fold max xs y)"
proof (induction xs arbitrary: y)
  case (Cons x xs)
  from Cons.IH [of "max x y"] show ?case by auto
qed simp

text \<open>A round returns the leader of the latest term seen, if no term shows two leaders.\<close>

lemma oneLeaderRound_leader:
  assumes "oneLeaderRound obs conn = Inr (Some i)" "\<forall>j < length obs. 0 \<le> fst (obs ! j)"
  shows "i < length obs \<and> conn ! i \<and> snd (obs ! i) \<and>
    (\<forall>j < length obs. conn ! j \<and> snd (obs ! j) \<longrightarrow> fst (obs ! j) \<le> fst (obs ! i))"
proof -
  let ?terms = "leaderTerms obs conn" and ?t = "fold max (leaderTerms obs conn) (-1)"
  from assms(1) have ne: "?terms \<noteq> []" and i: "i = hd (leadersAt obs conn ?t)"
    by (auto simp: oneLeaderRound_def Let_def split: option.splits if_splits)
  have pos: "\<forall>x \<in> set ?terms. 0 \<le> x" using assms(2) by (auto simp: leaderTerms_def)
  obtain x where x: "x \<in> set ?terms" using ne by (cases ?terms) auto
  with pos fold_max_ge [of "-1" ?terms] have "0 \<le> ?t" by fastforce
  with fold_max_in [of ?terms "-1"] have t: "?t \<in> set ?terms" by auto
  then obtain k where "k < length obs" "conn ! k" "obs ! k = (?t, True)"
    unfolding leaderTerms_def by (auto simp: prod_eq_iff)
  then have "leadersAt obs conn ?t \<noteq> []" by (auto simp: leadersAt_def filter_empty_conv)
  then have "i \<in> set (leadersAt obs conn ?t)" by (simp add: i)
  then have "i < length obs" "conn ! i" "obs ! i = (?t, True)" by (auto simp: leadersAt_def)
  moreover have "fst (obs ! j) \<in> set ?terms" if "j < length obs" "conn ! j" "snd (obs ! j)" for j
    using that by (auto simp: leaderTerms_def)
  ultimately show ?thesis using fold_max_ge [of "-1" ?terms] by auto
qed

lemma oneLeaderRound_two:
  assumes "oneLeaderRound obs conn = Inl e"
  shows "\<exists>i < length obs. \<exists>j < length obs. \<exists>t. i \<noteq> j \<and> obs ! i = (t, True) \<and> obs ! j = (t, True)"
proof -
  from assms obtain t where "length (leadersAt obs conn t) > 1"
    by (auto simp: oneLeaderRound_def Let_def find_Some_iff split: option.splits)
  with distinct_filter_length [of "[0..<length obs]"] show ?thesis
    unfolding leadersAt_def by fastforce
qed

lemma nCommittedLoop_spec:
  assumes "nCommittedLoop ls index cnt cmd = Inr (r, c)"
  shows "r = cnt + length (filter (\<lambda>l. l index \<noteq> None) ls) \<and>
    (\<forall>l \<in> set ls. l index \<noteq> None \<longrightarrow> l index = Some c) \<and> (cnt > 0 \<longrightarrow> c = cmd)"
  using assms
proof (induction ls arbitrary: cnt cmd)
  case (Cons l ls)
  show ?case
  proof (cases "l index")
    case None
    with Cons.IH [of cnt cmd] Cons.prems show ?thesis by simp
  next
    case (Some cmd1)
    with Cons.prems have "nCommittedLoop ls index (cnt + 1) cmd1 = Inr (r, c)" "cnt > 0 \<longrightarrow> cmd = cmd1"
      by (auto split: if_splits)
    with Cons.IH [of "cnt + 1" cmd1] Some show ?thesis by auto
  qed
qed simp

lemma checkTermsLoop_spec:
  assumes "\<forall>i \<in> set is. 0 \<le> fst (obs ! i)" "-1 \<le> term"
  shows "(\<exists>t. checkTermsLoop obs conn is term = (Inr t :: 'e cfg_error + int) \<and> (\<forall>i \<in> set is. conn ! i \<longrightarrow> fst (obs ! i) = t) \<and>
      (term \<noteq> -1 \<longrightarrow> t = term)) \<or>
    (checkTermsLoop obs conn is term = (Inl TermsDisagree :: 'e cfg_error + int) \<and>
      (\<exists>i \<in> set is. conn ! i \<and> (term \<noteq> -1 \<and> fst (obs ! i) \<noteq> term \<or>
         (\<exists>j \<in> set is. conn ! j \<and> fst (obs ! i) \<noteq> fst (obs ! j)))))"
  using assms
proof (induction "is" arbitrary: "term")
  case (Cons i "is")
  then have 1: "\<forall>i \<in> set is. 0 \<le> fst (obs ! i)" "-1 \<le> fst (obs ! i)" "fst (obs ! i) \<noteq> -1" by auto
  from Cons.IH [OF 1(1,2)] Cons.IH [OF 1(1) Cons.prems(2)] 1(3) show ?case
    by (auto simp: Let_def)
qed simp


text \<open>The harness never catches a peer applying out of order. Fed with all that a peer has sent
  in an execution, \<open>applier\<close>, on whatever other servers have applied, does not stop
  with the error ``apply out of order''.\<close>

theorem applier_never_out_of_order:
  assumes "run n ss" "s \<in> set ss" "i < n" "i < length (cfg_logs cfg)"
  shows "applier i (applyCh (nodes s ! i)) cfg \<noteq> Inl (ApplyOutOfOrder j k)"
  using run_applied_ok [OF assms(1-3)] assms(4)
  by (intro applier_in_order [where a = 1 and b = "Suc (nat (lastApplied (nodes s ! i)))"])
    (simp_all add: applied_ok_def)

theorem applier_never_out_of_order_witness:
  "applier 1 (applyCh (nodes (sample_run ! 0) ! 1))
     \<lparr>connected = [True, True, True], cfg_logs = [Map.empty, Map.empty, Map.empty], maxIndex = 0\<rparr>
     \<noteq> Inl (ApplyOutOfOrder 1 1) \<and> length (applyCh (nodes (sample_run ! 0) ! 1)) = 1"
proof -
  have "length (applyCh (nodes (sample_run ! 0) ! 1)) = 1" by code_simp
  with applier_never_out_of_order [OF sample_run_run sample_run_nth, of 0 1
      "\<lparr>connected = [True, True, True], cfg_logs = [Map.empty, Map.empty, Map.empty], maxIndex = 0\<rparr>" 1 1]
  show ?thesis by simp
qed

text \<open>\<open>checkOneLeader\<close> never fails with two leaders in a term. Whatever moments of an execution its
  rounds observe, each round reading each peer at a moment of its own, it returns a
  connected peer that it saw leading, or fails because no round saw a leader.\<close>

theorem checkOneLeader_verdict:
  assumes "run n ss"
    and "\<forall>obs \<in> set rounds. length obs = n \<and> (\<forall>i < n. \<exists>s \<in> set ss. obs ! i = GetState (nodes s ! i))"
  shows "(\<exists>i < n. checkOneLeader rounds conn = (Inr i :: 'e cfg_error + nat) \<and> conn ! i \<and>
       (\<exists>obs \<in> set rounds. snd (obs ! i))) \<or>
     checkOneLeader rounds conn = (Inl NoLeader :: 'e cfg_error + nat)"
  using assms(2)
proof (induction rounds)
  case (Cons obs rounds)
  have obs: "length obs = n" "\<forall>i < n. \<exists>s \<in> set ss. obs ! i = GetState (nodes s ! i)"
    using Cons.prems by auto
  show ?case
  proof (cases "oneLeaderRound obs conn :: 'e cfg_error + nat option")
    case (Inl e)
    from oneLeaderRound_two [OF this] obtain i j t where ij: "i < n" "j < n" "i \<noteq> j"
      "obs ! i = (t, True)" "obs ! j = (t, True)" using obs(1) by auto
    then obtain s s' where "s \<in> set ss" "s' \<in> set ss" "(t, True) = GetState (nodes s ! i)"
      "(t, True) = GetState (nodes s' ! j)" using obs(2) by metis
    then have "led ss i t" "led ss j t" by (auto simp: led_def GetState_def)
    with led_unique [OF assms(1) ij(1,2)] ij(3) show ?thesis by blast
  next
    case (Inr r)
    have "\<forall>j < length obs. 0 \<le> fst (obs ! j)"
      using obs run_ok [OF assms(1)] by (fastforce simp: cluster_ok_def peer_ok_def GetState_def)
    with Inr oneLeaderRound_leader [of obs conn] Cons.IH Cons.prems obs(1) show ?thesis
      by (cases r) auto
  qed
qed simp

theorem checkOneLeader_verdict_witness:
  "(checkOneLeader [map GetState (nodes (sample_run ! 0))] [True, True, True] :: nat cfg_error + nat) = Inr 0"
proof -
  let ?o = "map GetState (nodes (sample_run ! 0))"
  have l: "length (nodes (sample_run ! 0)) = 3" by code_simp
  then have "\<forall>obs \<in> set [?o]. length obs = 3 \<and> (\<forall>i < 3. \<exists>s \<in> set sample_run. obs ! i = GetState (nodes s ! i))"
    using sample_run_nth [of 0] by (auto intro!: bexI [of _ "sample_run ! 0"])
  from checkOneLeader_verdict [OF sample_run_run this, of "[True, True, True]", where 'e = nat]
  have "(\<exists>i < 3. snd (?o ! i) \<and> checkOneLeader [?o] [True, True, True] = (Inr i :: nat cfg_error + nat)) \<or>
    checkOneLeader [?o] [True, True, True] = (Inl NoLeader :: nat cfg_error + nat)" by auto
  moreover have "\<not> snd (?o ! 1)" "\<not> snd (?o ! 2)"
    "checkOneLeader [?o] [True, True, True] \<noteq> (Inl NoLeader :: nat cfg_error + nat)" by code_simp+
  ultimately obtain i where i: "i < 3" "snd (?o ! i)"
    "checkOneLeader [?o] [True, True, True] = (Inr i :: nat cfg_error + nat)" by blast
  from i(1) consider "i = 0" | "i = 1" | "i = 2" by linarith
  then show ?thesis using i \<open>\<not> snd (?o ! 1)\<close> \<open>\<not> snd (?o ! 2)\<close> by cases simp_all
qed

text \<open>\<open>nCommitted\<close> counts the servers that applied an index, and returns a command only if all of
  them applied that command.\<close>

theorem nCommitted_spec:
  assumes "nCommitted index cfg = Inr (cnt, cmd)"
  shows "cnt = length (filter (\<lambda>l. l index \<noteq> None) (cfg_logs cfg)) \<and>
    (\<forall>l \<in> set (cfg_logs cfg). l index \<noteq> None \<longrightarrow> l index = Some cmd)"
  using nCommittedLoop_spec [OF assms [unfolded nCommitted_def]] by simp

theorem nCommitted_spec_witness:
  "let cfg = \<lparr>connected = [True, True], cfg_logs = [[1 \<mapsto> Some 7], Map.empty], maxIndex = 1\<rparr>
   in nCommitted 1 cfg = Inr (1, Some (7::nat)) \<and>
      1 = length (filter (\<lambda>l. l 1 \<noteq> None) (cfg_logs cfg))"
proof -
  have "nCommitted 1 \<lparr>connected = [True, True], cfg_logs = [[1 \<mapsto> Some (7::nat)], Map.empty], maxIndex = 1\<rparr>
      = Inr (1, Some 7)" by (simp add: nCommitted_def)
  from this nCommitted_spec [OF this] show ?thesis by (simp add: Let_def)
qed

text \<open>\<open>checkTerms\<close> returns a term exactly when all connected servers reported that term, and fails
  when two of them disagree.\<close>

theorem checkTerms_spec:
  assumes "\<forall>i < length obs. 0 \<le> fst (obs ! i)"
  shows "(\<exists>t. checkTerms obs conn = (Inr t :: 'e cfg_error + int) \<and> (\<forall>i < length obs. conn ! i \<longrightarrow> fst (obs ! i) = t)) \<or>
    (checkTerms obs conn = (Inl TermsDisagree :: 'e cfg_error + int) \<and> (\<exists>i < length obs. \<exists>j < length obs.
       conn ! i \<and> conn ! j \<and> fst (obs ! i) \<noteq> fst (obs ! j)))"
  using checkTermsLoop_spec [of "[0..<length obs]" obs "-1" conn] assms
  unfolding checkTerms_def by fastforce

theorem checkTerms_spec_witness:
  "checkTerms [(2, True), (2, False)] [True, True] = (Inr 2 :: nat cfg_error + int)"
  using checkTerms_spec [of "[(2, True), (2, False)]" "[True, True]", where 'e = nat]
  by (auto simp: less_Suc_eq checkTerms_def)

section \<open>Applied commands can differ\<close>

text \<open>Five peers. Peer 0 leads term 1 and puts commands 1 and 2 on peer 1, so that it records
  2 in \<open>matchIndex\<close> for it. Peer 4 leads term 2 and replaces the log of peer 0. Peer 0 leads term 4, with the old
  \<open>matchIndex\<close>, and puts command 4 at index 2 on peer 2; it counts itself, peer 2 and, wrongly, peer 1, and
  commits. Peer 4, elected by peers 1 and 3 in term 5, commits command 5 at index 2.\<close>

definition stale_events :: "nat event list" where
  "stale_events =
     [ElectionTimeout 0, Deliver 0, Deliver 0, Deliver 0, Deliver 0,
      ClientStart 0 1, ClientStart 0 2, Deliver 0, Deliver 0, Deliver 0,
      ElectionTimeout 4, Deliver 2, Deliver 0, ElectionTimeout 4, Deliver 2, Deliver 0, Deliver 2, Deliver 0,
      ClientStart 4 3, Deliver 0, Deliver 0, Deliver 0,
      ElectionTimeout 0, ElectionTimeout 0, Deliver 1, Deliver 0, Deliver 1, Deliver 0,
      ClientStart 0 4, Deliver 1, Deliver 0, Deliver 0, Apply 0,
      Deliver 9, ElectionTimeout 4, Deliver 1, Deliver 0, Deliver 2, Deliver 0,
      ClientStart 4 5, Deliver 1, Deliver 0, Deliver 0, Deliver 3, Deliver 0, Deliver 0, Apply 4]"

text \<open>C17: state machine safety does not hold: there is an execution without crashes in which peer 0 applies
  command 4 at index 2 and peer 4 applies command 5 at index 2, and the harness, reading peer 0 and then
  peer 4, stops with a mismatch.\<close>

theorem applied_commands_differ:
  "\<exists>ss cfg. run 5 ss \<and>
     applier 0 (applyCh (nodes (hd ss) ! 0))
       \<lparr>connected = replicate 5 True, cfg_logs = replicate 5 Map.empty, maxIndex = 0\<rparr> = Inr cfg \<and>
     applier 4 (applyCh (nodes (hd ss) ! 4)) cfg =
       Inl (CommitMismatch 2 4 (Some 5) 0 (Some (4::nat)))"
proof -
  let ?c0 = "\<lparr>connected = replicate 5 True, cfg_logs = replicate 5 Map.empty, maxIndex = 0\<rparr>"
  have "case exec_events stale_events [init_cluster 5] of Inl _ \<Rightarrow> False
    | Inr ss \<Rightarrow> (case applier 0 (applyCh (nodes (hd ss) ! 0)) ?c0 of Inl _ \<Rightarrow> False
        | Inr cfg \<Rightarrow> (case applier 4 (applyCh (nodes (hd ss) ! 4)) cfg of Inr _ \<Rightarrow> False
           | Inl e \<Rightarrow> e = CommitMismatch 2 4 (Some 5) 0 (Some 4)))" by code_simp
  then obtain ss cfg where "exec_events stale_events [init_cluster 5] = Inr ss"
    "applier 0 (applyCh (nodes (hd ss) ! 0)) ?c0 = Inr cfg"
    "applier 4 (applyCh (nodes (hd ss) ! 4)) cfg = Inl (CommitMismatch 2 4 (Some 5) 0 (Some 4))"
    by (auto split: sum.splits)
  with exec_events_run [OF run.start] show ?thesis by blast
qed

end
