(* ===== verification/Labrpc.thy ===== *)
theory Labrpc
  imports Lab_Prelude
begin

text \<open>
  \<open>lab3/lab3/labrpc/labrpc.go\<close>: remote calls over a network that loses and delays messages.

  End names are of type \<open>'e\<close>, server names of type \<open>'s\<close>. Servers are compared by identity, so they live in a heap and the network holds references to them.
  Methods are functions from an argument of type \<open>'v\<close> and the state of the services, of type \<open>'st\<close>, to a reply and a new state. \<open>labgob\<close> is a codec, a parameter: encoding to bytes, and decoding,
  which may fail.

  A call in progress is a value of type \<open>call\<close>: the request, how far \<open>processReq\<close> has come with it, and what the goroutine that runs the handler has done. The steps of different calls and the administration of the network
  interleave in any order; the sleeps and timers of the source only bound when a step happens. Random choices are arguments of the steps.
\<close>

section \<open>Services and servers\<close>

record 'e reqMsg =
  endname :: 'e
  svcMeth :: string
  args :: string

record replyMsg =
  ok :: bool
  reply :: string

definition failed :: replyMsg where
  "failed = \<lparr>ok = False, reply = []\<rparr>"

record 'v codec =
  encode :: "'v \<Rightarrow> string"
  decode :: "string \<Rightarrow> 'v option"
  zero :: 'v     \<comment> \<open>a fresh argument, which an unsuccessful \<open>Decode\<close> leaves as it is\<close>

text \<open>What \<open>reflect\<close> says of a method.\<close>

record ('v, 'st) reflectMethod =
  Name :: string
  PkgPath :: string
  NumIn :: nat
  In2Ptr :: bool
  NumOut :: nat
  Func :: "'v \<Rightarrow> 'st \<Rightarrow> 'v \<times> 'st"

record ('v, 'st) Service =
  svc_name :: string
  methods :: "string \<rightharpoonup> ('v \<Rightarrow> 'st \<Rightarrow> 'v \<times> 'st)"

definition isHandler :: "('v, 'st) reflectMethod \<Rightarrow> bool" where
  "isHandler m \<longleftrightarrow> \<not> (PkgPath m \<noteq> [] \<or> NumIn m \<noteq> 3 \<or> \<not> In2Ptr m \<or> NumOut m \<noteq> 0)"

fun addMethods :: "('v, 'st) reflectMethod list \<Rightarrow> (string \<rightharpoonup> ('v \<Rightarrow> 'st \<Rightarrow> 'v \<times> 'st)) \<Rightarrow> (string \<rightharpoonup> ('v \<Rightarrow> 'st \<Rightarrow> 'v \<times> 'st))" where
  "addMethods [] ms = ms"
| "addMethods (m # rest) ms = addMethods rest (if \<not> isHandler m then ms else ms(Name m \<mapsto> Func m))"

definition MakeService :: "string \<Rightarrow> ('v, 'st) reflectMethod list \<Rightarrow> ('v, 'st) Service" where
  "MakeService name rms = \<lparr>svc_name = name, methods = addMethods rms Map.empty\<rparr>"

definition serviceDispatch :: "'v codec \<Rightarrow> ('v, 'st) Service \<Rightarrow> string \<Rightarrow> 'e reqMsg \<Rightarrow> 'st \<Rightarrow> (replyMsg \<times> 'st) go" where
  "serviceDispatch cd svc methname req st =
     (case methods svc methname of
        Some method \<Rightarrow>
          let v = (case decode cd (args req) of Some v \<Rightarrow> v | None \<Rightarrow> zero cd);
              (replyv, st) = method v st
          in Inr (\<lparr>ok = True, reply = encode cd replyv\<rparr>, st)
      | None \<Rightarrow> Inl (ExplicitPanic ''labrpc.Service.dispatch(): unknown method''))"

record ('v, 'st) Server =
  services :: "string \<rightharpoonup> ('v, 'st) Service"
  srv_count :: int

definition MakeServer :: "('v, 'st) Server" where
  "MakeServer = \<lparr>services = Map.empty, srv_count = 0\<rparr>"

definition AddService :: "('v, 'st) Service \<Rightarrow> ('v, 'st) Server \<Rightarrow> ('v, 'st) Server" where
  "AddService svc rs = rs\<lparr>services := (services rs)(svc_name svc \<mapsto> svc)\<rparr>"

text \<open>\<open>strings.LastIndex\<close> of a dot: \<open>-1\<close> if there is none.\<close>

definition lastDot :: "string \<Rightarrow> int" where
  "lastDot s = (if CHR ''.'' \<in> set s then int (length s) - 1 - int (length (takeWhile (\<lambda>ch. ch \<noteq> CHR ''.'') (rev s))) else -1)"

definition serverDispatch :: "'v codec \<Rightarrow> 'e reqMsg \<Rightarrow> ('v, 'st) Server \<Rightarrow> 'st \<Rightarrow> (replyMsg \<times> ('v, 'st) Server \<times> 'st) go" where
  "serverDispatch cd req rs st =
     (let rs = rs\<lparr>srv_count := srv_count rs + 1\<rparr>; dot = lastDot (svcMeth req) in
      go_bind (slice_to (svcMeth req) dot) (\<lambda>serviceName.
      go_bind (slice_from (svcMeth req) (dot + 1)) (\<lambda>methodName.
      case services rs serviceName of
        Some service \<Rightarrow> go_bind (serviceDispatch cd service methodName req st) (\<lambda>(r, st). Inr (r, rs, st))
      | None \<Rightarrow> Inl (ExplicitPanic ''labrpc.Server.dispatch(): unknown service''))))"

definition serverGetCount :: "('v, 'st) Server \<Rightarrow> int" where
  "serverGetCount rs = srv_count rs"

section \<open>The network\<close>

text \<open>The maps of the source give \<open>false\<close> and \<open>nil\<close> for absent names, so the model has functions. A server is a reference into the heap.\<close>

record ('e, 's) Network =
  reliable :: bool
  longDelays :: bool
  longReordering :: bool
  ends :: "'e list"
  enabled :: "'e \<Rightarrow> bool"
  servers :: "'s \<Rightarrow> nat option"
  connections :: "'e \<Rightarrow> 's option"
  net_done :: bool
  net_count :: "32 word"
  net_bytes :: "64 word"

definition MakeNetwork :: "('e, 's) Network" where
  "MakeNetwork = \<lparr>reliable = True, longDelays = False, longReordering = False, ends = [], enabled = (\<lambda>_. False), servers = (\<lambda>_. None),
     connections = (\<lambda>_. None), net_done = False, net_count = 0, net_bytes = 0\<rparr>"

definition Cleanup :: "('e, 's) Network \<Rightarrow> ('e, 's) Network go" where
  "Cleanup rn = (if net_done rn then Inl (BadArgument ''close of closed channel'') else Inr (rn\<lparr>net_done := True\<rparr>))"

definition Reliable :: "bool \<Rightarrow> ('e, 's) Network \<Rightarrow> ('e, 's) Network" where
  "Reliable yes rn = rn\<lparr>reliable := yes\<rparr>"

definition LongReordering :: "bool \<Rightarrow> ('e, 's) Network \<Rightarrow> ('e, 's) Network" where
  "LongReordering yes rn = rn\<lparr>longReordering := yes\<rparr>"

definition LongDelays :: "bool \<Rightarrow> ('e, 's) Network \<Rightarrow> ('e, 's) Network" where
  "LongDelays yes rn = rn\<lparr>longDelays := yes\<rparr>"

definition readEndnameInfo :: "('e, 's) Network \<Rightarrow> 'e \<Rightarrow> bool \<times> 's option \<times> nat option \<times> bool \<times> bool" where
  "readEndnameInfo rn e =
     (enabled rn e, connections rn e, (case connections rn e of Some s \<Rightarrow> servers rn s | None \<Rightarrow> None), reliable rn, longReordering rn)"

definition isServerDead :: "('e, 's) Network \<Rightarrow> 'e \<Rightarrow> 's \<Rightarrow> nat \<Rightarrow> bool" where
  "isServerDead rn e s server \<longleftrightarrow> \<not> enabled rn e \<or> servers rn s \<noteq> Some server"

definition MakeEnd :: "'e \<Rightarrow> ('e, 's) Network \<Rightarrow> ('e, 's) Network go" where
  "MakeEnd e rn =
     (if e \<in> set (ends rn) then Inl (ExplicitPanic ''MakeEnd: already exists'')
      else Inr (rn\<lparr>ends := e # ends rn, enabled := (enabled rn)(e := False), connections := (connections rn)(e := None)\<rparr>))"

definition AddServer :: "'s \<Rightarrow> nat \<Rightarrow> ('e, 's) Network \<Rightarrow> ('e, 's) Network" where
  "AddServer s rs rn = rn\<lparr>servers := (servers rn)(s := Some rs)\<rparr>"

definition DeleteServer :: "'s \<Rightarrow> ('e, 's) Network \<Rightarrow> ('e, 's) Network" where
  "DeleteServer s rn = rn\<lparr>servers := (servers rn)(s := None)\<rparr>"

definition Connect :: "'e \<Rightarrow> 's \<Rightarrow> ('e, 's) Network \<Rightarrow> ('e, 's) Network" where
  "Connect e s rn = rn\<lparr>connections := (connections rn)(e := Some s)\<rparr>"

definition Enable :: "'e \<Rightarrow> bool \<Rightarrow> ('e, 's) Network \<Rightarrow> ('e, 's) Network" where
  "Enable e b rn = rn\<lparr>enabled := (enabled rn)(e := b)\<rparr>"

definition GetCount :: "'s \<Rightarrow> (nat \<Rightarrow> ('v, 'st) Server) \<Rightarrow> ('e, 's) Network \<Rightarrow> int go" where
  "GetCount s heap rn = (case servers rn s of Some r \<Rightarrow> Inr (serverGetCount (heap r)) | None \<Rightarrow> Inl NilDereference)"

definition GetTotalCount :: "('e, 's) Network \<Rightarrow> int" where
  "GetTotalCount rn = sint (net_count rn)"

definition GetTotalBytes :: "('e, 's) Network \<Rightarrow> int" where
  "GetTotalBytes rn = sint (net_bytes rn)"

section \<open>Calls\<close>

datatype 's phase =
    Queued                              \<comment> \<open>taken from \<open>endCh\<close>, \<open>processReq\<close> not yet begun\<close>
  | Waiting 's nat bool bool            \<comment> \<open>in the loop of \<open>processReq\<close>: server name, server, \<open>reliable\<close>, \<open>longreordering\<close>\<close>
  | Delayed replyMsg                    \<comment> \<open>the reply waits for a timer of \<open>time.AfterFunc\<close>\<close>
  | Done replyMsg                       \<comment> \<open>sent to \<open>replyCh\<close>\<close>

datatype handler =
    NotStarted
  | Pending nat                         \<comment> \<open>the goroutine with the call of \<open>server.dispatch\<close>\<close>
  | Returned replyMsg                   \<comment> \<open>its result, for the channel \<open>ech\<close>\<close>

record ('e, 's) call =
  c_req :: "'e reqMsg"
  c_phase :: "'s phase"
  c_handler :: handler

record ('e, 's, 'v, 'st) sys =
  net :: "('e, 's) Network"
  heap :: "nat \<Rightarrow> ('v, 'st) Server"
  state :: 'st
  calls :: "('e, 's) call list"

text \<open>\<open>Call\<close> up to its wait for the reply: encode, and send or notice that the network is gone. The goroutine of \<open>MakeNetwork\<close> counts the request. After \<open>Cleanup\<close> that goroutine may still be in its \<open>select\<close>
  when the call is made, and then either case of the two \<open>select\<close> statements may be taken; \<open>taken\<close> tells whether the request still is.\<close>

definition startCall :: "'v codec \<Rightarrow> bool \<Rightarrow> 'e \<Rightarrow> string \<Rightarrow> 'v \<Rightarrow> ('e, 's, 'v, 'st) sys \<Rightarrow> ('e, 's, 'v, 'st) sys" where
  "startCall cd taken e meth v s =
     (let req = \<lparr>endname = e, svcMeth = meth, args = encode cd v\<rparr> in
      if net_done (net s) \<and> \<not> taken then s\<lparr>calls := calls s @ [\<lparr>c_req = req, c_phase = Done failed, c_handler = NotStarted\<rparr>]\<rparr>
      else s\<lparr>net := (net s)\<lparr>net_count := net_count (net s) + 1, net_bytes := net_bytes (net s) + of_nat (length (args req))\<rparr>,
             calls := calls s @ [\<lparr>c_req = req, c_phase = Queued, c_handler = NotStarted\<rparr>]\<rparr>)"

text \<open>The rest of \<open>Call\<close>: \<open>Inr None\<close> is its result \<open>false\<close>.\<close>

definition endCall :: "'v codec \<Rightarrow> replyMsg \<Rightarrow> 'v option go" where
  "endCall cd rep =
     (if ok rep then (case decode cd (reply rep) of Some v \<Rightarrow> Inr (Some v) | None \<Rightarrow> Inl (ExplicitPanic ''ClientEnd.Call(): decode reply''))
      else Inr None)"

text \<open>\<open>processReq\<close> up to its loop; \<open>dropped\<close> is the random choice to dropped the request.\<close>

definition beginReq :: "('e, 's) Network \<Rightarrow> bool \<Rightarrow> ('e, 's) call \<Rightarrow> ('e, 's) call" where
  "beginReq rn dropped c =
     (case readEndnameInfo rn (endname (c_req c)) of
        (True, Some servername, Some server, rel, longr) \<Rightarrow>
          if \<not> rel \<and> dropped then c\<lparr>c_phase := Done failed\<rparr>
          else c\<lparr>c_phase := Waiting servername server rel longr, c_handler := Pending server\<rparr>
      | _ \<Rightarrow> c\<lparr>c_phase := Delayed failed\<rparr>)"

text \<open>The case of \<open>time.After\<close> in the loop.\<close>

definition pollReq :: "('e, 's) Network \<Rightarrow> ('e, 's) call \<Rightarrow> ('e, 's) call" where
  "pollReq rn c =
     (case c_phase c of
        Waiting servername server rel longr \<Rightarrow>
          if isServerDead rn (endname (c_req c)) servername server then c\<lparr>c_phase := Done failed\<rparr> else c
      | _ \<Rightarrow> c)"

text \<open>The case of \<open>ech\<close> and what follows the loop; \<open>dropped\<close> and \<open>delay\<close> are random choices.\<close>

definition finishReq :: "('e, 's) Network \<Rightarrow> bool \<Rightarrow> bool \<Rightarrow> ('e, 's) call \<Rightarrow> ('e, 's) call \<times> ('e, 's) Network" where
  "finishReq rn dropped delay c =
     (case (c_phase c, c_handler c) of
        (Waiting servername server rel longr, Returned r) \<Rightarrow>
          if isServerDead rn (endname (c_req c)) servername server then (c\<lparr>c_phase := Done failed\<rparr>, rn)
          else if \<not> rel \<and> dropped then (c\<lparr>c_phase := Done failed\<rparr>, rn)
          else if longr \<and> delay then (c\<lparr>c_phase := Delayed r\<rparr>, rn)
          else (c\<lparr>c_phase := Done r\<rparr>, rn\<lparr>net_bytes := net_bytes rn + of_nat (length (reply r))\<rparr>)
      | _ \<Rightarrow> (c, rn))"

text \<open>A timer fires. Only replies that succeeded count as bytes; a failed one is empty.\<close>

definition fireReq :: "('e, 's) Network \<Rightarrow> ('e, 's) call \<Rightarrow> ('e, 's) call \<times> ('e, 's) Network" where
  "fireReq rn c =
     (case c_phase c of
        Delayed r \<Rightarrow> (c\<lparr>c_phase := Done r\<rparr>, rn\<lparr>net_bytes := net_bytes rn + of_nat (length (reply r))\<rparr>)
      | _ \<Rightarrow> (c, rn))"

text \<open>The calls that administer the network, each under its lock.\<close>

datatype ('e, 's) admin =
    AReliable bool
  | ALongReordering bool
  | ALongDelays bool
  | AMakeEnd 'e
  | AAddServer 's nat
  | ADeleteServer 's
  | AConnect 'e 's
  | AEnable 'e bool
  | ACleanup

fun admin_exec :: "('e, 's) admin \<Rightarrow> ('e, 's) Network \<Rightarrow> ('e, 's) Network go" where
  "admin_exec (AReliable b) rn = Inr (Reliable b rn)"
| "admin_exec (ALongReordering b) rn = Inr (LongReordering b rn)"
| "admin_exec (ALongDelays b) rn = Inr (LongDelays b rn)"
| "admin_exec (AMakeEnd e) rn = MakeEnd e rn"
| "admin_exec (AAddServer s r) rn = Inr (AddServer s r rn)"
| "admin_exec (ADeleteServer s) rn = Inr (DeleteServer s rn)"
| "admin_exec (AConnect e s) rn = Inr (Connect e s rn)"
| "admin_exec (AEnable e b) rn = Inr (Enable e b rn)"
| "admin_exec ACleanup rn = Cleanup rn"

datatype ('e, 's, 'v) net_event =
    Call bool 'e string 'v
  | Begin nat bool
  | Handle nat
  | Poll nat
  | Finish nat bool bool
  | Fire nat
  | Admin "('e, 's) admin"

text \<open>The handler goroutine of a call.\<close>

definition handleReq :: "'v codec \<Rightarrow> nat \<Rightarrow> ('e, 's, 'v, 'st) sys \<Rightarrow> ('e, 's, 'v, 'st) sys go" where
  "handleReq cd i s =
     (case c_handler (calls s ! i) of
        Pending server \<Rightarrow>
          go_bind (serverDispatch cd (c_req (calls s ! i)) (heap s server) (state s)) (\<lambda>(r, rs, st).
          Inr (s\<lparr>heap := (heap s)(server := rs), state := st, calls := (calls s)[i := (calls s ! i)\<lparr>c_handler := Returned r\<rparr>]\<rparr>))
      | _ \<Rightarrow> Inr s)"

fun net_exec :: "'v codec \<Rightarrow> ('e, 's, 'v) net_event \<Rightarrow> ('e, 's, 'v, 'st) sys \<Rightarrow> ('e, 's, 'v, 'st) sys go" where
  "net_exec cd (Call taken e meth v) s = Inr (startCall cd taken e meth v s)"
| "net_exec cd (Begin i dropped) s =
     Inr (if i < length (calls s) \<and> c_phase (calls s ! i) = Queued then s\<lparr>calls := (calls s)[i := beginReq (net s) dropped (calls s ! i)]\<rparr> else s)"
| "net_exec cd (Handle i) s = (if i < length (calls s) then handleReq cd i s else Inr s)"
| "net_exec cd (Poll i) s = Inr (if i < length (calls s) then s\<lparr>calls := (calls s)[i := pollReq (net s) (calls s ! i)]\<rparr> else s)"
| "net_exec cd (Finish i dropped delay) s =
     Inr (if i < length (calls s) then (case finishReq (net s) dropped delay (calls s ! i) of (c, rn) \<Rightarrow> s\<lparr>net := rn, calls := (calls s)[i := c]\<rparr>) else s)"
| "net_exec cd (Fire i) s =
     Inr (if i < length (calls s) then (case fireReq (net s) (calls s ! i) of (c, rn) \<Rightarrow> s\<lparr>net := rn, calls := (calls s)[i := c]\<rparr>) else s)"
| "net_exec cd (Admin a) s = go_bind (admin_exec a (net s)) (\<lambda>rn. Inr (s\<lparr>net := rn\<rparr>))"

fun net_run :: "'v codec \<Rightarrow> ('e, 's, 'v) net_event list \<Rightarrow> ('e, 's, 'v, 'st) sys \<Rightarrow> ('e, 's, 'v, 'st) sys go" where
  "net_run cd [] s = Inr s"
| "net_run cd (ev # evs) s = go_bind (net_exec cd ev s) (net_run cd evs)"

section \<open>At most once\<close>

text \<open>A reply that succeeded is the result of the handler of the call, and has not been made up.\<close>

fun phase_ok :: "'s phase \<Rightarrow> handler \<Rightarrow> bool" where
  "phase_ok Queued h \<longleftrightarrow> h = NotStarted"
| "phase_ok (Waiting s n rel longr) h \<longleftrightarrow> h \<noteq> NotStarted"
| "phase_ok (Delayed r) h \<longleftrightarrow> (ok r \<longrightarrow> h = Returned r)"
| "phase_ok (Done r) h \<longleftrightarrow> (ok r \<longrightarrow> h = Returned r)"

definition calls_ok :: "('e, 's, 'v, 'st) sys \<Rightarrow> bool" where
  "calls_ok s \<longleftrightarrow> (\<forall>c \<in> set (calls s). phase_ok (c_phase c) (c_handler c))"

lemma calls_ok_nth: "calls_ok s \<Longrightarrow> i < length (calls s) \<Longrightarrow> phase_ok (c_phase (calls s ! i)) (c_handler (calls s ! i))"
  by (simp add: calls_ok_def)

lemma calls_ok_update:
  "calls_ok s \<Longrightarrow> phase_ok (c_phase c) (c_handler c) \<Longrightarrow> calls_ok (s\<lparr>calls := (calls s)[i := c]\<rparr>)"
  unfolding calls_ok_def by (auto dest!: set_update_subset_insert [THEN subsetD])

lemma failed_not_ok [simp]: "\<not> ok failed"
  by (simp add: failed_def)

lemma beginReq_ok: "phase_ok (c_phase (beginReq rn d c)) (c_handler (beginReq rn d c))"
  by (auto simp: beginReq_def readEndnameInfo_def split: bool.split option.split)

lemma pollReq_ok: "phase_ok (c_phase c) (c_handler c) \<Longrightarrow> phase_ok (c_phase (pollReq rn c)) (c_handler (pollReq rn c))"
  by (cases "c_phase c") (auto simp: pollReq_def)

lemma finishReq_ok:
  "phase_ok (c_phase c) (c_handler c) \<Longrightarrow> finishReq rn d l c = (c', rn') \<Longrightarrow> phase_ok (c_phase c') (c_handler c')"
  by (cases "c_phase c"; cases "c_handler c") (auto simp: finishReq_def split: if_splits)

lemma fireReq_ok: "phase_ok (c_phase c) (c_handler c) \<Longrightarrow> fireReq rn c = (c', rn') \<Longrightarrow> phase_ok (c_phase c') (c_handler c')"
  by (cases "c_phase c") (auto simp: fireReq_def)

lemma calls_startCall [simp]:
  "calls (startCall cd taken e meth v s) = calls s @ [\<lparr>c_req = \<lparr>endname = e, svcMeth = meth, args = encode cd v\<rparr>,
     c_phase = (if net_done (net s) \<and> \<not> taken then Done failed else Queued), c_handler = NotStarted\<rparr>]"
  by (simp add: startCall_def Let_def)

lemma step_calls_ok:
  assumes "net_exec cd ev s = Inr s'" "calls_ok s"
  shows "calls_ok s'"
proof (cases ev)
  case (Call taken e meth v)
  then show ?thesis using assms by (auto simp: calls_ok_def)
next
  case (Begin i d)
  then show ?thesis using assms calls_ok_update [OF assms(2) beginReq_ok, of i "net s" d "calls s ! i"] by (auto split: if_splits)
next
  case (Handle i)
  show ?thesis
  proof (cases "i < length (calls s)")
    case True
    then show ?thesis using assms Handle calls_ok_nth [OF assms(2) True]
      by (cases "c_phase (calls s ! i)")
        (auto simp: handleReq_def go_bind_def calls_ok_def split: handler.splits sum.splits dest!: set_update_subset_insert [THEN subsetD])
  qed (use assms Handle in simp)
next
  case (Poll i)
  then show ?thesis using assms calls_ok_update [OF assms(2) pollReq_ok [OF calls_ok_nth [OF assms(2)]], of i i "net s"] by (auto split: if_splits)
next
  case (Finish i d l)
  show ?thesis
  proof (cases "i < length (calls s)")
    case True
    obtain c rn where f: "finishReq (net s) d l (calls s ! i) = (c, rn)" by (cases "finishReq (net s) d l (calls s ! i)")
    have "phase_ok (c_phase c) (c_handler c)" by (rule finishReq_ok [OF calls_ok_nth [OF assms(2) True] f])
    from calls_ok_update [OF assms(2) this, of i] show ?thesis using assms(1) Finish True f by (auto simp: calls_ok_def)
  qed (use assms Finish in simp)
next
  case (Fire i)
  show ?thesis
  proof (cases "i < length (calls s)")
    case True
    obtain c rn where f: "fireReq (net s) (calls s ! i) = (c, rn)" by (cases "fireReq (net s) (calls s ! i)")
    have "phase_ok (c_phase c) (c_handler c)" by (rule fireReq_ok [OF calls_ok_nth [OF assms(2) True] f])
    from calls_ok_update [OF assms(2) this, of i] show ?thesis using assms(1) Fire True f by (auto simp: calls_ok_def)
  qed (use assms Fire in simp)
next
  case (Admin a)
  then show ?thesis using assms by (auto simp: calls_ok_def go_bind_def split: sum.splits)
qed

text \<open>What has become of the handler of call \<open>i\<close>, and whether a step runs it.\<close>

definition handlerOf :: "('e, 's, 'v, 'st) sys \<Rightarrow> nat \<Rightarrow> handler" where
  "handlerOf s i = (if i < length (calls s) then c_handler (calls s ! i) else NotStarted)"

definition runs :: "('e, 's, 'v) net_event \<Rightarrow> nat \<Rightarrow> ('e, 's, 'v, 'st) sys \<Rightarrow> bool" where
  "runs ev i s \<longleftrightarrow> (case ev of Handle j \<Rightarrow> j = i \<and> (case handlerOf s i of Pending n \<Rightarrow> True | _ \<Rightarrow> False) | _ \<Rightarrow> False)"

lemma beginReq_handler: "c_handler (beginReq rn d c) = c_handler c \<or> (\<exists>n. c_handler (beginReq rn d c) = Pending n)"
  by (auto simp: beginReq_def readEndnameInfo_def split: bool.split option.split)

lemma other_handlers [simp]:
  "c_handler (pollReq rn c) = c_handler c" "finishReq rn d l c = (c', rn') \<Longrightarrow> c_handler c' = c_handler c" "fireReq rn c = (c', rn') \<Longrightarrow> c_handler c' = c_handler c"
  "c_req (beginReq rn d c) = c_req c" "c_req (pollReq rn c) = c_req c" "finishReq rn d l c = (c', rn') \<Longrightarrow> c_req c' = c_req c" "fireReq rn c = (c', rn') \<Longrightarrow> c_req c' = c_req c"
  by (auto simp: pollReq_def finishReq_def fireReq_def beginReq_def readEndnameInfo_def split: phase.splits handler.splits if_splits bool.split option.split)

lemma step_handler:
  assumes "net_exec cd ev s = Inr s'" "calls_ok s"
  shows "if runs ev i s
    then \<exists>n r rs. serverDispatch cd (c_req (calls s ! i)) (heap s n) (state s) = Inr (r, rs, state s') \<and> handlerOf s' i = Returned r
    else handlerOf s' i = handlerOf s i \<or> (handlerOf s i = NotStarted \<and> (\<exists>n. handlerOf s' i = Pending n))"
proof (cases ev)
  case (Call taken e meth v)
  then show ?thesis using assms(1) by (auto simp: runs_def handlerOf_def nth_append)
next
  case (Begin j d)
  then show ?thesis using assms(1) calls_ok_nth [OF assms(2), of j] beginReq_handler [of "net s" d "calls s ! j"]
    by (cases "j = i") (auto simp: runs_def handlerOf_def split: if_splits)
next
  case (Handle j)
  then show ?thesis using assms(1)
    by (cases "j = i"; cases "c_handler (calls s ! j)") (auto simp: runs_def handlerOf_def handleReq_def go_bind_def split: if_splits sum.splits, blast)
next
  case (Poll j)
  then show ?thesis using assms(1) by (cases "j = i") (auto simp: runs_def handlerOf_def split: if_splits)
next
  case (Finish j d l)
  then show ?thesis using assms(1) by (cases "j = i") (auto simp: runs_def handlerOf_def split: if_splits prod.splits)
next
  case (Fire j)
  then show ?thesis using assms(1) by (cases "j = i") (auto simp: runs_def handlerOf_def split: if_splits prod.splits)
next
  case (Admin a)
  then show ?thesis using assms(1) by (auto simp: runs_def handlerOf_def go_bind_def split: sum.splits)
qed

lemma step_req:
  assumes "net_exec cd ev s = Inr s'" "i < length (calls s)"
  shows "i < length (calls s') \<and> c_req (calls s' ! i) = c_req (calls s ! i)"
proof (cases ev)
  case (Call taken e meth v)
  then show ?thesis using assms by (auto simp: nth_append)
next
  case (Begin j d)
  then show ?thesis using assms by (cases "j = i") (auto split: if_splits)
next
  case (Handle j)
  then show ?thesis using assms by (cases "j = i"; cases "c_handler (calls s ! j)") (auto simp: handleReq_def go_bind_def split: if_splits sum.splits)
next
  case (Poll j)
  then show ?thesis using assms by (cases "j = i") (auto split: if_splits)
next
  case (Finish j d l)
  then show ?thesis using assms by (cases "j = i") (auto split: if_splits prod.splits)
next
  case (Fire j)
  then show ?thesis using assms by (cases "j = i") (auto split: if_splits prod.splits)
next
  case (Admin a)
  then show ?thesis using assms by (auto simp: go_bind_def split: sum.splits)
qed

lemma run_req: "net_run cd evs s = Inr s' \<Longrightarrow> i < length (calls s) \<Longrightarrow> i < length (calls s') \<and> c_req (calls s' ! i) = c_req (calls s ! i)"
proof (induction evs arbitrary: s)
  case (Cons ev evs)
  then obtain s1 where s1: "net_exec cd ev s = Inr s1" "net_run cd evs s1 = Inr s'" by (auto simp: go_bind_def split: sum.splits)
  then show ?case using Cons.IH [OF s1(2)] step_req [OF s1(1) Cons.prems(2)] by simp
qed simp

text \<open>How often the handler of call \<open>i\<close> runs in an execution.\<close>

fun executions :: "'v codec \<Rightarrow> nat \<Rightarrow> ('e, 's, 'v) net_event list \<Rightarrow> ('e, 's, 'v, 'st) sys \<Rightarrow> nat" where
  "executions cd i [] s = 0"
| "executions cd i (ev # evs) s =
     (if runs ev i s then 1 else 0) + (case net_exec cd ev s of Inl f \<Rightarrow> 0 | Inr s \<Rightarrow> executions cd i evs s)"

definition hasRun :: "handler \<Rightarrow> bool" where
  "hasRun h = (case h of Returned r \<Rightarrow> True | _ \<Rightarrow> False)"

lemma run_executions:
  "net_run cd evs s = Inr s' \<Longrightarrow> calls_ok s \<Longrightarrow>
     executions cd i evs s + (if hasRun (handlerOf s i) then 1 else 0) = (if hasRun (handlerOf s' i) then 1 else 0)"
proof (induction evs arbitrary: s)
  case (Cons ev evs)
  then obtain s1 where s1: "net_exec cd ev s = Inr s1" "net_run cd evs s1 = Inr s'" by (auto simp: go_bind_def split: sum.splits)
  have ok1: "calls_ok s1" by (rule step_calls_ok [OF s1(1) Cons.prems(2)])
  have "(if runs ev i s then 1 else 0) + (if hasRun (handlerOf s i) then 1 else 0 :: nat) = (if hasRun (handlerOf s1 i) then 1 else 0)"
    using step_handler [OF s1(1) Cons.prems(2), of i]
    by (cases "runs ev i s") (auto simp: hasRun_def runs_def split: net_event.splits handler.splits)
  then show ?case using Cons.IH [OF s1(2) ok1] s1(1) by simp
qed simp

lemma run_calls_ok: "net_run cd evs s = Inr s' \<Longrightarrow> calls_ok s \<Longrightarrow> calls_ok s'"
proof (induction evs arbitrary: s)
  case (Cons ev evs)
  then obtain s1 where s1: "net_exec cd ev s = Inr s1" "net_run cd evs s1 = Inr s'" by (auto simp: go_bind_def split: sum.splits)
  show ?case by (rule Cons.IH [OF s1(2) step_calls_ok [OF s1(1) Cons.prems(2)]])
qed simp

lemma returned_stays: "net_run cd evs s = Inr s' \<Longrightarrow> calls_ok s \<Longrightarrow> handlerOf s i = Returned r \<Longrightarrow> handlerOf s' i = Returned r"
proof (induction evs arbitrary: s)
  case (Cons ev evs)
  then obtain s1 where s1: "net_exec cd ev s = Inr s1" "net_run cd evs s1 = Inr s'" by (auto simp: go_bind_def split: sum.splits)
  have "\<not> runs ev i s" using Cons.prems(3) by (auto simp: runs_def split: net_event.splits)
  then have "handlerOf s1 i = Returned r" using step_handler [OF s1(1) Cons.prems(2), of i] Cons.prems(3) by auto
  then show ?case by (rule Cons.IH [OF s1(2) step_calls_ok [OF s1(1) Cons.prems(2)]])
qed simp

lemma run_result:
  assumes "net_run cd evs s = Inr s'" "calls_ok s" "handlerOf s' i = Returned r" "\<not> hasRun (handlerOf s i)"
  shows "\<exists>evs1 evs2 s1 s2 n rs. evs = evs1 @ Handle i # evs2 \<and> net_run cd evs1 s = Inr s1 \<and> net_exec cd (Handle i) s1 = Inr s2 \<and>
    net_run cd evs2 s2 = Inr s' \<and> serverDispatch cd (c_req (calls s' ! i)) (heap s1 n) (state s1) = Inr (r, rs, state s2)"
  using assms
proof (induction evs arbitrary: s)
  case (Cons ev evs)
  obtain s1 where s1: "net_exec cd ev s = Inr s1" "net_run cd evs s1 = Inr s'" using Cons.prems(1) by (auto simp: go_bind_def split: sum.splits)
  have ok1: "calls_ok s1" by (rule step_calls_ok [OF s1(1) Cons.prems(2)])
  show ?case
  proof (cases "runs ev i s")
    case True
    then have ev: "ev = Handle i" and i: "i < length (calls s)" by (auto simp: runs_def handlerOf_def split: net_event.splits handler.splits if_splits)
    obtain n r' rs where d: "serverDispatch cd (c_req (calls s ! i)) (heap s n) (state s) = Inr (r', rs, state s1)" "handlerOf s1 i = Returned r'"
      using step_handler [OF s1(1) Cons.prems(2), of i] True by auto
    have "c_req (calls s1 ! i) = c_req (calls s ! i)" "i < length (calls s1)" using step_req [OF s1(1) i] by auto
    then have q: "c_req (calls s' ! i) = c_req (calls s ! i)" using run_req [OF s1(2)] by simp
    have "handlerOf s' i = Returned r'" using returned_stays [OF s1(2) ok1 d(2)] .
    with Cons.prems(3) have "r' = r" by simp
    then show ?thesis using ev s1 d(1) q by (intro exI [of _ "[]"] exI [of _ evs] exI [of _ s] exI [of _ s1] exI [of _ n] exI [of _ rs]) simp
  next
    case False
    then have "\<not> hasRun (handlerOf s1 i)"
      using step_handler [OF s1(1) Cons.prems(2), of i] Cons.prems(4) by (auto simp: hasRun_def split: handler.splits)
    from Cons.IH [OF s1(2) ok1 Cons.prems(3) this] obtain evs1 evs2 t1 t2 n rs where
      h: "evs = evs1 @ Handle i # evs2" "net_run cd evs1 s1 = Inr t1" "net_exec cd (Handle i) t1 = Inr t2" "net_run cd evs2 t2 = Inr s'"
        "serverDispatch cd (c_req (calls s' ! i)) (heap t1 n) (state t1) = Inr (r, rs, state t2)" by blast
    have "net_run cd (ev # evs1) s = Inr t1" using s1(1) h(2) by simp
    then show ?thesis using h by (intro exI [of _ "ev # evs1"] exI [of _ evs2] exI [of _ t1] exI [of _ t2] exI [of _ n] exI [of _ rs]) simp
  qed
qed (auto simp: hasRun_def)

text \<open>C8: A remote call is executed at most once, and a call that returns \<open>true\<close> exactly once. In every execution of the network, with any losses, delays and administration, the handler of a call has run once if it has
  returned and never otherwise. If the call ended with a reply that succeeded, then that reply is what \<open>dispatch\<close> gave for the request of the call in the state of the services at one moment of the execution, and the state after
  that moment is the one \<open>dispatch\<close> left.\<close>

theorem rpc_at_most_once:
  assumes "net_run cd evs s0 = Inr s" "calls s0 = []" "i < length (calls s)"
  shows "executions cd i evs s0 = (if hasRun (c_handler (calls s ! i)) then 1 else 0) \<and>
    (\<forall>r. c_phase (calls s ! i) = Done r \<longrightarrow> ok r \<longrightarrow>
      executions cd i evs s0 = 1 \<and>
      (\<exists>evs1 evs2 s1 s2 n rs. evs = evs1 @ Handle i # evs2 \<and> net_run cd evs1 s0 = Inr s1 \<and> net_exec cd (Handle i) s1 = Inr s2 \<and>
         net_run cd evs2 s2 = Inr s \<and> serverDispatch cd (c_req (calls s ! i)) (heap s1 n) (state s1) = Inr (r, rs, state s2)))"
proof -
  have ok0: "calls_ok s0" using assms(2) by (simp add: calls_ok_def)
  have h0: "handlerOf s0 i = NotStarted" using assms(2) by (simp add: handlerOf_def)
  have h: "handlerOf s i = c_handler (calls s ! i)" using assms(3) by (simp add: handlerOf_def)
  have e: "executions cd i evs s0 = (if hasRun (c_handler (calls s ! i)) then 1 else 0)"
    using run_executions [OF assms(1) ok0, of i] h0 h by (simp add: hasRun_def)
  have "c_handler (calls s ! i) = Returned r" if "c_phase (calls s ! i) = Done r" "ok r" for r
    using calls_ok_nth [OF run_calls_ok [OF assms(1) ok0] assms(3)] that by simp
  moreover have "\<not> hasRun (handlerOf s0 i)" by (simp add: h0 hasRun_def)
  ultimately show ?thesis using e run_result [OF assms(1) ok0] h by (simp add: hasRun_def)
qed

section \<open>Every call ends\<close>

declare other_handlers [simp del]

text \<open>How far a call has come.\<close>

definition stage :: "('e, 's) call \<Rightarrow> nat" where
  "stage c = (case c_phase c of Queued \<Rightarrow> 0 | Waiting s n rel longr \<Rightarrow> if hasRun (c_handler c) then 2 else 1 | Delayed r \<Rightarrow> 3 | Done r \<Rightarrow> 4)"

lemma stage_begin: "1 \<le> stage (beginReq rn d c)"
  by (auto simp: stage_def beginReq_def readEndnameInfo_def split: bool.split option.split)

lemma stage_poll: "stage c \<le> stage (pollReq rn c)"
  by (cases "c_phase c") (auto simp: stage_def pollReq_def)

lemma stage_finish: "finishReq rn d l c = (c', rn') \<Longrightarrow> stage c \<le> stage c' \<and> (2 \<le> stage c \<longrightarrow> 3 \<le> stage c')"
  by (cases "c_phase c"; cases "c_handler c") (auto simp: stage_def finishReq_def hasRun_def split: if_splits)

lemma stage_fire: "fireReq rn c = (c', rn') \<Longrightarrow> stage c \<le> stage c' \<and> (3 \<le> stage c \<longrightarrow> stage c' = 4)"
  by (cases "c_phase c") (auto simp: stage_def fireReq_def hasRun_def split: if_splits)

text \<open>No step takes a call back, and the steps of its own goroutines take it on.\<close>

lemma stage_step:
  assumes "net_exec cd ev s = Inr s'" "calls_ok s" "i < length (calls s)"
  shows "stage (calls s ! i) \<le> stage (calls s' ! i) \<and>
    (case ev of Begin j d \<Rightarrow> j = i \<longrightarrow> 1 \<le> stage (calls s' ! i)
     | Handle j \<Rightarrow> j = i \<longrightarrow> 1 \<le> stage (calls s ! i) \<longrightarrow> 2 \<le> stage (calls s' ! i)
     | Finish j d l \<Rightarrow> j = i \<longrightarrow> 2 \<le> stage (calls s ! i) \<longrightarrow> 3 \<le> stage (calls s' ! i)
     | Fire j \<Rightarrow> j = i \<longrightarrow> 3 \<le> stage (calls s ! i) \<longrightarrow> stage (calls s' ! i) = 4
     | _ \<Rightarrow> True)"
proof (cases ev)
  case (Call taken e meth v)
  then show ?thesis using assms by (auto simp: nth_append)
next
  case (Begin j d)
  then show ?thesis using assms stage_begin [of "net s" d "calls s ! i"]
    by (cases "c_phase (calls s ! i)"; cases "j = i") (auto simp: stage_def split: if_splits)
next
  case (Handle j)
  then show ?thesis using assms calls_ok_nth [OF assms(2,3)]
    by (cases "c_phase (calls s ! i)"; cases "j = i"; cases "c_handler (calls s ! j)")
      (auto simp: stage_def handleReq_def go_bind_def hasRun_def split: if_splits sum.splits)
next
  case (Poll j)
  then show ?thesis using assms stage_poll [of "calls s ! i" "net s"] by (cases "j = i") (auto split: if_splits)
next
  case (Finish j d l)
  then show ?thesis using assms stage_finish [of "net s" d l "calls s ! i"] by (cases "j = i") (auto split: if_splits prod.splits)
next
  case (Fire j)
  then show ?thesis using assms stage_fire [of "net s" "calls s ! i"] by (cases "j = i") (auto split: if_splits prod.splits)
next
  case (Admin a)
  then show ?thesis using assms by (auto simp: go_bind_def split: sum.splits)
qed

lemma run_append: "net_run cd (evs1 @ evs2) s = go_bind (net_run cd evs1 s) (net_run cd evs2)"
proof (induction evs1 arbitrary: s)
  case (Cons ev evs1)
  then show ?case by (cases "net_exec cd ev s") simp_all
qed simp

lemma run_split:
  assumes "net_run cd (evs1 @ ev # evs2) s = Inr s'"
  obtains s1 s2 where "net_run cd evs1 s = Inr s1" "net_exec cd ev s1 = Inr s2" "net_run cd evs2 s2 = Inr s'"
  using assms that unfolding run_append by (auto simp: go_bind_def split: sum.splits)

lemma stage_run:
  "net_run cd evs s = Inr s' \<Longrightarrow> calls_ok s \<Longrightarrow> i < length (calls s) \<Longrightarrow> stage (calls s ! i) \<le> stage (calls s' ! i)"
proof (induction evs arbitrary: s)
  case (Cons ev evs)
  then obtain s1 where s1: "net_exec cd ev s = Inr s1" "net_run cd evs s1 = Inr s'" by (auto simp: go_bind_def split: sum.splits)
  have "stage (calls s1 ! i) \<le> stage (calls s' ! i)"
    using Cons.IH [OF s1(2) step_calls_ok [OF s1(1) Cons.prems(2)]] step_req [OF s1(1) Cons.prems(3)] by simp
  moreover have "stage (calls s ! i) \<le> stage (calls s1 ! i)" by (rule conjunct1 [OF stage_step [OF s1(1) Cons.prems(2,3)]])
  ultimately show ?case by simp
qed simp

lemma stage_split:
  assumes "net_run cd (evs1 @ ev # evs2) s = Inr s'" "calls_ok s" "i < length (calls s)"
  obtains s1 s2 where "net_exec cd ev s1 = Inr s2" "calls_ok s1" "i < length (calls s1)" "stage (calls s ! i) \<le> stage (calls s1 ! i)"
    "net_run cd evs2 s2 = Inr s'" "calls_ok s2" "i < length (calls s2)"
proof -
  obtain s1 s2 where r: "net_run cd evs1 s = Inr s1" "net_exec cd ev s1 = Inr s2" "net_run cd evs2 s2 = Inr s'" by (rule run_split [OF assms(1)])
  have ok1: "calls_ok s1" by (rule run_calls_ok [OF r(1) assms(2)])
  have l1: "i < length (calls s1)" using run_req [OF r(1) assms(3)] by simp
  from that [OF r(2) ok1 l1 stage_run [OF r(1) assms(2,3)] r(3) step_calls_ok [OF r(2) ok1]] show thesis
    using step_req [OF r(2) l1] by simp
qed

text \<open>C9: Every call ends. If its goroutines get their turns, in the order in which they wait for each other and with anything in between, losses, delays, deleted servers and other calls included, then the call ends with a
  reply or a failure, unless a handler panics. No caller waits forever for a network that is still running.\<close>

theorem rpc_call_ends:
  assumes "net_run cd evs0 s0 = Inr s" "calls s0 = []" "i < length (calls s)"
    "net_run cd (evs1 @ Begin i d # evs2 @ Handle i # evs3 @ Finish i d' l # evs4 @ Fire i # evs5) s = Inr s'"
  shows "\<exists>r. c_phase (calls s' ! i) = Done r"
proof -
  have ok: "calls_ok s" by (rule run_calls_ok [OF assms(1)]) (simp add: calls_ok_def assms(2))
  obtain s1 s2 where 1: "net_exec cd (Begin i d) s1 = Inr s2" "calls_ok s1" "i < length (calls s1)"
      "net_run cd (evs2 @ Handle i # evs3 @ Finish i d' l # evs4 @ Fire i # evs5) s2 = Inr s'" "calls_ok s2" "i < length (calls s2)"
    by (rule stage_split [OF assms(4) ok assms(3)])
  obtain s3 s4 where 2: "net_exec cd (Handle i) s3 = Inr s4" "calls_ok s3" "i < length (calls s3)" "stage (calls s2 ! i) \<le> stage (calls s3 ! i)"
      "net_run cd (evs3 @ Finish i d' l # evs4 @ Fire i # evs5) s4 = Inr s'" "calls_ok s4" "i < length (calls s4)"
    by (rule stage_split [OF 1(4-6)])
  obtain s5 s6 where 3: "net_exec cd (Finish i d' l) s5 = Inr s6" "calls_ok s5" "i < length (calls s5)" "stage (calls s4 ! i) \<le> stage (calls s5 ! i)"
      "net_run cd (evs4 @ Fire i # evs5) s6 = Inr s'" "calls_ok s6" "i < length (calls s6)"
    by (rule stage_split [OF 2(5-7)])
  obtain s7 s8 where 4: "net_exec cd (Fire i) s7 = Inr s8" "calls_ok s7" "i < length (calls s7)" "stage (calls s6 ! i) \<le> stage (calls s7 ! i)"
      "net_run cd evs5 s8 = Inr s'" "calls_ok s8" "i < length (calls s8)"
    by (rule stage_split [OF 3(5-7)])
  have "1 \<le> stage (calls s2 ! i)" using stage_step [OF 1(1-3)] by simp
  then have "2 \<le> stage (calls s4 ! i)" using stage_step [OF 2(1-3)] 2(4) by simp
  then have "3 \<le> stage (calls s6 ! i)" using stage_step [OF 3(1-3)] 3(4) by simp
  then have "stage (calls s8 ! i) = 4" using stage_step [OF 4(1-3)] 4(4) by simp
  then have "4 \<le> stage (calls s' ! i)" using stage_run [OF 4(5-7)] by simp
  then show ?thesis by (auto simp: stage_def split: phase.splits if_splits)
qed

section \<open>A reliable network delivers\<close>

lemma lastDot_split:
  assumes "CHR ''.'' \<notin> set m"
  shows "lastDot (svc @ CHR ''.'' # m) = int (length svc)"
proof -
  have "takeWhile (\<lambda>ch. ch \<noteq> CHR ''.'') (rev m @ CHR ''.'' # rev svc) = rev m"
    using assms by (induction m rule: rev_induct) auto
  then show ?thesis by (simp add: lastDot_def)
qed

lemma dispatch_found:
  assumes "CHR ''.'' \<notin> set m" "services rs svc = Some sv" "methods sv m = Some f" "decode cd (encode cd v) = Some v"
  shows "serverDispatch cd \<lparr>endname = e, svcMeth = svc @ CHR ''.'' # m, args = encode cd v\<rparr> rs st =
    Inr (\<lparr>ok = True, reply = encode cd (fst (f v st))\<rparr>, rs\<lparr>srv_count := srv_count rs + 1\<rparr>, snd (f v st))"
proof -
  have "slice_to (svc @ CHR ''.'' # m) (int (length svc)) = Inr svc" "slice_from (svc @ CHR ''.'' # m) (int (length svc) + 1) = Inr m"
    by (simp_all add: slice_to_def slice_from_def nat_add_distrib)
  then show ?thesis using assms
    by (simp add: serverDispatch_def Let_def lastDot_split serviceDispatch_def split: prod.split)
qed

text \<open>C10: Over a reliable network that is not administered meanwhile, a call to a connected and enabled end returns \<open>true\<close> with what the method returned, decoded; the method has been called once, with the argument of the
  call, found by splitting the name at its last dot. The server counts one call, the network one request and the bytes of both messages.\<close>

theorem rpc_delivers:
  assumes "\<And>x. decode cd (encode cd x) = Some x" "reliable (net s)" "\<not> longReordering (net s)" "\<not> net_done (net s)"
    "enabled (net s) e" "connections (net s) e = Some srv" "servers (net s) srv = Some n"
    "services (heap s n) svc = Some sv" "methods sv m = Some f" "CHR ''.'' \<notin> set m"
  shows "\<exists>s' r. net_run cd [Call taken e (svc @ CHR ''.'' # m) v, Begin (length (calls s)) d, Handle (length (calls s)), Finish (length (calls s)) d' l] s = Inr s' \<and>
    c_phase (calls s' ! length (calls s)) = Done r \<and> endCall cd r = Inr (Some (fst (f v (state s)))) \<and> state s' = snd (f v (state s)) \<and>
    serverGetCount (heap s' n) = serverGetCount (heap s n) + 1 \<and> net_count (net s') = net_count (net s) + 1 \<and>
    net_bytes (net s') = net_bytes (net s) + of_nat (length (encode cd v)) + of_nat (length (encode cd (fst (f v (state s)))))"
proof -
  have d: "serverDispatch cd \<lparr>endname = e, svcMeth = svc @ CHR ''.'' # m, args = encode cd v\<rparr> (heap s n) (state s) =
      Inr (\<lparr>ok = True, reply = encode cd (fst (f v (state s)))\<rparr>, (heap s n)\<lparr>srv_count := srv_count (heap s n) + 1\<rparr>, snd (f v (state s)))"
    by (rule dispatch_found [OF assms(10,8,9)]) (rule assms(1))
  show ?thesis using assms(2-7)
    by (simp add: startCall_def Let_def beginReq_def readEndnameInfo_def handleReq_def d finishReq_def isServerDead_def endCall_def assms(1) serverGetCount_def)
qed

section \<open>A small network\<close>

definition plainCodec :: "string codec" where
  "plainCodec = \<lparr>encode = id, decode = Some, zero = []\<rparr>"

definition echo :: "string \<Rightarrow> nat \<Rightarrow> string \<times> nat" where
  "echo v st = (v @ v, st + 1)"

definition sampleService :: "(string, nat) Service" where
  "sampleService = MakeService ''S'' [\<lparr>Name = ''Echo'', PkgPath = [], NumIn = 3, In2Ptr = True, NumOut = 0, Func = echo\<rparr>]"

definition sampleServer :: "(string, nat) Server" where
  "sampleServer = AddService sampleService MakeServer"

definition sampleSys :: "(nat, nat, string, nat) sys" where
  "sampleSys = \<lparr>net = Enable 1 True (Connect 1 7 (AddServer 7 0 MakeNetwork)), heap = (\<lambda>_. sampleServer), state = 40, calls = []\<rparr>"

lemmas sample_net = sampleSys_def sampleServer_def sampleService_def AddService_def MakeService_def MakeServer_def isHandler_def Enable_def Connect_def AddServer_def MakeNetwork_def

lemma sample_dispatch:
  "serverDispatch plainCodec \<lparr>endname = Suc 0, svcMeth = ''S.Echo'', args = ''ab''\<rparr> sampleServer 40 =
      Inr (\<lparr>ok = True, reply = ''abab''\<rparr>, sampleServer\<lparr>srv_count := srv_count sampleServer + 1\<rparr>, 41)"
  using dispatch_found [where m = "''Echo''" and rs = sampleServer and svc = "''S''" and sv = sampleService and f = echo and cd = plainCodec and v = "''ab''" and
        e = "Suc 0" and st = 40] by (simp add: sample_net plainCodec_def echo_def)

theorem rpc_delivers_witness:
  "\<exists>s' r. net_run plainCodec [Call False 1 ''S.Echo'' ''ab'', Begin 0 False, Handle 0, Finish 0 False False] sampleSys = Inr s' \<and>
     c_phase (calls s' ! 0) = Done r \<and> endCall plainCodec r = Inr (Some ''abab'') \<and> state s' = 41"
proof -
  have e: "''S.Echo'' = ''S'' @ CHR ''.'' # ''Echo''" by simp
  have l: "length (calls sampleSys) = 0" by (simp add: sampleSys_def)
  have sv: "services (heap sampleSys 0) ''S'' = Some sampleService"
    "methods sampleService ''Echo'' = Some echo"
    by (simp_all add: sample_net)
  show ?thesis unfolding e
    using rpc_delivers [where cd = plainCodec and taken = False and s = sampleSys and e = 1 and srv = 7 and v = "''ab''" and d = False and d' = False and l = False, OF _ _ _ _ _ _ _ sv] unfolding l
    by (auto simp: sample_net plainCodec_def echo_def)
qed

theorem rpc_at_most_once_witness:
  "\<exists>s. net_run plainCodec [Call False 1 ''S.Echo'' ''ab'', Begin 0 False, Handle 0, Handle 0, Admin (ADeleteServer 7), Finish 0 False False] sampleSys = Inr s \<and>
     c_phase (calls s ! 0) = Done failed \<and>
     executions plainCodec 0 [Call False 1 ''S.Echo'' ''ab'', Begin 0 False, Handle 0, Handle 0, Admin (ADeleteServer 7), Finish 0 False False] sampleSys = 1"
proof -
  let ?evs = "[Call False 1 ''S.Echo'' ''ab'', Begin 0 False, Handle 0, Handle 0, Admin (ADeleteServer 7), Finish 0 False False]"
  obtain s where s: "net_run plainCodec ?evs sampleSys = Inr s" "length (calls s) = 1" "c_phase (calls s ! 0) = Done failed" "hasRun (c_handler (calls s ! 0))"
    by (simp add: startCall_def Let_def sampleSys_def Enable_def Connect_def AddServer_def MakeNetwork_def beginReq_def readEndnameInfo_def handleReq_def sample_dispatch
      plainCodec_def [THEN arg_cong [of _ _ encode]] DeleteServer_def finishReq_def isServerDead_def hasRun_def)
  have "executions plainCodec 0 ?evs sampleSys = 1"
    using rpc_at_most_once [OF s(1), of 0] s(2,4) by (simp add: sampleSys_def)
  with s show ?thesis by blast
qed

theorem rpc_call_ends_witness:
  "\<exists>s' r. net_run plainCodec ([] @ Begin 0 False # [Admin (AReliable False)] @ Handle 0 # [Poll 0] @ Finish 0 False False # [] @ Fire 0 # [])
       (startCall plainCodec False 1 ''S.Echo'' ''ab'' sampleSys) = Inr s' \<and> c_phase (calls s' ! 0) = Done r"
proof -
  let ?s = "startCall plainCodec False 1 ''S.Echo'' ''ab'' sampleSys"
  have r: "net_run plainCodec [Call False 1 ''S.Echo'' ''ab''] sampleSys = Inr ?s" by simp
  have i: "0 < length (calls ?s)" by simp
  obtain s' where s': "net_run plainCodec ([] @ Begin 0 False # [Admin (AReliable False)] @ Handle 0 # [Poll 0] @ Finish 0 False False # [] @ Fire 0 # []) ?s = Inr s'"
    by (simp add: startCall_def Let_def sampleSys_def Enable_def Connect_def AddServer_def MakeNetwork_def beginReq_def readEndnameInfo_def handleReq_def
      sample_dispatch plainCodec_def [THEN arg_cong [of _ _ encode]] Reliable_def pollReq_def finishReq_def fireReq_def isServerDead_def)
  with rpc_call_ends [OF r _ i s'] show ?thesis by (simp add: sampleSys_def)
qed
end
