(* ===== verification/Raft_Harness.thy ===== *)
theory Raft_Harness
  imports Labrpc
begin

text \<open>
  What the test harness \<open>lab3/lab3/raft/config.go\<close> does to the network of \<open>labrpc\<close> and to the stored state of the peers, with \<open>lab3/lab3/raft/persister.go\<close>: starting, crashing, connecting and disconnecting servers.

  Persisters are compared by identity and shared with running peers, so they live in a heap; a running peer is known by the persister it was made with. The names of the ends of the network come from \<open>randstring\<close> and are
  arguments; a name that was used before stops the program in \<open>MakeEnd\<close>.
\<close>

section \<open>The persister\<close>

record Persister =
  raftstate :: string
  snapshot :: string

definition MakePersister :: Persister where
  "MakePersister = \<lparr>raftstate = [], snapshot = []\<rparr>"

definition clone :: "string \<Rightarrow> string" where
  "clone orig = take (length orig) orig"

definition Copy :: "Persister \<Rightarrow> Persister" where
  "Copy ps = MakePersister\<lparr>raftstate := raftstate ps, snapshot := snapshot ps\<rparr>"

definition SaveRaftState :: "string \<Rightarrow> Persister \<Rightarrow> Persister" where
  "SaveRaftState st ps = ps\<lparr>raftstate := clone st\<rparr>"

definition ReadRaftState :: "Persister \<Rightarrow> string" where
  "ReadRaftState ps = clone (raftstate ps)"

definition RaftStateSize :: "Persister \<Rightarrow> nat" where
  "RaftStateSize ps = length (raftstate ps)"

definition SaveStateAndSnapshot :: "string \<Rightarrow> string \<Rightarrow> Persister \<Rightarrow> Persister" where
  "SaveStateAndSnapshot st snap ps = ps\<lparr>raftstate := clone st, snapshot := clone snap\<rparr>"

definition ReadSnapshot :: "Persister \<Rightarrow> string" where
  "ReadSnapshot ps = clone (snapshot ps)"

definition SnapshotSize :: "Persister \<Rightarrow> nat" where
  "SnapshotSize ps = length (snapshot ps)"

lemma clone [simp]: "clone st = st"
  by (simp add: clone_def)

lemma persister_read [simp]:
  "ReadRaftState (SaveRaftState st ps) = st" "ReadSnapshot (SaveRaftState st ps) = ReadSnapshot ps"
  "ReadRaftState (SaveStateAndSnapshot st snap ps) = st" "ReadSnapshot (SaveStateAndSnapshot st snap ps) = snap"
  "Copy ps = ps" "SaveStateAndSnapshot (ReadRaftState ps) (ReadSnapshot ps) ps' = ps"
  by (simp_all add: ReadRaftState_def SaveRaftState_def ReadSnapshot_def SaveStateAndSnapshot_def Copy_def MakePersister_def)

section \<open>The harness\<close>

record harness =
  h_net :: "(string, nat) Network"
  h_n :: nat
  h_connected :: "bool list"
  endnames :: "string list option list"
  saved :: "nat option list"
  rafts :: "nat option list"            \<comment> \<open>the persister of the running peer\<close>
  persisters :: "nat \<Rightarrow> Persister"
  nextPersister :: nat
  nextServer :: nat

definition endName :: "harness \<Rightarrow> nat \<Rightarrow> nat \<Rightarrow> string go" where
  "endName h i j = (case endnames h ! i of None \<Rightarrow> Inl IndexOutOfRange | Some es \<Rightarrow> slice_index es (int j))"

fun enableAll :: "bool \<Rightarrow> (nat \<times> nat) list \<Rightarrow> harness \<Rightarrow> harness go" where
  "enableAll b [] h = Inr h"
| "enableAll b ((i, j) # ps) h = go_bind (endName h i j) (\<lambda>e. enableAll b ps (h\<lparr>h_net := Enable e b (h_net h)\<rparr>))"

text \<open>The index of a server is within the number of servers wherever the harness uses it.\<close>

definition connect :: "nat \<Rightarrow> harness \<Rightarrow> harness go" where
  "connect i h =
     (let h = h\<lparr>h_connected := (h_connected h)[i := True]\<rparr>; js = filter (\<lambda>j. h_connected h ! j) [0 ..< h_n h]
      in go_bind (enableAll True (map (\<lambda>j. (i, j)) js) h) (enableAll True (map (\<lambda>j. (j, i)) js)))"

definition disconnect :: "nat \<Rightarrow> harness \<Rightarrow> harness go" where
  "disconnect i h =
     (let h = h\<lparr>h_connected := (h_connected h)[i := False]\<rparr>
      in go_bind (enableAll False (map (\<lambda>j. (i, j)) (filter (\<lambda>j. endnames h ! i \<noteq> None) [0 ..< h_n h])) h)
           (enableAll False (map (\<lambda>j. (j, i)) (filter (\<lambda>j. endnames h ! j \<noteq> None) [0 ..< h_n h]))))"

text \<open>\<open>cfg.saved[i] = p\<close> for a new persister with the content \<open>p\<close>.\<close>

definition saveNew :: "nat \<Rightarrow> Persister \<Rightarrow> harness \<Rightarrow> harness" where
  "saveNew i p h = h\<lparr>saved := (saved h)[i := Some (nextPersister h)], persisters := (persisters h)(nextPersister h := p), nextPersister := nextPersister h + 1\<rparr>"

definition crash1 :: "nat \<Rightarrow> harness \<Rightarrow> harness go" where
  "crash1 i h =
     go_bind (disconnect i h) (\<lambda>h.
     let h = h\<lparr>h_net := DeleteServer i (h_net h)\<rparr>;
         h = (case saved h ! i of None \<Rightarrow> h | Some r \<Rightarrow> saveNew i (Copy (persisters h r)) h);
         h = h\<lparr>rafts := (rafts h)[i := None]\<rparr>;
         h = (case saved h ! i of
                None \<Rightarrow> h
              | Some r \<Rightarrow> saveNew i (SaveStateAndSnapshot (ReadRaftState (persisters h r)) (ReadSnapshot (persisters h r)) MakePersister) h)
     in Inr h)"

fun makeEnds :: "(nat \<times> string) list \<Rightarrow> harness \<Rightarrow> harness go" where
  "makeEnds [] h = Inr h"
| "makeEnds ((j, name) # rest) h = go_bind (MakeEnd name (h_net h)) (\<lambda>rn. makeEnds rest (h\<lparr>h_net := Connect name j rn\<rparr>))"

definition start1 :: "nat \<Rightarrow> string list \<Rightarrow> harness \<Rightarrow> harness go" where
  "start1 i names h =
     go_bind (crash1 i h) (\<lambda>h.
     go_bind (makeEnds (zip [0 ..< h_n h] names) (h\<lparr>endnames := (endnames h)[i := Some names]\<rparr>)) (\<lambda>h.
     let h = (case saved h ! i of Some r \<Rightarrow> saveNew i (Copy (persisters h r)) h | None \<Rightarrow> saveNew i MakePersister h);
         h = h\<lparr>rafts := (rafts h)[i := saved h ! i]\<rparr>
     in Inr (h\<lparr>h_net := AddServer i (nextServer h) (h_net h), nextServer := nextServer h + 1\<rparr>)))"

definition emptyConfig :: "nat \<Rightarrow> bool \<Rightarrow> harness" where
  "emptyConfig n unreliable =
     \<lparr>h_net = LongDelays True (Reliable (\<not> unreliable) MakeNetwork), h_n = n, h_connected = replicate n False, endnames = replicate n None,
      saved = replicate n None, rafts = replicate n None, persisters = (\<lambda>_. MakePersister), nextPersister = 0, nextServer = 0\<rparr>"

fun startAll :: "(nat \<times> string list) list \<Rightarrow> harness \<Rightarrow> harness go" where
  "startAll [] h = Inr h"
| "startAll ((i, names) # rest) h = go_bind (start1 i names h) (startAll rest)"

fun connectAll :: "nat list \<Rightarrow> harness \<Rightarrow> harness go" where
  "connectAll [] h = Inr h"
| "connectAll (i # rest) h = go_bind (connect i h) (connectAll rest)"

definition make_config :: "nat \<Rightarrow> bool \<Rightarrow> string list list \<Rightarrow> harness go" where
  "make_config n unreliable names =
     go_bind (startAll (zip [0 ..< n] names) (emptyConfig n unreliable)) (connectAll [0 ..< n])"

definition cleanup :: "harness \<Rightarrow> harness go" where
  "cleanup h = go_bind (Cleanup (h_net h)) (\<lambda>rn. Inr (h\<lparr>h_net := rn\<rparr>))"

definition setunreliable :: "bool \<Rightarrow> harness \<Rightarrow> harness" where
  "setunreliable unrel h = h\<lparr>h_net := Reliable (\<not> unrel) (h_net h)\<rparr>"

definition setlongreordering :: "bool \<Rightarrow> harness \<Rightarrow> harness" where
  "setlongreordering longrel h = h\<lparr>h_net := LongReordering longrel (h_net h)\<rparr>"

definition rpcCount :: "nat \<Rightarrow> (nat \<Rightarrow> ('v, 'st) Server) \<Rightarrow> harness \<Rightarrow> int go" where
  "rpcCount server hp h = GetCount server hp (h_net h)"

definition rpcTotal :: "harness \<Rightarrow> int" where
  "rpcTotal h = GetTotalCount (h_net h)"

definition bytesTotal :: "harness \<Rightarrow> int" where
  "bytesTotal h = GetTotalBytes (h_net h)"

definition LogSize :: "harness \<Rightarrow> nat go" where
  "LogSize h =
     foldl (\<lambda>acc i. go_bind acc (\<lambda>logsize.
       case saved h ! i of
         None \<Rightarrow> Inl NilDereference
       | Some r \<Rightarrow> let n = RaftStateSize (persisters h r) in Inr (if n > logsize then n else logsize))) (Inr 0) [0 ..< h_n h]"

text \<open>A running peer stores its state: it writes to the persister it was made with.\<close>

definition peerPersists :: "nat \<Rightarrow> string \<Rightarrow> harness \<Rightarrow> harness" where
  "peerPersists r st h = h\<lparr>persisters := (persisters h)(r := SaveRaftState st (persisters h r))\<rparr>"

section \<open>Who can talk to whom\<close>

definition named :: "harness \<Rightarrow> (nat \<times> nat) list \<Rightarrow> string set" where
  "named h ps = {e. \<exists>(i, j) \<in> set ps. endName h i j = Inr e}"

lemma endName_net [simp]: "endName (h\<lparr>h_net := rn\<rparr>) = endName h" "endName (h\<lparr>h_connected := cs\<rparr>) = endName h"
  by (intro ext; simp add: endName_def)+

lemma named_net [simp]: "named (h\<lparr>h_net := rn\<rparr>) = named h" "named (h\<lparr>h_connected := cs\<rparr>) = named h"
  by (intro ext; simp add: named_def)+

lemma enableAll_effect:
  "enableAll b ps h = Inr h' \<Longrightarrow>
     h' = h\<lparr>h_net := (h_net h)\<lparr>enabled := (\<lambda>e. if e \<in> named h ps then b else enabled (h_net h) e)\<rparr>\<rparr> \<and> (\<forall>(i, j) \<in> set ps. \<not> isl (endName h i j))"
proof (induction b ps h rule: enableAll.induct)
  case (1 b h)
  then show ?case by (simp add: named_def)
next
  case (2 b i j ps h)
  then obtain e where e: "endName h i j = Inr e" "enableAll b ps (h\<lparr>h_net := Enable e b (h_net h)\<rparr>) = Inr h'" by (auto simp: go_bind_def split: sum.splits)
  have "named h ((i, j) # ps) = insert e (named h ps)" using e(1) by (auto simp: named_def)
  with "2.IH" [OF e(2)] e(1) show ?case by (auto simp: Enable_def fun_eq_iff)
qed

text \<open>The invariant: names are unique and known to the network, and an end is enabled exactly if it is the current end between two connected servers.\<close>

definition unique_names :: "harness \<Rightarrow> bool" where
  "unique_names h \<longleftrightarrow> (\<forall>i < h_n h. \<forall>j < h_n h. \<forall>i' < h_n h. \<forall>j' < h_n h. \<forall>e. endName h i j = Inr e \<longrightarrow> endName h i' j' = Inr e \<longrightarrow> i = i' \<and> j = j')"

definition wired :: "harness \<Rightarrow> bool" where
  "wired h \<longleftrightarrow> (\<forall>e. enabled (h_net h) e \<longleftrightarrow> (\<exists>i < h_n h. \<exists>j < h_n h. endName h i j = Inr e \<and> h_connected h ! i \<and> h_connected h ! j))"

definition ends_ok :: "harness \<Rightarrow> bool" where
  "ends_ok h \<longleftrightarrow> (\<forall>i < h_n h. \<forall>es. endnames h ! i = Some es \<longrightarrow> length es = h_n h \<and> set es \<subseteq> set (ends (h_net h))) \<and>
     (\<forall>i < h_n h. \<forall>j < h_n h. \<forall>e. endName h i j = Inr e \<longrightarrow> connections (h_net h) e = Some j)"

definition hinv :: "harness \<Rightarrow> bool" where
  "hinv h \<longleftrightarrow> length (h_connected h) = h_n h \<and> length (endnames h) = h_n h \<and> length (saved h) = h_n h \<and> length (rafts h) = h_n h \<and>
     unique_names h \<and> wired h \<and> ends_ok h"

lemma endName_known: "ends_ok h \<Longrightarrow> i < h_n h \<Longrightarrow> endName h i j = Inr e \<Longrightarrow> e \<in> set (ends (h_net h))"
  by (fastforce simp: endName_def ends_ok_def slice_index_def split: option.splits if_splits)

lemma connect_inv:
  assumes "connect i h = Inr h'" "hinv h" "i < h_n h"
  shows "hinv h'"
proof -
  let ?h = "h\<lparr>h_connected := (h_connected h)[i := True]\<rparr>"
  let ?js = "filter (\<lambda>j. h_connected ?h ! j) [0 ..< h_n h]"
  obtain h1 where 1: "enableAll True (map (\<lambda>j. (i, j)) ?js) ?h = Inr h1" "enableAll True (map (\<lambda>j. (j, i)) ?js) h1 = Inr h'"
    using assms(1) by (auto simp: connect_def Let_def go_bind_def split: sum.splits)
  let ?N = "named h (map (\<lambda>j. (i, j)) ?js) \<union> named h (map (\<lambda>j. (j, i)) ?js)"
  have h': "h' = ?h\<lparr>h_net := (h_net h)\<lparr>enabled := (\<lambda>e. if e \<in> ?N then True else enabled (h_net h) e)\<rparr>\<rparr>"
    using enableAll_effect [OF 1(1)] enableAll_effect [OF 1(2)] by (auto simp: fun_eq_iff)
  have c: "h_connected ?h ! a \<longleftrightarrow> a = i \<or> h_connected h ! a" if "a < h_n h" for a
    using that assms(2) by (cases "a = i") (auto simp: hinv_def)
  have N: "e \<in> ?N \<longleftrightarrow> (\<exists>a < h_n h. \<exists>b < h_n h. endName h a b = Inr e \<and> h_connected ?h ! a \<and> h_connected ?h ! b \<and> (a = i \<or> b = i))" for e
    using assms(3) c [OF assms(3)] by (auto simp: named_def)
  have "enabled (h_net h') e \<longleftrightarrow> (\<exists>a < h_n h. \<exists>b < h_n h. endName h a b = Inr e \<and> h_connected ?h ! a \<and> h_connected ?h ! b)" for e
  proof -
    have "enabled (h_net h') e \<longleftrightarrow> e \<in> ?N \<or> (\<exists>a < h_n h. \<exists>b < h_n h. endName h a b = Inr e \<and> h_connected h ! a \<and> h_connected h ! b)"
      using assms(2) by (simp add: h' hinv_def wired_def)
    then show ?thesis unfolding N using c by blast
  qed
  then show ?thesis using assms(2) by (simp add: hinv_def wired_def unique_names_def ends_ok_def h')
qed

lemma disconnect_inv:
  assumes "disconnect i h = Inr h'" "hinv h" "i < h_n h"
  shows "hinv h'" "\<not> h_connected h' ! i" "h' = h\<lparr>h_connected := h_connected h', h_net := h_net h'\<rparr>" "ends (h_net h') = ends (h_net h)"
proof -
  let ?h = "h\<lparr>h_connected := (h_connected h)[i := False]\<rparr>"
  let ?out = "map (\<lambda>j. (i, j)) (filter (\<lambda>j. endnames h ! i \<noteq> None) [0 ..< h_n h])" let ?in = "map (\<lambda>j. (j, i)) (filter (\<lambda>j. endnames h ! j \<noteq> None) [0 ..< h_n h])"
  obtain h1 where 1: "enableAll False ?out ?h = Inr h1" "enableAll False ?in h1 = Inr h'"
    using assms(1) by (auto simp: disconnect_def Let_def go_bind_def split: sum.splits)
  let ?N = "named h ?out \<union> named h ?in"
  have h': "h' = ?h\<lparr>h_net := (h_net h)\<lparr>enabled := (\<lambda>e. if e \<in> ?N then False else enabled (h_net h) e)\<rparr>\<rparr>"
    using enableAll_effect [OF 1(1)] enableAll_effect [OF 1(2)] by (auto simp: fun_eq_iff)
  have c: "h_connected ?h ! a \<longleftrightarrow> a \<noteq> i \<and> h_connected h ! a" if "a < h_n h" for a
    using that assms(2) by (cases "a = i") (auto simp: hinv_def)
  have some: "endnames h ! a \<noteq> None" if "endName h a b = Inr e" for a b e using that by (auto simp: endName_def split: option.splits)
  have N: "e \<in> ?N \<longleftrightarrow> (\<exists>a < h_n h. \<exists>b < h_n h. endName h a b = Inr e \<and> (a = i \<or> b = i))" for e
    using assms(3) some by (auto simp: named_def)
  have "enabled (h_net h') e \<longleftrightarrow> (\<exists>a < h_n h. \<exists>b < h_n h. endName h a b = Inr e \<and> h_connected ?h ! a \<and> h_connected ?h ! b)" for e
  proof -
    have w: "enabled (h_net h') e \<longleftrightarrow> e \<notin> ?N \<and> (\<exists>a < h_n h. \<exists>b < h_n h. endName h a b = Inr e \<and> h_connected h ! a \<and> h_connected h ! b)"
      using assms(2) by (simp add: h' hinv_def wired_def)
    have u: "a = a' \<and> b = b'" if "a < h_n h" "b < h_n h" "a' < h_n h" "b' < h_n h" "endName h a b = Inr e" "endName h a' b' = Inr e" for a b a' b'
      using that assms(2) by (simp add: hinv_def unique_names_def)
    show ?thesis unfolding w N using c u by blast
  qed
  then show "hinv h'" using assms(2) by (simp add: hinv_def wired_def unique_names_def ends_ok_def h')
  show "\<not> h_connected h' ! i" using c [OF assms(3)] by (simp add: h')
  show "h' = h\<lparr>h_connected := h_connected h', h_net := h_net h'\<rparr>" "ends (h_net h') = ends (h_net h)" by (simp_all add: h')
qed

lemma hinv_cong:
  assumes "hinv h" "h_n h' = h_n h" "h_connected h' = h_connected h" "endnames h' = endnames h" "length (saved h') = length (saved h)" "length (rafts h') = length (rafts h)"
    "enabled (h_net h') = enabled (h_net h)" "connections (h_net h') = connections (h_net h)" "ends (h_net h') = ends (h_net h)"
  shows "hinv h'"
  using assms by (simp add: hinv_def unique_names_def wired_def ends_ok_def endName_def)

lemma saveNew_simps [simp]:
  "h_n (saveNew i p h) = h_n h" "h_connected (saveNew i p h) = h_connected h" "endnames (saveNew i p h) = endnames h" "rafts (saveNew i p h) = rafts h"
  "h_net (saveNew i p h) = h_net h" "length (saved (saveNew i p h)) = length (saved h)" "nextServer (saveNew i p h) = nextServer h"
  "saved (saveNew i p h) = (saved h)[i := Some (nextPersister h)]" "persisters (saveNew i p h) = (persisters h)(nextPersister h := p)"
  "nextPersister (saveNew i p h) = nextPersister h + 1"
  by (simp_all add: saveNew_def)

lemma crash1_inv:
  assumes "crash1 i h = Inr h'" "hinv h" "i < h_n h"
  shows "hinv h'" "\<not> h_connected h' ! i" "ends (h_net h') = ends (h_net h)" "h_n h' = h_n h"
proof -
  obtain h1 where 1: "disconnect i h = Inr h1" using assms(1) by (auto simp: crash1_def go_bind_def split: sum.splits)
  note d = disconnect_inv [OF 1 assms(2,3)]
  have n: "h_n h1 = h_n h" using d(3) by (metis harness.select_convs(2) harness.surjective harness.update_convs(1,3))
  have h': "h' = (let h2 = h1\<lparr>h_net := DeleteServer i (h_net h1)\<rparr>;
      h3 = (case saved h2 ! i of None \<Rightarrow> h2 | Some r \<Rightarrow> saveNew i (Copy (persisters h2 r)) h2); h4 = h3\<lparr>rafts := (rafts h3)[i := None]\<rparr>
      in (case saved h4 ! i of None \<Rightarrow> h4
        | Some r \<Rightarrow> saveNew i (SaveStateAndSnapshot (ReadRaftState (persisters h4 r)) (ReadSnapshot (persisters h4 r)) MakePersister) h4))"
    using assms(1) 1 by (simp add: crash1_def Let_def)
  show "hinv h'" by (rule hinv_cong [OF d(1)]) (simp_all add: h' Let_def DeleteServer_def split: option.split)
  show "\<not> h_connected h' ! i" "ends (h_net h') = ends (h_net h)" "h_n h' = h_n h"
    using d(2,4) n by (simp_all add: h' Let_def DeleteServer_def split: option.split)
qed

lemma makeEnds_effect:
  "makeEnds prs h = Inr h' \<Longrightarrow>
     distinct (map snd prs) \<and> set (map snd prs) \<inter> set (ends (h_net h)) = {} \<and> h' = h\<lparr>h_net := h_net h'\<rparr> \<and>
     set (ends (h_net h')) = set (map snd prs) \<union> set (ends (h_net h)) \<and>
     (\<forall>e. enabled (h_net h') e \<longleftrightarrow> enabled (h_net h) e \<and> e \<notin> set (map snd prs)) \<and>
     (\<forall>e. e \<notin> set (map snd prs) \<longrightarrow> connections (h_net h') e = connections (h_net h) e) \<and>
     (\<forall>(j, e) \<in> set prs. connections (h_net h') e = Some j)"
proof (induction prs h rule: makeEnds.induct)
  case (2 j name rest h)
  then obtain rn where rn: "MakeEnd name (h_net h) = Inr rn" "makeEnds rest (h\<lparr>h_net := Connect name j rn\<rparr>) = Inr h'"
    by (auto simp: go_bind_def split: sum.splits)
  let ?h = "h\<lparr>h_net := Connect name j rn\<rparr>"
  have m: "name \<notin> set (ends (h_net h))" "ends (h_net ?h) = name # ends (h_net h)" "enabled (h_net ?h) = (enabled (h_net h))(name := False)"
      "connections (h_net ?h) = (connections (h_net h))(name := Some j)"
    using rn(1) by (auto simp: MakeEnd_def Connect_def split: if_splits)
  from "2.IH" [OF rn(2)] have IH: "distinct (map snd rest)" "set (map snd rest) \<inter> set (ends (h_net ?h)) = {}" "h' = ?h\<lparr>h_net := h_net h'\<rparr>"
      "set (ends (h_net h')) = set (map snd rest) \<union> set (ends (h_net ?h))"
      "\<forall>e. enabled (h_net h') e \<longleftrightarrow> enabled (h_net ?h) e \<and> e \<notin> set (map snd rest)"
      "\<forall>e. e \<notin> set (map snd rest) \<longrightarrow> connections (h_net h') e = connections (h_net ?h) e"
      "\<forall>(j, e) \<in> set rest. connections (h_net h') e = Some j" by blast+
  have nm: "name \<notin> set (map snd rest)" using IH(2) m(2) by auto
  show ?case
  proof (intro conjI)
    show "distinct (map snd ((j, name) # rest))" using IH(1) nm by simp
    show "set (map snd ((j, name) # rest)) \<inter> set (ends (h_net h)) = {}" using IH(2) m(1,2) by auto
    show "h' = h\<lparr>h_net := h_net h'\<rparr>" using IH(3) by simp
    show "set (ends (h_net h')) = set (map snd ((j, name) # rest)) \<union> set (ends (h_net h))" using IH(4) m(2) by auto
    show "\<forall>e. enabled (h_net h') e \<longleftrightarrow> enabled (h_net h) e \<and> e \<notin> set (map snd ((j, name) # rest))" using IH(5) m(3) by auto
    show "\<forall>e. e \<notin> set (map snd ((j, name) # rest)) \<longrightarrow> connections (h_net h') e = connections (h_net h) e" using IH(6) m(4) by auto
    show "\<forall>(j', e) \<in> set ((j, name) # rest). connections (h_net h') e = Some j'" using IH(6,7) m(4) nm by auto
  qed
qed simp

text \<open>What the ends of server \<open>i\<close> are after they have been made anew.\<close>

lemma renewed:
  assumes "makeEnds (zip [0 ..< h_n h] names) (h\<lparr>endnames := (endnames h)[i := Some names]\<rparr>) = Inr h2" "hinv h" "i < h_n h" "length names = h_n h"
  shows "distinct names" "set (ends (h_net h2)) = set names \<union> set (ends (h_net h))" "\<And>e. enabled (h_net h2) e \<longleftrightarrow> enabled (h_net h) e \<and> e \<notin> set names"
    "\<And>e. e \<notin> set names \<Longrightarrow> connections (h_net h2) e = connections (h_net h) e" "\<And>j. j < h_n h \<Longrightarrow> connections (h_net h2) (names ! j) = Some j"
    "h2 = h\<lparr>endnames := (endnames h)[i := Some names], h_net := h_net h2\<rparr>" "\<And>j. j < h_n h \<Longrightarrow> endName h2 i j = Inr (names ! j)"
    "\<And>a b. a \<noteq> i \<Longrightarrow> endName h2 a b = endName h a b" "\<And>a b e. endName h a b = Inr e \<Longrightarrow> a < h_n h \<Longrightarrow> e \<notin> set names"
proof -
  have snds: "map snd (zip [0 ..< h_n h] names) = names" using assms(4) by simp
  note m = makeEnds_effect [OF assms(1), unfolded snds]
  show "distinct names" "set (ends (h_net h2)) = set names \<union> set (ends (h_net h))" using m by simp_all
  show "enabled (h_net h2) e \<longleftrightarrow> enabled (h_net h) e \<and> e \<notin> set names" for e using m by simp
  show "connections (h_net h2) e = connections (h_net h) e" if "e \<notin> set names" for e using m that by simp
  show "connections (h_net h2) (names ! j) = Some j" if "j < h_n h" for j
  proof -
    have "(j, names ! j) \<in> set (zip [0 ..< h_n h] names)" using that assms(4) by (auto simp: in_set_zip intro!: exI [of _ j])
    then show ?thesis using m by blast
  qed
  show h2: "h2 = h\<lparr>endnames := (endnames h)[i := Some names], h_net := h_net h2\<rparr>" using m by simp
  have en: "endnames h2 = (endnames h)[i := Some names]" by (subst h2) simp
  show "endName h2 i j = Inr (names ! j)" if "j < h_n h" for j
    using that assms(2-4) by (simp add: endName_def en slice_index_def hinv_def)
  show "endName h2 a b = endName h a b" if "a \<noteq> i" for a b using that by (simp add: endName_def en)
  show "e \<notin> set names" if "endName h a b = Inr e" "a < h_n h" for a b e
    using endName_known [of h a b e] that assms(2) m by (auto simp: hinv_def)
qed

lemma renewed_unique:
  assumes "makeEnds (zip [0 ..< h_n h] names) (h\<lparr>endnames := (endnames h)[i := Some names]\<rparr>) = Inr h2" "hinv h" "i < h_n h" "length names = h_n h"
    "a < h_n h" "b < h_n h" "a' < h_n h" "b' < h_n h" "endName h2 a b = Inr e" "endName h2 a' b' = Inr e"
  shows "a = a' \<and> b = b'"
proof -
  note r = renewed [OF assms(1-4)]
  have i_iff: "c = i \<longleftrightarrow> e \<in> set names" if "c < h_n h" "d < h_n h" "endName h2 c d = Inr e" for c d
  proof (cases "c = i")
    case True
    then have "e = names ! d" using r(7) [OF that(2)] that(3) by simp
    then show ?thesis using True that(2) assms(4) by simp
  next
    case False
    then have "endName h c d = Inr e" using r(8) that(3) by simp
    from r(9) [OF this that(1)] show ?thesis using False by simp
  qed
  show ?thesis
  proof (cases "a = i")
    case True
    then have "a' = i" using i_iff [OF assms(5,6,9)] i_iff [OF assms(7,8,10)] by simp
    then have "names ! b = names ! b'" using True r(7) [OF assms(6)] r(7) [OF assms(8)] assms(9,10) by simp
    then show ?thesis using True \<open>a' = i\<close> r(1) assms(4,6,8) by (simp add: nth_eq_iff_index_eq)
  next
    case False
    then have "a' \<noteq> i" using i_iff [OF assms(5,6,9)] i_iff [OF assms(7,8,10)] by simp
    then show ?thesis using False r(8) assms(2,5-10) by (simp add: hinv_def unique_names_def)
  qed
qed

lemma renewed_inv:
  assumes "makeEnds (zip [0 ..< h_n h] names) (h\<lparr>endnames := (endnames h)[i := Some names]\<rparr>) = Inr h2" "hinv h" "i < h_n h" "length names = h_n h"
    "\<not> h_connected h ! i"
  shows "hinv h2" "h_n h2 = h_n h" "saved h2 = saved h" "persisters h2 = persisters h" "nextPersister h2 = nextPersister h"
proof -
  note r = renewed [OF assms(1-4)]
  have s2: "h_n h2 = h_n h" "h_connected h2 = h_connected h" "endnames h2 = (endnames h)[i := Some names]" "saved h2 = saved h" "rafts h2 = rafts h"
      "persisters h2 = persisters h" "nextPersister h2 = nextPersister h"
    by (subst r(6), simp)+
  have "wired h2"
    unfolding wired_def s2
  proof
    fix e
    have "enabled (h_net h2) e \<longleftrightarrow> (\<exists>a < h_n h. \<exists>b < h_n h. endName h a b = Inr e \<and> h_connected h ! a \<and> h_connected h ! b) \<and> e \<notin> set names"
      using r(3) assms(2) by (simp add: hinv_def wired_def)
    also have "\<dots> \<longleftrightarrow> (\<exists>a < h_n h. \<exists>b < h_n h. endName h a b = Inr e \<and> h_connected h ! a \<and> h_connected h ! b)" using r(9) by blast
    also have "\<dots> \<longleftrightarrow> (\<exists>a < h_n h. \<exists>b < h_n h. endName h2 a b = Inr e \<and> h_connected h ! a \<and> h_connected h ! b)"
    proof -
      have "endName h2 a b = endName h a b" if "h_connected h ! a" for a b using r(8) that assms(5) by (cases "a = i") auto
      then have "(endName h a b = Inr e \<and> h_connected h ! a \<and> h_connected h ! b) = (endName h2 a b = Inr e \<and> h_connected h ! a \<and> h_connected h ! b)" for a b
        by (cases "h_connected h ! a") simp_all
      then show ?thesis by simp
    qed
    finally show "enabled (h_net h2) e \<longleftrightarrow> (\<exists>a < h_n h. \<exists>b < h_n h. endName h2 a b = Inr e \<and> h_connected h ! a \<and> h_connected h ! b)" .
  qed
  moreover have "connections (h_net h2) e = Some b" if "a < h_n h" "b < h_n h" "endName h2 a b = Inr e" for a b e
  proof (cases "a = i")
    case True
    then have "e = names ! b" using r(7) [OF that(2)] that(3) by simp
    then show ?thesis using r(5) [OF that(2)] by simp
  next
    case False
    then have e: "endName h a b = Inr e" using r(8) that by simp
    show ?thesis using r(4) [OF r(9) [OF e that(1)]] e that assms(2) by (simp add: hinv_def ends_ok_def)
  qed
  moreover have "length es = h_n h \<and> set es \<subseteq> set (ends (h_net h2))" if "a < h_n h" "(endnames h)[i := Some names] ! a = Some es" for a es
  proof (cases "a = i")
    case True
    then have "es = names" using that assms(2) by (simp add: hinv_def)
    then show ?thesis using r(2) assms(4) by simp
  next
    case False
    then show ?thesis using that assms(2) r(2) by (auto simp: hinv_def ends_ok_def)
  qed
  moreover have "unique_names h2" using renewed_unique [OF assms(1-4)] unfolding unique_names_def s2 by blast
  ultimately show "hinv h2" using assms(2) by (simp add: hinv_def ends_ok_def s2)
  show "h_n h2 = h_n h" "saved h2 = saved h" "persisters h2 = persisters h" "nextPersister h2 = nextPersister h" by (fact s2)+
qed

lemma start1_inv:
  assumes "start1 i names h = Inr h'" "hinv h" "i < h_n h" "length names = h_n h"
  shows "hinv h'" "h_n h' = h_n h"
proof -
  obtain h1 where 1: "crash1 i h = Inr h1" using assms(1) by (cases "crash1 i h") (simp_all add: start1_def)
  note c = crash1_inv [OF 1 assms(2,3)]
  let ?m = "makeEnds (zip [0 ..< h_n h1] names) (h1\<lparr>endnames := (endnames h1)[i := Some names]\<rparr>)"
  obtain h2 where 2: "?m = Inr h2" using assms(1) 1 by (cases ?m) (simp_all add: start1_def)
  have r: "hinv h2" "h_n h2 = h_n h" using renewed_inv [OF 2 c(1)] assms(3,4) c(2,4) by simp_all
  have h': "h' = (let h3 = (case saved h2 ! i of Some r \<Rightarrow> saveNew i (Copy (persisters h2 r)) h2 | None \<Rightarrow> saveNew i MakePersister h2);
      h4 = h3\<lparr>rafts := (rafts h3)[i := saved h3 ! i]\<rparr> in h4\<lparr>h_net := AddServer i (nextServer h4) (h_net h4), nextServer := nextServer h4 + 1\<rparr>)"
    using assms(1) 1 2 by (simp add: start1_def Let_def)
  show "hinv h'" by (rule hinv_cong [OF r(1)]) (simp_all add: h' Let_def AddServer_def split: option.split)
  show "h_n h' = h_n h" by (simp add: h' Let_def r(2) split: option.split)
qed


section \<open>Runs of the harness\<close>

text \<open>
  What a test does, in any order, with the writes of the peers in between. The second part of the state lists the persisters given to \<open>Make\<close> so far, one for each peer that was ever made: a peer that was crashed goes on running and
  may still write to its own.
\<close>

datatype hop =
    HConnect nat
  | HDisconnect nat
  | HCrash nat
  | HStart nat "string list"
  | HWrite nat string

fun hop_exec :: "hop \<Rightarrow> harness \<times> nat list \<Rightarrow> (harness \<times> nat list) go" where
  "hop_exec (HConnect i) (h, ins) = go_bind (connect i h) (\<lambda>h. Inr (h, ins))"
| "hop_exec (HDisconnect i) (h, ins) = go_bind (disconnect i h) (\<lambda>h. Inr (h, ins))"
| "hop_exec (HCrash i) (h, ins) = go_bind (crash1 i h) (\<lambda>h. Inr (h, ins))"
| "hop_exec (HStart i names) (h, ins) = go_bind (start1 i names h) (\<lambda>h. Inr (h, case rafts h ! i of Some r \<Rightarrow> ins @ [r] | None \<Rightarrow> ins))"
| "hop_exec (HWrite k st) (h, ins) = Inr (if k < length ins then peerPersists (ins ! k) st h else h, ins)"

fun hop_run :: "hop list \<Rightarrow> harness \<times> nat list \<Rightarrow> (harness \<times> nat list) go" where
  "hop_run [] s = Inr s"
| "hop_run (p # ps) s = go_bind (hop_exec p s) (hop_run ps)"

fun hop_ok :: "nat \<Rightarrow> hop \<Rightarrow> bool" where
  "hop_ok n (HConnect i) \<longleftrightarrow> i < n"
| "hop_ok n (HDisconnect i) \<longleftrightarrow> i < n"
| "hop_ok n (HCrash i) \<longleftrightarrow> i < n"
| "hop_ok n (HStart i names) \<longleftrightarrow> i < n \<and> length names = n"
| "hop_ok n (HWrite k st) \<longleftrightarrow> True"

lemma hop_run_append: "hop_run (ps @ qs) s = go_bind (hop_run ps s) (hop_run qs)"
  by (induction ps arbitrary: s) (auto simp: go_bind_def split: sum.split)

text \<open>\<open>make_config\<close> is such a run.\<close>

lemma startAll_run:
  "startAll prs h = Inr h' \<Longrightarrow> \<exists>ins'. hop_run (map (\<lambda>(i, names). HStart i names) prs) (h, ins) = Inr (h', ins')"
proof (induction prs h arbitrary: ins rule: startAll.induct)
  case (2 i names rest h)
  then obtain h1 where 1: "start1 i names h = Inr h1" "startAll rest h1 = Inr h'" by (auto simp: go_bind_def split: sum.splits)
  from "2.IH" [OF 1(2)] 1(1) show ?case by simp
qed simp

lemma connectAll_run: "connectAll is h = Inr h' \<Longrightarrow> hop_run (map HConnect is) (h, ins) = Inr (h', ins)"
proof (induction "is" h rule: connectAll.induct)
  case (2 i rest h)
  then obtain h1 where 1: "connect i h = Inr h1" "connectAll rest h1 = Inr h'" by (auto simp: go_bind_def split: sum.splits)
  from "2.IH" [OF 1(2)] 1(1) show ?case by simp
qed simp

lemma make_config_run:
  assumes "make_config n u names = Inr h"
  shows "\<exists>ins. hop_run (map (\<lambda>(i, names). HStart i names) (zip [0 ..< n] names) @ map HConnect [0 ..< n]) (emptyConfig n u, []) = Inr (h, ins)"
proof -
  obtain h1 where 1: "startAll (zip [0 ..< n] names) (emptyConfig n u) = Inr h1" "connectAll [0 ..< n] h1 = Inr h"
    using assms by (auto simp: make_config_def go_bind_def split: sum.splits)
  obtain ins where "hop_run (map (\<lambda>(i, names). HStart i names) (zip [0 ..< n] names)) (emptyConfig n u, []) = Inr (h1, ins)"
    using startAll_run [OF 1(1)] by blast
  then show ?thesis using connectAll_run [OF 1(2)] by (auto simp: hop_run_append)
qed

section \<open>Persisters and servers\<close>

text \<open>Every server has its own persister, the running peer has the saved one, and the network has a server exactly for the running peers.\<close>

definition pinv :: "harness \<times> nat list \<Rightarrow> bool" where
  "pinv = (\<lambda>(h, ins). length (saved h) = h_n h \<and> length (rafts h) = h_n h \<and> (\<forall>r \<in> set ins. r < nextPersister h) \<and>
     (\<forall>i < h_n h. \<forall>r. saved h ! i = Some r \<longrightarrow> r < nextPersister h \<and> (r \<in> set ins \<longrightarrow> rafts h ! i = Some r) \<and> (\<forall>j < h_n h. saved h ! j = Some r \<longrightarrow> j = i)) \<and>
     (\<forall>i < h_n h. \<forall>r. rafts h ! i = Some r \<longrightarrow> saved h ! i = Some r) \<and> (\<forall>i < h_n h. (servers (h_net h) i = None) = (rafts h ! i = None)))"

definition same_stores :: "harness \<Rightarrow> harness \<Rightarrow> bool" where
  "same_stores h h' \<longleftrightarrow> saved h' = saved h \<and> rafts h' = rafts h \<and> persisters h' = persisters h \<and> nextPersister h' = nextPersister h \<and> h_n h' = h_n h \<and>
     servers (h_net h') = servers (h_net h)"

lemma enableAll_stores: "enableAll b ps h = Inr h' \<Longrightarrow> same_stores h h'"
proof -
  assume "enableAll b ps h = Inr h'"
  then obtain f where "h' = h\<lparr>h_net := (h_net h)\<lparr>enabled := f\<rparr>\<rparr>" using enableAll_effect by blast
  then show ?thesis by (simp add: same_stores_def)
qed

lemma connect_stores: "connect i h = Inr h' \<Longrightarrow> same_stores h h'"
  by (auto simp: connect_def Let_def go_bind_def split: sum.splits dest!: enableAll_stores) (simp add: same_stores_def)

lemma disconnect_stores: "disconnect i h = Inr h' \<Longrightarrow> same_stores h h'"
  by (auto simp: disconnect_def Let_def go_bind_def split: sum.splits dest!: enableAll_stores) (simp add: same_stores_def)

lemma makeEnds_stores: "makeEnds prs h = Inr h' \<Longrightarrow> same_stores h h'"
proof (induction prs h rule: makeEnds.induct)
  case (2 j name rest h)
  then obtain rn where rn: "MakeEnd name (h_net h) = Inr rn" "makeEnds rest (h\<lparr>h_net := Connect name j rn\<rparr>) = Inr h'"
    by (auto simp: go_bind_def split: sum.splits)
  have "servers rn = servers (h_net h)" using rn(1) by (auto simp: MakeEnd_def split: if_splits)
  with "2.IH" [OF rn(2)] show ?case by (simp add: same_stores_def Connect_def)
qed (simp add: same_stores_def)

text \<open>\<open>crash1\<close> leaves the server a fresh persister with the content of the old one.\<close>

lemma crash1_stores:
  assumes "crash1 i h = Inr h'" "i < h_n h" "length (saved h) = h_n h"
  shows "case saved h ! i of
      None \<Rightarrow> saved h' = saved h \<and> persisters h' = persisters h \<and> nextPersister h' = nextPersister h
    | Some r \<Rightarrow> saved h' = (saved h)[i := Some (nextPersister h + 1)] \<and> nextPersister h' = nextPersister h + 2 \<and>
        persisters h' = (persisters h)(nextPersister h := persisters h r, nextPersister h + 1 := persisters h r)"
    "rafts h' = (rafts h)[i := None]" "h_n h' = h_n h" "servers (h_net h') = (servers (h_net h))(i := None)"
proof -
  obtain h1 where 1: "disconnect i h = Inr h1" using assms(1) by (auto simp: crash1_def go_bind_def split: sum.splits)
  note d = disconnect_stores [OF 1, unfolded same_stores_def]
  show "case saved h ! i of
      None \<Rightarrow> saved h' = saved h \<and> persisters h' = persisters h \<and> nextPersister h' = nextPersister h
    | Some r \<Rightarrow> saved h' = (saved h)[i := Some (nextPersister h + 1)] \<and> nextPersister h' = nextPersister h + 2 \<and>
        persisters h' = (persisters h)(nextPersister h := persisters h r, nextPersister h + 1 := persisters h r)"
    using assms 1 d by (cases "saved h ! i") (auto simp: crash1_def Let_def)
  show "rafts h' = (rafts h)[i := None]" "h_n h' = h_n h" "servers (h_net h') = (servers (h_net h))(i := None)"
    using assms 1 d by (cases "saved h ! i"; auto simp: crash1_def Let_def DeleteServer_def)+
qed


text \<open>\<open>start1\<close> gives the new peer a persister that no other peer ever had.\<close>

lemma start1_stores:
  assumes "start1 i names h = Inr h'" "i < h_n h" "length (saved h) = h_n h" "length (rafts h) = h_n h" "\<And>r. saved h ! i = Some r \<Longrightarrow> r < nextPersister h"
  shows "\<exists>q. nextPersister h \<le> q \<and> nextPersister h' = q + 1 \<and> saved h' = (saved h)[i := Some q] \<and> rafts h' = (rafts h)[i := Some q] \<and>
      persisters h' q = (case saved h ! i of Some r \<Rightarrow> persisters h r | None \<Rightarrow> MakePersister) \<and> (\<forall>r < nextPersister h. persisters h' r = persisters h r) \<and>
      h_n h' = h_n h \<and> (\<exists>srv. servers (h_net h') = (servers (h_net h))(i := Some srv))"
proof -
  obtain h1 where 1: "crash1 i h = Inr h1" using assms(1) by (cases "crash1 i h") (simp_all add: start1_def)
  let ?m = "makeEnds (zip [0 ..< h_n h1] names) (h1\<lparr>endnames := (endnames h1)[i := Some names]\<rparr>)"
  obtain h2 where 2: "?m = Inr h2" using assms(1) 1 by (cases ?m) (simp_all add: start1_def)
  note c = crash1_stores [OF 1 assms(2,3)]
  have m: "saved h2 = saved h1" "rafts h2 = rafts h1" "persisters h2 = persisters h1" "nextPersister h2 = nextPersister h1" "h_n h2 = h_n h1"
      "servers (h_net h2) = servers (h_net h1)"
    using makeEnds_stores [OF 2] by (simp_all add: same_stores_def)
  have h': "h' = (let h3 = (case saved h2 ! i of Some r \<Rightarrow> saveNew i (Copy (persisters h2 r)) h2 | None \<Rightarrow> saveNew i MakePersister h2);
      h4 = h3\<lparr>rafts := (rafts h3)[i := saved h3 ! i]\<rparr> in h4\<lparr>h_net := AddServer i (nextServer h4) (h_net h4), nextServer := nextServer h4 + 1\<rparr>)"
    using assms(1) 1 2 by (simp add: start1_def Let_def)
  show ?thesis
  proof (cases "saved h ! i")
    case None
    then show ?thesis using c assms(2-4) by (intro exI [of _ "nextPersister h"]) (auto simp: h' m Let_def AddServer_def)
  next
    case (Some r)
    then show ?thesis using c assms(2-5) by (intro exI [of _ "nextPersister h + 2"]) (auto simp: h' m Let_def AddServer_def)
  qed
qed

text \<open>The invariant is kept.\<close>

lemma pinvI:
  assumes "length (saved h) = h_n h" "length (rafts h) = h_n h" "\<And>r. r \<in> set ins \<Longrightarrow> r < nextPersister h"
    "\<And>i r. i < h_n h \<Longrightarrow> saved h ! i = Some r \<Longrightarrow> r < nextPersister h" "\<And>i r. i < h_n h \<Longrightarrow> saved h ! i = Some r \<Longrightarrow> r \<in> set ins \<Longrightarrow> rafts h ! i = Some r"
    "\<And>i j r. i < h_n h \<Longrightarrow> j < h_n h \<Longrightarrow> saved h ! i = Some r \<Longrightarrow> saved h ! j = Some r \<Longrightarrow> j = i"
    "\<And>i r. i < h_n h \<Longrightarrow> rafts h ! i = Some r \<Longrightarrow> saved h ! i = Some r" "\<And>i. i < h_n h \<Longrightarrow> (servers (h_net h) i = None) = (rafts h ! i = None)"
  shows "pinv (h, ins)"
  unfolding pinv_def prod.case using assms by (intro conjI allI impI ballI) blast+

lemma pinvD:
  assumes "pinv (h, ins)"
  shows "length (saved h) = h_n h" "length (rafts h) = h_n h" "\<And>r. r \<in> set ins \<Longrightarrow> r < nextPersister h"
    "\<And>i r. i < h_n h \<Longrightarrow> saved h ! i = Some r \<Longrightarrow> r < nextPersister h" "\<And>i r. i < h_n h \<Longrightarrow> saved h ! i = Some r \<Longrightarrow> r \<in> set ins \<Longrightarrow> rafts h ! i = Some r"
    "\<And>i j r. i < h_n h \<Longrightarrow> j < h_n h \<Longrightarrow> saved h ! i = Some r \<Longrightarrow> saved h ! j = Some r \<Longrightarrow> j = i"
    "\<And>i r. i < h_n h \<Longrightarrow> rafts h ! i = Some r \<Longrightarrow> saved h ! i = Some r" "\<And>i. i < h_n h \<Longrightarrow> (servers (h_net h) i = None) = (rafts h ! i = None)"
  using assms unfolding pinv_def prod.case by blast+

lemma pinv_stores:
  assumes "pinv (h, ins)" "same_stores h h'"
  shows "pinv (h', ins)"
proof -
  have e: "saved h' = saved h" "rafts h' = rafts h" "nextPersister h' = nextPersister h" "h_n h' = h_n h" "servers (h_net h') = servers (h_net h)"
    using assms(2) by (simp_all add: same_stores_def)
  show ?thesis using assms(1) unfolding pinv_def prod.case e .
qed

text \<open>Replacing the persister of one server by a fresh one, and its peer by none or by one with that persister.\<close>

lemma pinv_replace:
  assumes "pinv (h, ins)" "i < h_n h" "h_n h' = h_n h" "saved h' = (saved h)[i := Some q]" "nextPersister h \<le> q" "q < nextPersister h'"
    "(rafts h' = (rafts h)[i := None] \<and> ins' = ins \<and> servers (h_net h') = (servers (h_net h))(i := None)) \<or>
     (rafts h' = (rafts h)[i := Some q] \<and> ins' = ins @ [q] \<and> (\<exists>srv. servers (h_net h') = (servers (h_net h))(i := Some srv)))"
  shows "pinv (h', ins')"
proof -
  note p = pinvD [OF assms(1)]
  have old: "a \<noteq> i \<Longrightarrow> saved h' ! a = saved h ! a" "a \<noteq> i \<Longrightarrow> rafts h' ! a = rafts h ! a" "a \<noteq> i \<Longrightarrow> servers (h_net h') a = servers (h_net h) a" for a
    using assms(4,7) by auto
  have new: "saved h' ! i = Some q" "rafts h' ! i = (if ins' = ins then None else Some q)" "(servers (h_net h') i = None) = (ins' = ins)"
    "set ins' \<subseteq> insert q (set ins)" "ins' \<noteq> ins \<Longrightarrow> q \<in> set ins'"
    using assms(2,4,7) p(1,2) by auto
  have q: "q \<notin> set ins" using p(3) [of q] assms(5) by (cases "q \<in> set ins") simp_all
  have np: "r < nextPersister h'" if "r < nextPersister h" for r using that assms(5,6) by simp
  show ?thesis
  proof (rule pinvI)
    show "length (saved h') = h_n h'" "length (rafts h') = h_n h'" using assms(3,4,7) p(1,2) by auto
    show "r < nextPersister h'" if "r \<in> set ins'" for r
    proof (cases "r = q")
      case False
      then have "r \<in> set ins" using that new(4) by auto
      then show ?thesis by (rule np [OF p(3)])
    qed (simp add: assms(6))
    fix a r assume a: "a < h_n h'"
    then have a': "a < h_n h" using assms(3) by simp
    show "r < nextPersister h'" if "saved h' ! a = Some r"
    proof (cases "a = i")
      case False
      then show ?thesis using that old(1) np [OF p(4) [OF a']] by simp
    qed (use that new(1) assms(6) in simp)
    show "saved h' ! a = Some r" if "rafts h' ! a = Some r"
    proof (cases "a = i")
      case False
      then show ?thesis using that old(1,2) [OF False] p(7) [OF a', of r] by simp
    qed (use that new(1,2) in \<open>simp split: if_splits\<close>)
    show "(servers (h_net h') a = None) = (rafts h' ! a = None)"
    proof (cases "a = i")
      case False
      then show ?thesis using old(2,3) [OF False] p(8) [OF a'] by simp
    qed (use new(2,3) in simp)
    show "rafts h' ! a = Some r" if s: "saved h' ! a = Some r" "r \<in> set ins'"
    proof (cases "a = i")
      case True
      then have "r = q" using s new(1) by simp
      then have "ins' \<noteq> ins" using s(2) q by auto
      then show ?thesis using True new(2) \<open>r = q\<close> by simp
    next
      case False
      then have sa: "saved h ! a = Some r" using s old(1) by simp
      then have "r \<noteq> q" using p(4) [of a r] a assms(3,5) by auto
      then have "r \<in> set ins" using s(2) new(4) by auto
      then show ?thesis using p(5) [of a r] sa False a assms(3) old(2) by simp
    qed
    show "b = a" if b: "b < h_n h'" "saved h' ! a = Some r" "saved h' ! b = Some r" for b
    proof -
      have fresh: "saved h ! c \<noteq> Some q" if "c < h_n h" for c using p(4) [of c q] that assms(5) by auto
      have b': "b < h_n h" using b(1) assms(3) by simp
      have eq: "c = i \<longleftrightarrow> r = q" if "c < h_n h" "saved h' ! c = Some r" for c
        using that old(1) [of c] new(1) fresh [OF that(1)] by (cases "c = i") auto
      show ?thesis
      proof (cases "r = q")
        case True
        then show ?thesis using eq [OF a' b(2)] eq [OF b' b(3)] by simp
      next
        case False
        then have "saved h ! a = Some r" "saved h ! b = Some r" using eq [OF a' b(2)] eq [OF b' b(3)] old(1) b(2,3) by simp_all
        then show ?thesis by (rule p(6) [OF a' b'])
      qed
    qed
  qed
qed

lemma pinv_crash:
  assumes "pinv (h, ins)" "crash1 i h = Inr h'" "i < h_n h"
  shows "pinv (h', ins)"
proof -
  note p = pinvD [OF assms(1)]
  note c = crash1_stores [OF assms(2,3) p(1)]
  show ?thesis
  proof (cases "saved h ! i")
    case None
    have "rafts h ! i = None" using p(7) [OF assms(3)] None by (cases "rafts h ! i") simp_all
    then have "rafts h' = rafts h" "servers (h_net h') = servers (h_net h)"
      using c(2,4) p(8) [OF assms(3)] by (metis list_update_id, metis fun_upd_triv)
    then have "same_stores h h'" using c None by (simp add: same_stores_def)
    then show ?thesis by (rule pinv_stores [OF assms(1)])
  next
    case (Some r)
    show ?thesis by (rule pinv_replace [OF assms(1,3) c(3), of "nextPersister h + 1"]) (use c Some in simp_all)
  qed
qed

lemma pinv_start:
  assumes "pinv (h, ins)" "start1 i names h = Inr h'" "i < h_n h"
  shows "\<exists>q. rafts h' ! i = Some q \<and> pinv (h', ins @ [q])"
proof -
  note p = pinvD [OF assms(1)]
  obtain q where q: "nextPersister h \<le> q" "nextPersister h' = q + 1" "saved h' = (saved h)[i := Some q]" "rafts h' = (rafts h)[i := Some q]"
      "h_n h' = h_n h" "\<exists>srv. servers (h_net h') = (servers (h_net h))(i := Some srv)"
    using start1_stores [OF assms(2,3) p(1,2) p(4) [OF assms(3)]] by blast
  have "pinv (h', ins @ [q])" by (rule pinv_replace [OF assms(1,3) q(5,3,1)]) (use q in auto)
  then show ?thesis using q(4) p(2) assms(3) by (intro exI [of _ q]) simp
qed

lemma pinv_write:
  assumes "pinv (h, ins)"
  shows "pinv (peerPersists r st h, ins)"
proof -
  let ?h = "peerPersists r st h"
  have e: "saved ?h = saved h" "rafts ?h = rafts h" "nextPersister ?h = nextPersister h" "h_n ?h = h_n h" "h_net ?h = h_net h"
    by (simp_all add: peerPersists_def)
  show ?thesis using assms unfolding pinv_def prod.case e .
qed

definition harness_ok :: "nat \<Rightarrow> harness \<times> nat list \<Rightarrow> bool" where
  "harness_ok n s \<longleftrightarrow> h_n (fst s) = n \<and> hinv (fst s) \<and> pinv s"

lemma hop_exec_ok:
  assumes "harness_ok n s" "hop_ok n p" "hop_exec p s = Inr s'"
  shows "harness_ok n s'"
proof -
  obtain h ins where s: "s = (h, ins)" by (cases s)
  have ok: "h_n h = n" "hinv h" "pinv (h, ins)" using assms(1) by (simp_all add: harness_ok_def s)
  show ?thesis
  proof (cases p)
    case (HConnect i)
    then obtain h' where h': "connect i h = Inr h'" "s' = (h', ins)" using assms(3) by (auto simp: s go_bind_def split: sum.splits)
    then show ?thesis using ok assms(2) HConnect connect_inv [OF h'(1)] connect_stores [OF h'(1)] pinv_stores [of h ins h']
      by (simp add: harness_ok_def same_stores_def)
  next
    case (HDisconnect i)
    then obtain h' where h': "disconnect i h = Inr h'" "s' = (h', ins)" using assms(3) by (auto simp: s go_bind_def split: sum.splits)
    then show ?thesis using ok assms(2) HDisconnect disconnect_inv(1) [OF h'(1)] disconnect_stores [OF h'(1)] pinv_stores [of h ins h']
      by (simp add: harness_ok_def same_stores_def)
  next
    case (HCrash i)
    then obtain h' where h': "crash1 i h = Inr h'" "s' = (h', ins)" using assms(3) by (auto simp: s go_bind_def split: sum.splits)
    then show ?thesis using ok assms(2) HCrash crash1_inv(1,4) [OF h'(1)] pinv_crash [OF ok(3) h'(1)] by (simp add: harness_ok_def)
  next
    case (HStart i names)
    then obtain h' where h': "start1 i names h = Inr h'" "s' = (h', case rafts h' ! i of Some r \<Rightarrow> ins @ [r] | None \<Rightarrow> ins)"
      using assms(3) by (auto simp: s go_bind_def split: sum.splits)
    obtain q where "rafts h' ! i = Some q" "pinv (h', ins @ [q])" using pinv_start [OF ok(3) h'(1)] assms(2) ok(1) HStart by auto
    then show ?thesis using ok assms(2) HStart h' start1_inv [OF h'(1)] by (simp add: harness_ok_def)
  next
    case (HWrite k st)
    have "hinv (peerPersists r st h)" for r by (rule hinv_cong [OF ok(2)]) (simp_all add: peerPersists_def)
    then show ?thesis using assms(3) ok pinv_write [OF ok(3)] HWrite by (auto simp: s harness_ok_def peerPersists_def split: if_splits)
  qed
qed

lemma hop_run_ok: "hop_run ps s = Inr s' \<Longrightarrow> harness_ok n s \<Longrightarrow> list_all (hop_ok n) ps \<Longrightarrow> harness_ok n s'"
proof (induction ps arbitrary: s)
  case (Cons p ps)
  then obtain s1 where "hop_exec p s = Inr s1" "hop_run ps s1 = Inr s'" by (auto simp: go_bind_def split: sum.splits)
  then show ?case using Cons.IH Cons.prems hop_exec_ok [of n s p s1] by simp
qed simp

lemma emptyConfig_ok: "harness_ok n (emptyConfig n u, [])"
proof -
  let ?h = "emptyConfig n u"
  have e: "h_n ?h = n" "saved ?h = replicate n None" "rafts ?h = replicate n None" "h_connected ?h = replicate n False" "endnames ?h = replicate n None"
      "servers (h_net ?h) = (\<lambda>_. None)" "enabled (h_net ?h) = (\<lambda>_. False)"
    by (simp_all add: emptyConfig_def MakeNetwork_def Reliable_def LongDelays_def)
  have f: "endName ?h i j = Inl IndexOutOfRange" if "i < n" for i j using that by (simp add: endName_def e)
  have "pinv (?h, [])" by (rule pinvI) (simp_all add: e)
  moreover have "hinv ?h" by (simp add: hinv_def e unique_names_def wired_def ends_ok_def f)
  ultimately show ?thesis by (simp add: harness_ok_def e)
qed


text \<open>C11: 
  In every state that a test can bring the harness to, by starting, crashing, connecting and disconnecting servers in any order, with the peers storing state at any time, a request that the network takes up is given to a server
  exactly if its end is the current end from some server \<open>a\<close> to some server \<open>b\<close>, both connected, the peer of \<open>b\<close> is running, and the network does not drop the request. In particular nothing comes through an end of a peer that was
  crashed, or to or from a disconnected server.
\<close>

theorem harness_connectivity:
  assumes "hop_run ps (emptyConfig n u, []) = Inr (h, ins)" "list_all (hop_ok n) ps" "c_handler c = NotStarted"
  shows "c_handler (beginReq (h_net h) dropped c) \<noteq> NotStarted \<longleftrightarrow>
    (\<exists>a < n. \<exists>b < n. endName h a b = Inr (endname (c_req c)) \<and> h_connected h ! a \<and> h_connected h ! b \<and> rafts h ! b \<noteq> None) \<and> (dropped \<longrightarrow> reliable (h_net h))"
proof -
  let ?e = "endname (c_req c)"
  have ok: "h_n h = n" "hinv h" "pinv (h, ins)" using hop_run_ok [OF assms(1) emptyConfig_ok assms(2)] by (simp_all add: harness_ok_def)
  have con: "connections (h_net h) ?e = Some b" if "a < n" "b < n" "endName h a b = Inr ?e" for a b
    using ok that by (simp add: hinv_def ends_ok_def)
  have en: "enabled (h_net h) ?e \<longleftrightarrow> (\<exists>a < n. \<exists>b < n. endName h a b = Inr ?e \<and> h_connected h ! a \<and> h_connected h ! b)"
    using ok by (simp add: hinv_def wired_def)
  have sv: "servers (h_net h) b = None \<longleftrightarrow> rafts h ! b = None" if "b < n" for b using pinvD(8) [OF ok(3)] ok(1) that by simp
  have "c_handler (beginReq (h_net h) dropped c) \<noteq> NotStarted \<longleftrightarrow>
      enabled (h_net h) ?e \<and> (\<exists>b srv. connections (h_net h) ?e = Some b \<and> servers (h_net h) b = Some srv) \<and> (dropped \<longrightarrow> reliable (h_net h))"
    using assms(3) by (auto simp: beginReq_def readEndnameInfo_def split: bool.split option.split)
  also have "\<dots> \<longleftrightarrow> (\<exists>a < n. \<exists>b < n. endName h a b = Inr ?e \<and> h_connected h ! a \<and> h_connected h ! b \<and> rafts h ! b \<noteq> None) \<and> (dropped \<longrightarrow> reliable (h_net h))"
  proof -
    have "(\<exists>b' srv. connections (h_net h) ?e = Some b' \<and> servers (h_net h) b' = Some srv) \<longleftrightarrow> rafts h ! b \<noteq> None"
      if "a < n" "b < n" "endName h a b = Inr ?e" for a b
      using con [OF that] sv [OF that(2)] by auto
    then show ?thesis unfolding en by blast
  qed
  finally show ?thesis .
qed


section \<open>Restarts\<close>

text \<open>The saved persister of server \<open>i\<close> has the content \<open>p\<close> and is known to no peer.\<close>

definition kept :: "nat \<Rightarrow> Persister \<Rightarrow> harness \<times> nat list \<Rightarrow> bool" where
  "kept i p s \<longleftrightarrow> (\<exists>r. saved (fst s) ! i = Some r \<and> r \<notin> set (snd s) \<and> persisters (fst s) r = p)"

fun restarts :: "nat \<Rightarrow> hop \<Rightarrow> bool" where
  "restarts i (HStart j names) \<longleftrightarrow> i = j"
| "restarts i _ \<longleftrightarrow> False"

lemma kept_stores: "kept i p (h, ins) \<Longrightarrow> same_stores h h' \<Longrightarrow> kept i p (h', ins)"
  by (simp add: kept_def same_stores_def)

lemma crashed_kept:
  assumes "pinv (h, ins)" "crash1 i h = Inr h'" "i < h_n h" "saved h ! i = Some r"
  shows "kept i (persisters h r) (h', ins)"
proof -
  note p = pinvD [OF assms(1)]
  have "nextPersister h + 1 \<notin> set ins" using p(3) [of "nextPersister h + 1"] by auto
  then show ?thesis using crash1_stores(1) [OF assms(2,3) p(1)] assms(3,4) p(1) by (simp add: kept_def)
qed

lemma crash1_kept:
  assumes "pinv (h, ins)" "crash1 j h = Inr h'" "j < h_n h" "i < h_n h" "kept i p (h, ins)"
  shows "kept i p (h', ins)"
proof -
  obtain r where r: "saved h ! i = Some r" "r \<notin> set ins" "persisters h r = p" using assms(5) by (auto simp: kept_def)
  have r': "r < nextPersister h" using pinvD(4) [OF assms(1,4) r(1)] .
  show ?thesis
  proof (cases "j = i")
    case True
    then show ?thesis using crashed_kept [OF assms(1-3), of r] r by simp
  next
    case False
    then show ?thesis using crash1_stores(1) [OF assms(2,3) pinvD(1) [OF assms(1)]] r r' by (auto simp: kept_def split: option.splits)
  qed
qed

lemma start1_kept:
  assumes "pinv (h, ins)" "start1 j names h = Inr h'" "j < h_n h" "i < h_n h" "j \<noteq> i" "kept i p (h, ins)"
  shows "kept i p (h', case rafts h' ! j of Some r \<Rightarrow> ins @ [r] | None \<Rightarrow> ins)"
proof -
  note p = pinvD [OF assms(1)]
  obtain r where r: "saved h ! i = Some r" "r \<notin> set ins" "persisters h r = p" using assms(6) by (auto simp: kept_def)
  have r': "r < nextPersister h" using p(4) [OF assms(4) r(1)] .
  obtain q where q: "nextPersister h \<le> q" "saved h' = (saved h)[j := Some q]" "rafts h' = (rafts h)[j := Some q]"
      "\<forall>r < nextPersister h. persisters h' r = persisters h r"
    using start1_stores [OF assms(2,3) p(1,2) p(4) [OF assms(3)]] by blast
  have "rafts h' ! j = Some q" using q(3) p(2) assms(3) by simp
  then show ?thesis using r r' q assms(5) by (simp add: kept_def)
qed

lemma hop_exec_kept:
  assumes "harness_ok n s" "hop_ok n op" "hop_exec op s = Inr s'" "i < n" "\<not> restarts i op" "kept i p s"
  shows "kept i p s'"
proof -
  obtain h ins where s: "s = (h, ins)" by (cases s)
  have ok: "h_n h = n" "pinv (h, ins)" "kept i p (h, ins)" using assms(1,6) by (simp_all add: harness_ok_def s)
  show ?thesis
  proof (cases op)
    case (HConnect j)
    then obtain h' where "connect j h = Inr h'" "s' = (h', ins)" using assms(3) by (auto simp: s go_bind_def split: sum.splits)
    then show ?thesis using kept_stores [OF ok(3) connect_stores] by simp
  next
    case (HDisconnect j)
    then obtain h' where "disconnect j h = Inr h'" "s' = (h', ins)" using assms(3) by (auto simp: s go_bind_def split: sum.splits)
    then show ?thesis using kept_stores [OF ok(3) disconnect_stores] by simp
  next
    case (HCrash j)
    then obtain h' where "crash1 j h = Inr h'" "s' = (h', ins)" using assms(3) by (auto simp: s go_bind_def split: sum.splits)
    then show ?thesis using crash1_kept [OF ok(2) _ _ _ ok(3)] assms(2,4) ok(1) HCrash by simp
  next
    case (HStart j names)
    then obtain h' where h': "start1 j names h = Inr h'" "s' = (h', case rafts h' ! j of Some r \<Rightarrow> ins @ [r] | None \<Rightarrow> ins)"
      using assms(3) by (auto simp: s go_bind_def split: sum.splits)
    then show ?thesis using start1_kept [OF ok(2) h'(1) _ _ _ ok(3)] assms(2,4,5) ok(1) HStart by simp
  next
    case (HWrite k st)
    then show ?thesis using assms(3) ok(3) by (auto simp: s kept_def peerPersists_def split: if_splits)
  qed
qed

lemma hop_run_kept:
  "hop_run ps s = Inr s' \<Longrightarrow> harness_ok n s \<Longrightarrow> list_all (hop_ok n) ps \<Longrightarrow> i < n \<Longrightarrow> \<not> list_ex (restarts i) ps \<Longrightarrow> kept i p s \<Longrightarrow> kept i p s'"
proof (induction ps arbitrary: s)
  case (Cons op ps)
  then obtain s1 where "hop_exec op s = Inr s1" "hop_run ps s1 = Inr s'" by (auto simp: go_bind_def split: sum.splits)
  then show ?case using Cons.IH Cons.prems hop_exec_ok [of n s op s1] hop_exec_kept [of n s op s1 i p] by simp
qed simp

text \<open>C12: 
  A peer that is started again reads exactly what the crashed peer of its server had stored when it was crashed, whatever the crashed peer, or any other peer that was ever made, stores in the meantime, and whichever servers are
  started, crashed, connected or disconnected in between. Its persister is one that no other peer has.
\<close>

theorem restart_reads_last_state:
  assumes "hop_run ps (emptyConfig n u, []) = Inr (h, ins)" "list_all (hop_ok n) ps" "i < n" "rafts h ! i = Some r" "crash1 i h = Inr h1"
    "hop_run qs (h1, ins) = Inr (h2, ins2)" "list_all (hop_ok n) qs" "\<not> list_ex (restarts i) qs" "start1 i names h2 = Inr h3"
  shows "\<exists>q. rafts h3 ! i = Some q \<and> q \<notin> set ins2 \<and> ReadRaftState (persisters h3 q) = ReadRaftState (persisters h r) \<and>
    ReadSnapshot (persisters h3 q) = ReadSnapshot (persisters h r)"
proof -
  have ok: "harness_ok n (h, ins)" by (rule hop_run_ok [OF assms(1) emptyConfig_ok assms(2)])
  have h: "h_n h = n" "pinv (h, ins)" using ok by (simp_all add: harness_ok_def)
  have s: "saved h ! i = Some r" using pinvD(7) [OF h(2)] assms(3,4) h(1) by simp
  have ok1: "harness_ok n (h1, ins)" using hop_exec_ok [OF ok, of "HCrash i" "(h1, ins)"] assms(3,5) by simp
  have k: "kept i (persisters h r) (h1, ins)" using crashed_kept [OF h(2) assms(5) _ s] assms(3) h(1) by simp
  have ok2: "h_n h2 = n" "pinv (h2, ins2)" using hop_run_ok [OF assms(6) ok1 assms(7)] by (simp_all add: harness_ok_def)
  obtain r2 where r2: "saved h2 ! i = Some r2" "persisters h2 r2 = persisters h r"
    using hop_run_kept [OF assms(6) ok1 assms(7,3,8) k] by (auto simp: kept_def)
  note p = pinvD [OF ok2(2)]
  have i: "i < h_n h2" using assms(3) ok2(1) by simp
  obtain q where q: "nextPersister h2 \<le> q" "rafts h3 = (rafts h2)[i := Some q]" "persisters h3 q = persisters h r"
    using start1_stores [OF assms(9) i p(1,2) p(4) [OF i]] r2 by auto
  have "q \<notin> set ins2" using p(3) [of q] q(1) by auto
  then show ?thesis using q p(2) i by (intro exI [of _ q]) simp
qed


section \<open>A small test\<close>

definition sampleCall :: "string \<Rightarrow> (string, nat) call" where
  "sampleCall e = \<lparr>c_req = \<lparr>endname = e, svcMeth = ''Raft.RequestVote'', args = ''v''\<rparr>, c_phase = Queued, c_handler = NotStarted\<rparr>"

lemmas harness_defs = connect_def disconnect_def crash1_def start1_def emptyConfig_def endName_def saveNew_def peerPersists_def slice_index_def
  MakeNetwork_def Reliable_def LongDelays_def MakeEnd_def Connect_def Enable_def AddServer_def DeleteServer_def Let_def upt_rec MakePersister_def
  SaveRaftState_def SaveStateAndSnapshot_def Copy_def ReadRaftState_def ReadSnapshot_def

lemma go_bind_weak_cong: "m = m' \<Longrightarrow> go_bind m f = go_bind m' f"
  by simp

definition sampleTest :: "hop list" where
  "sampleTest = [HStart 0 [''a'', ''b''], HStart 1 [''c'', ''d''], HConnect 0, HConnect 1, HWrite 0 ''old'', HCrash 0, HStart 0 [''x'', ''y''], HConnect 0, HWrite 2 ''new'']"

lemma sampleTest_ok: "list_all (hop_ok 2) sampleTest"
  by (simp add: sampleTest_def)

lemmas weak_congs = go_bind_weak_cong let_weak_cong sum.case_cong_weak prod.case_cong_weak option.case_cong_weak

text \<open>\<open>after P s\<close>: the run returned, with a state that satisfies \<open>P\<close>.\<close>

definition after :: "(harness \<Rightarrow> nat list \<Rightarrow> bool) \<Rightarrow> (harness \<times> nat list) go \<Rightarrow> bool" where
  "after P s \<longleftrightarrow> (case s of Inl _ \<Rightarrow> False | Inr t \<Rightarrow> (case t of (h, ins) \<Rightarrow> P h ins))"

lemma sampleTest_1: "after (\<lambda>h ins. endName h 0 1 = Inr ''y'' \<and> h_connected h ! 0 \<and> h_connected h ! 1 \<and> reliable (h_net h)) (hop_run sampleTest (emptyConfig 2 False, []))"
  by (simp add: after_def sampleTest_def harness_defs cong: weak_congs)

lemma sampleTest_2: "after (\<lambda>h ins. rafts h ! 0 = Some 6 \<and> rafts h ! 1 = Some 1 \<and> ReadRaftState (persisters h 6) = ''new'' \<and> length ins = 3) (hop_run sampleTest (emptyConfig 2 False, []))"
  by (simp add: after_def sampleTest_def harness_defs eval_nat_numeral cong: weak_congs)

lemma sampleTest_3:
  "after (\<lambda>h ins. True) (hop_run (sampleTest @ HCrash 0 # [HWrite 2 ''late'', HConnect 1] @ [HStart 0 [''r'', ''s'']]) (emptyConfig 2 False, []))"
  by (simp add: after_def sampleTest_def harness_defs eval_nat_numeral cong: weak_congs)

theorem harness_connectivity_witness:
  "\<exists>h ins. hop_run sampleTest (emptyConfig 2 False, []) = Inr (h, ins) \<and> c_handler (beginReq (h_net h) False (sampleCall ''y'')) \<noteq> NotStarted"
proof -
  obtain h ins where h: "hop_run sampleTest (emptyConfig 2 False, []) = Inr (h, ins)" "endName h 0 1 = Inr ''y''" "h_connected h ! 0" "h_connected h ! 1" "rafts h ! 1 = Some 1"
    using sampleTest_1 sampleTest_2 by (auto simp: after_def split: sum.splits)
  have c: "c_handler (sampleCall ''y'') = NotStarted" "endname (c_req (sampleCall ''y'')) = ''y''" by (simp_all add: sampleCall_def)
  have "\<exists>a < 2. \<exists>b < 2. endName h a b = Inr (endname (c_req (sampleCall ''y''))) \<and> h_connected h ! a \<and> h_connected h ! b \<and> rafts h ! b \<noteq> None"
    using h(2-5) c(2) by (intro exI [of _ 0] exI [of _ 1] conjI) simp_all
  then show ?thesis using harness_connectivity [OF h(1) sampleTest_ok c(1), of False] h(1) by auto
qed

theorem restart_reads_last_state_witness:
  "\<exists>h ins h1 h2 ins2 h3 q. hop_run sampleTest (emptyConfig 2 False, []) = Inr (h, ins) \<and> crash1 0 h = Inr h1 \<and> hop_run [HWrite 2 ''late'', HConnect 1] (h1, ins) = Inr (h2, ins2) \<and>
     start1 0 [''r'', ''s''] h2 = Inr h3 \<and> rafts h3 ! 0 = Some q \<and> ReadRaftState (persisters h3 q) = ''new''"
proof -
  obtain h ins where h: "hop_run sampleTest (emptyConfig 2 False, []) = Inr (h, ins)" "rafts h ! 0 = Some 6" "ReadRaftState (persisters h 6) = ''new''"
    using sampleTest_2 by (auto simp: after_def split: sum.splits)
  let ?qs = "[HWrite 2 ''late'', HConnect 1]"
  have "after (\<lambda>h ins. True) (hop_run (HCrash 0 # ?qs @ [HStart 0 [''r'', ''s'']]) (h, ins))"
    using sampleTest_3 h(1) by (simp only: hop_run_append bind_Inr)
  then obtain h1 where h1: "crash1 0 h = Inr h1" "after (\<lambda>h ins. True) (hop_run (?qs @ [HStart 0 [''r'', ''s'']]) (h1, ins))"
    by (cases "crash1 0 h") (simp_all add: after_def del: append.simps)
  obtain h2 ins2 where h2: "hop_run ?qs (h1, ins) = Inr (h2, ins2)" "after (\<lambda>h ins. True) (hop_run [HStart 0 [''r'', ''s'']] (h2, ins2))"
    using h1(2) unfolding hop_run_append by (cases "hop_run ?qs (h1, ins)") (auto simp: after_def simp del: hop_run.simps)
  obtain h3 where h3: "start1 0 [''r'', ''s''] h2 = Inr h3"
    using h2(2) by (cases "start1 0 [''r'', ''s''] h2") (simp_all add: after_def)
  have ok: "(0::nat) < 2" "list_all (hop_ok 2) ?qs" "\<not> list_ex (restarts 0) ?qs" by simp_all
  obtain q where "rafts h3 ! 0 = Some q" "ReadRaftState (persisters h3 q) = ''new''"
    using restart_reads_last_state [OF h(1) sampleTest_ok ok(1) h(2) h1(1) h2(1) ok(2,3) h3] h(3) by auto
  then show ?thesis using h(1) h1(1) h2(1) h3 by blast
qed

end
