(* ===== verification/Raft_Tests.thy ===== *)
theory Raft_Tests
  imports Raft_Config Raft_Harness
begin

text \<open>
  The functions of \<open>config.go\<close> that a test is made of: \<open>wait\<close> and \<open>one\<close>, which look for agreement, and \<open>begin\<close> and \<open>end\<close>, which report the work that was done.

  They run against the clock. What they see of the cluster, each time they look, is an argument: \<open>wait\<close> looks at most 30 times, and \<open>one\<close> as often as its 25 seconds allow, so the lists of observations are as long as the time
  allows and the theorems hold for lists of any length.
\<close>

section \<open>Waiting for a commit\<close>

datatype 'c wait_result = MovedOn | Decided "'c option"

text \<open>An observation: the logs when \<open>nCommitted\<close> is called, and the terms that \<open>GetState\<close> returns afterwards. The result is true if a server has moved on.\<close>

fun waitLoop :: "int \<Rightarrow> nat \<Rightarrow> int \<Rightarrow> ('c config \<times> int list) list \<Rightarrow> 'c cfg_error + bool" where
  "waitLoop index n startTerm [] = Inr False"
| "waitLoop index n startTerm ((cfg, terms) # obs) =
     (case nCommitted index cfg of
        Inl e \<Rightarrow> Inl e
      | Inr (nd, _) \<Rightarrow>
          if nd \<ge> n then Inr False
          else if startTerm > -1 \<and> list_ex (\<lambda>t. t > startTerm) terms then Inr True
          else waitLoop index n startTerm obs)"

definition wait :: "int \<Rightarrow> nat \<Rightarrow> int \<Rightarrow> ('c config \<times> int list) list \<Rightarrow> 'c config \<Rightarrow> 'c cfg_error + 'c wait_result" where
  "wait index n startTerm obs cfg =
     (case waitLoop index n startTerm (take 30 obs) of
        Inl e \<Rightarrow> Inl e
      | Inr True \<Rightarrow> Inr MovedOn
      | Inr False \<Rightarrow>
          (case nCommitted index cfg of
             Inl e \<Rightarrow> Inl e
           | Inr (nd, cmd) \<Rightarrow> if nd < n then Inl (OnlyDecided nd index n) else Inr (Decided cmd)))"

section \<open>A complete agreement\<close>

text \<open>
  What \<open>one\<close> meets at a server: whether it is connected, and what \<open>Start\<close> returns there (the index and whether it is the leader), \<open>None\<close> if no peer is running. A server is visited once in a round, so the observations of a round are listed by server.
\<close>

type_synonym visit = "bool \<times> (int \<times> bool) option"

fun tryServers :: "nat \<Rightarrow> nat \<Rightarrow> nat \<Rightarrow> visit list \<Rightarrow> int \<times> nat" where
  "tryServers n 0 starts vs = (-1, starts)"
| "tryServers n (Suc k) starts vs =
     (let starts = (starts + 1) mod n in
      case vs ! starts of
        (True, Some (index1, True)) \<Rightarrow> (index1, starts)
      | _ \<Rightarrow> tryServers n k starts vs)"

fun pollAgreement :: "nat \<Rightarrow> 'c option \<Rightarrow> int \<Rightarrow> 'c config list \<Rightarrow> 'c cfg_error + bool" where
  "pollAgreement expectedServers cmd index [] = Inr False"
| "pollAgreement expectedServers cmd index (cfg # cfgs) =
     (case nCommitted index cfg of
        Inl e \<Rightarrow> Inl e
      | Inr (nd, cmd1) \<Rightarrow>
          if nd > 0 \<and> nd \<ge> expectedServers \<and> cmd1 = cmd then Inr True else pollAgreement expectedServers cmd index cfgs)"

fun oneLoop :: "nat \<Rightarrow> 'c option \<Rightarrow> nat \<Rightarrow> bool \<Rightarrow> nat \<Rightarrow> (visit list \<times> 'c config list) list \<Rightarrow> 'c cfg_error + int" where
  "oneLoop n cmd expectedServers retry starts [] = Inl (NoAgreement cmd)"
| "oneLoop n cmd expectedServers retry starts ((vs, cfgs) # rounds) =
     (case tryServers n n starts vs of (index, starts) \<Rightarrow>
        if index \<noteq> -1 then
          (case pollAgreement expectedServers cmd index cfgs of
             Inl e \<Rightarrow> Inl e
           | Inr True \<Rightarrow> Inr index
           | Inr False \<Rightarrow> if retry then oneLoop n cmd expectedServers retry starts rounds else Inl (NoAgreement cmd))
        else oneLoop n cmd expectedServers retry starts rounds)"

definition one_agree :: "nat \<Rightarrow> 'c option \<Rightarrow> nat \<Rightarrow> bool \<Rightarrow> (visit list \<times> 'c config list) list \<Rightarrow> 'c cfg_error + int" where
  "one_agree n cmd expectedServers retry rounds = oneLoop n cmd expectedServers retry 0 rounds"

section \<open>The report of a test\<close>

record test_start =
  rpcs0 :: int
  bytes0 :: int
  cmds0 :: int
  maxIndex0 :: int

definition begin_test :: "harness \<Rightarrow> 'c config \<Rightarrow> test_start" where
  "begin_test h cfg = \<lparr>rpcs0 = rpcTotal h, bytes0 = bytesTotal h, cmds0 = 0, maxIndex0 = maxIndex cfg\<rparr>"

text \<open>\<open>failed_before\<close> is \<open>cfg.t.Failed()\<close>; \<open>late\<close>: two minutes are over.\<close>

definition checkTimeout :: "bool \<Rightarrow> bool \<Rightarrow> 'c cfg_error + unit" where
  "checkTimeout failed_before late = (if \<not> failed_before \<and> late then Inl TooSlow else Inr ())"

text \<open>The numbers of peers, requests, bytes and agreements that \<open>end\<close> prints, if the test did not fail. The subtractions are those of 64 bits.\<close>

definition end_test :: "bool \<Rightarrow> bool \<Rightarrow> harness \<Rightarrow> 'c config \<Rightarrow> test_start \<Rightarrow> 'c cfg_error + (nat \<times> int \<times> int \<times> int) option" where
  "end_test failed_before late h cfg ts =
     (case checkTimeout failed_before late of
        Inl e \<Rightarrow> Inl e
      | Inr _ \<Rightarrow>
          if failed_before then Inr None
          else Inr (Some (h_n h, signed_take_bit 63 (rpcTotal h - rpcs0 ts), signed_take_bit 63 (bytesTotal h - bytes0 ts), signed_take_bit 63 (maxIndex cfg - maxIndex0 ts))))"

section \<open>What agreement means\<close>

definition agreed :: "nat \<Rightarrow> int \<Rightarrow> 'c option \<Rightarrow> 'c config \<Rightarrow> bool" where
  "agreed k index cmd cfg \<longleftrightarrow> k \<le> length (filter (\<lambda>l. l index = Some cmd) (cfg_logs cfg)) \<and> (\<forall>l \<in> set (cfg_logs cfg). l index = None \<or> l index = Some cmd)"

lemma nCommitted_agreed:
  assumes "nCommitted index cfg = Inr (nd, cmd)" "k \<le> nd"
  shows "agreed k index cmd cfg"
proof -
  have s: "nd = length (filter (\<lambda>l. l index \<noteq> None) (cfg_logs cfg))" "\<forall>l \<in> set (cfg_logs cfg). l index \<noteq> None \<longrightarrow> l index = Some cmd"
    using nCommittedLoop_spec [OF assms(1) [unfolded nCommitted_def]] by simp_all
  have "filter (\<lambda>l. l index \<noteq> None) (cfg_logs cfg) = filter (\<lambda>l. l index = Some cmd) (cfg_logs cfg)"
    by (rule filter_cong) (use s(2) in auto)
  then show ?thesis using assms(2) s by (auto simp: agreed_def)
qed

lemma waitLoop_moved:
  "waitLoop index n startTerm obs = Inr True \<Longrightarrow> -1 < startTerm \<and> (\<exists>(cfg, terms) \<in> set obs. \<exists>t \<in> set terms. startTerm < t)"
proof (induction obs)
  case (Cons ob obs)
  then show ?case by (cases ob) (auto simp: list_ex_iff split: sum.splits if_splits)
qed simp

lemma nCommittedLoop_fails: "nCommittedLoop ls index k c = Inl e \<Longrightarrow> \<exists>c1 c2. e = ValuesDiffer index c1 c2 \<and> c1 \<noteq> c2"
  by (induction ls arbitrary: k c) (auto split: option.splits if_splits)

lemma nCommitted_fails: "nCommitted index cfg = Inl e \<Longrightarrow> \<exists>c1 c2. e = ValuesDiffer index c1 c2 \<and> c1 \<noteq> c2"
  unfolding nCommitted_def by (rule nCommittedLoop_fails)

lemma waitLoop_fails: "waitLoop index n startTerm obs = Inl e \<Longrightarrow> \<exists>c1 c2. e = ValuesDiffer index c1 c2 \<and> c1 \<noteq> c2"
proof (induction obs)
  case (Cons ob obs)
  then show ?case by (cases ob) (auto dest: nCommitted_fails split: sum.splits if_splits)
qed simp

text \<open>What \<open>wait\<close> returns can be relied on. A command is returned only if at least \<open>n\<close> servers have applied it at the index and no server another; \<open>-1\<close> only if a first term was given and a server was seen in a later one; and it fails
  only if fewer than \<open>n\<close> servers have applied the index or two servers applied different commands there.\<close>

theorem wait_verdict:
  "case wait index n startTerm obs cfg of
     Inr (Decided cmd) \<Rightarrow> agreed n index cmd cfg
   | Inr MovedOn \<Rightarrow> -1 < startTerm \<and> (\<exists>(cfg', terms) \<in> set (take 30 obs). \<exists>t \<in> set terms. startTerm < t)
   | Inl e \<Rightarrow> (\<exists>nd. e = OnlyDecided nd index n \<and> nd < n) \<or> (\<exists>c1 c2. e = ValuesDiffer index c1 c2 \<and> c1 \<noteq> c2)"
  using nCommitted_agreed [of index cfg _ _ n] waitLoop_moved [of index n startTerm "take 30 obs"]
  by (auto simp: wait_def dest: waitLoop_fails nCommitted_fails split: sum.split wait_result.split bool.split)

section \<open>Finding the leader\<close>

fun accepted :: "visit \<Rightarrow> int option" where
  "accepted (True, Some (index1, True)) = Some index1"
| "accepted _ = None"

lemma tryServers_Suc:
  "tryServers n (Suc k) starts vs =
     (case accepted (vs ! ((starts + 1) mod n)) of Some index1 \<Rightarrow> (index1, (starts + 1) mod n) | None \<Rightarrow> tryServers n k ((starts + 1) mod n) vs)"
  by (cases "vs ! ((starts + 1) mod n)" rule: accepted.cases) (auto simp: Let_def split: bool.split)

text \<open>The servers are visited in a circle, beginning after \<open>starts\<close>.\<close>

lemma tryServers_find:
  "tryServers n k starts vs =
     (case find (\<lambda>i. accepted (vs ! i) \<noteq> None) (map (\<lambda>j. (starts + 1 + j) mod n) [0 ..< k]) of
        Some i \<Rightarrow> (the (accepted (vs ! i)), i) | None \<Rightarrow> (-1, if k = 0 then starts else (starts + k) mod n))"
proof (induction k arbitrary: starts)
  case (Suc k)
  have shift: "map (\<lambda>j. ((starts + 1) mod n + 1 + j) mod n) [0 ..< k] = map (\<lambda>j. (starts + 1 + Suc j) mod n) [0 ..< k]"
    by (rule map_cong [OF refl]) (metis add.assoc add.commute add_Suc_right mod_add_left_eq plus_1_eq_Suc)
  have "map (\<lambda>j. (starts + 1 + j) mod n) [0 ..< Suc k] = (starts + 1) mod n # map (\<lambda>j. (starts + 1 + Suc j) mod n) [0 ..< k]"
    by (simp only: upt_conv_Cons [OF zero_less_Suc] map_Suc_upt [symmetric] list.map list.map_comp comp_def) simp
  then show ?case
    unfolding tryServers_Suc Suc.IH shift
    by (cases "accepted (vs ! ((starts + 1) mod n))") (auto simp: mod_Suc_eq mod_add_left_eq split: option.split)
qed simp

lemma circle:
  fixes starts n i :: nat
  assumes "starts < n" "i < n"
  shows "\<exists>j < n. (starts + 1 + j) mod n = i"
proof (cases "starts < i")
  case True
  then show ?thesis using assms by (intro exI [of _ "i - starts - 1"]) auto
next
  case False
  then show ?thesis using assms by (intro exI [of _ "i + n - starts - 1"]) auto
qed

text \<open>A round of visits finds a server that accepts the command if there is one.\<close>

lemma tryServers_complete:
  assumes "starts < n"
  shows "case tryServers n n starts vs of (index, s') \<Rightarrow> s' < n \<and>
    (if \<exists>i < n. accepted (vs ! i) \<noteq> None then accepted (vs ! s') = Some index else index = -1)"
proof (cases "find (\<lambda>i. accepted (vs ! i) \<noteq> None) (map (\<lambda>j. (starts + 1 + j) mod n) [0 ..< n])")
  case None
  have "accepted (vs ! i) = None" if "i < n" for i
  proof -
    obtain j where j: "j < n" "(starts + 1 + j) mod n = i" using circle [OF assms \<open>i < n\<close>] by blast
    then have "i \<in> set (map (\<lambda>j. (starts + 1 + j) mod n) [0 ..< n])" by force
    then show ?thesis using None unfolding find_None_iff by blast
  qed
  then show ?thesis using None assms by (simp add: tryServers_find)
next
  case (Some i)
  then have i: "i < n" "accepted (vs ! i) \<noteq> None" using assms by (auto simp: find_Some_iff)
  then show ?thesis using Some by (auto simp: tryServers_find)
qed


lemma pollAgreement_True:
  "pollAgreement k cmd index cfgs = Inr True \<Longrightarrow> \<exists>cfg \<in> set cfgs. agreed (max 1 k) index cmd cfg"
proof (induction cfgs)
  case (Cons cfg cfgs)
  show ?case
  proof (cases "nCommitted index cfg")
    case (Inr r)
    obtain nd cmd1 where r: "r = (nd, cmd1)" by (cases r)
    show ?thesis
    proof (cases "nd > 0 \<and> nd \<ge> k \<and> cmd1 = cmd")
      case True
      then show ?thesis using nCommitted_agreed [of index cfg nd cmd "max 1 k"] Inr r by auto
    next
      case False
      then have "pollAgreement k cmd index cfgs = Inr True" using Cons.prems Inr r by (simp split: if_splits)
      then show ?thesis using Cons.IH by auto
    qed
  qed (use Cons.prems in simp)
qed simp

lemma agreed_nCommitted:
  "agreed k index cmd cfg \<Longrightarrow> \<exists>nd. k \<le> nd \<and> (nd > 0 \<longrightarrow> nCommitted index cfg = Inr (nd, cmd)) \<and> (nd = 0 \<longrightarrow> nCommitted index cfg = Inr (0, None))"
proof -
  have "nCommittedLoop ls index c0 c = Inr (c0 + length (filter (\<lambda>l. l index = Some cmd) ls), if \<exists>l \<in> set ls. l index = Some cmd then cmd else c)"
    if "\<forall>l \<in> set ls. l index = None \<or> l index = Some cmd" "0 < c0 \<Longrightarrow> c = cmd" for ls c0 c
    using that
  proof (induction ls arbitrary: c0 c)
    case (Cons l ls)
    from Cons.prems(1) consider "l index = None" | "l index = Some cmd" by auto
    then show ?case
    proof cases
      case 1
      then show ?thesis using Cons.IH [of c0 c] Cons.prems by simp
    next
      case 2
      then show ?thesis using Cons.IH [of "c0 + 1" cmd] Cons.prems by (cases "c0 = 0") auto
    qed
  qed simp
  note loop = this [of "cfg_logs cfg" 0 None]
  assume a: "agreed k index cmd cfg"
  then have "nCommitted index cfg = Inr (length (filter (\<lambda>l. l index = Some cmd) (cfg_logs cfg)), if \<exists>l \<in> set (cfg_logs cfg). l index = Some cmd then cmd else None)"
    using loop by (simp add: agreed_def nCommitted_def)
  then show ?thesis using a
    by (intro exI [of _ "length (filter (\<lambda>l. l index = Some cmd) (cfg_logs cfg))"]) (auto simp: agreed_def filter_empty_conv)
qed

text \<open>No two servers differ at the index in what \<open>nCommitted\<close> sees.\<close>

lemma pollAgreement_finds:
  "\<forall>cfg \<in> set cfgs. agreed 0 index cmd cfg \<Longrightarrow> \<exists>cfg \<in> set cfgs. agreed (max 1 k) index cmd cfg \<Longrightarrow> pollAgreement k cmd index cfgs = Inr True"
proof (induction cfgs)
  case (Cons cfg cfgs)
  show ?case
  proof (cases "agreed (max 1 k) index cmd cfg")
    case True
    then obtain nd where "max 1 k \<le> nd" "nd > 0 \<longrightarrow> nCommitted index cfg = Inr (nd, cmd)" using agreed_nCommitted by blast
    then show ?thesis by auto
  next
    case False
    then have "pollAgreement k cmd index cfgs = Inr True" using Cons by simp
    moreover obtain nd c where "nCommitted index cfg = Inr (nd, c)" using agreed_nCommitted [of 0 index cmd cfg] Cons.prems(1) by force
    ultimately show ?thesis by simp
  qed
qed simp


lemma oneLoop_sound:
  assumes "starts < n" "oneLoop n cmd k retry starts rounds = Inr index"
  shows "\<exists>(vs, cfgs) \<in> set rounds. (\<exists>i < n. accepted (vs ! i) = Some index) \<and> (\<exists>cfg \<in> set cfgs. agreed (max 1 k) index cmd cfg)"
  using assms
proof (induction rounds arbitrary: starts)
  case (Cons ob rounds)
  obtain vs cfgs where ob: "ob = (vs, cfgs)" by (cases ob)
  obtain idx s' where t: "tryServers n n starts vs = (idx, s')" by (cases "tryServers n n starts vs")
  note c = tryServers_complete [OF Cons.prems(1), of vs, unfolded t prod.case]
  show ?case
  proof (cases "idx \<noteq> -1 \<and> pollAgreement k cmd idx cfgs = Inr True")
    case True
    then have "idx = index" using Cons.prems(2) t ob by simp
    moreover have "accepted (vs ! s') = Some idx" using c True by (auto split: if_splits)
    ultimately show ?thesis using pollAgreement_True [of k cmd idx cfgs] True c ob by auto
  next
    case False
    then have "oneLoop n cmd k retry s' rounds = Inr index" using Cons.prems(2) t ob by (auto split: sum.splits if_splits bool.splits)
    then show ?thesis using Cons.IH [of s'] c ob by auto
  qed
qed simp

text \<open>C13: \<open>one\<close> returns an index only if a connected server that claims to be the leader has taken the command at that index, and afterwards, at one moment, at least the expected number of servers, and at least one, have applied this command there while
  no server has applied another.\<close>

theorem one_agreement:
  assumes "one_agree n cmd expectedServers retry rounds = Inr index" "0 < n"
  shows "\<exists>(vs, cfgs) \<in> set rounds. (\<exists>i < n. vs ! i = (True, Some (index, True))) \<and> (\<exists>cfg \<in> set cfgs. agreed (max 1 expectedServers) index cmd cfg)"
proof -
  have acc: "v = (True, Some (index, True))" if "accepted v = Some index" for v using that by (cases v rule: accepted.cases) simp_all
  from oneLoop_sound [OF assms(2) assms(1) [unfolded one_agree_def]]
  obtain vs cfgs i where r: "(vs, cfgs) \<in> set rounds" "i < n" "accepted (vs ! i) = Some index" "\<exists>cfg \<in> set cfgs. agreed (max 1 expectedServers) index cmd cfg" by blast
  then show ?thesis using acc [OF r(3)] by blast
qed

text \<open>C14: \<open>one\<close> succeeds as soon as it can. If up to some round no connected server takes the command, in that round one does, all that might take it give the same index, and while it polls the servers never disagree and at some moment enough of them
  have applied the command, then \<open>one\<close> returns that index, with or without \<open>retry\<close> and whatever would follow.\<close>

theorem one_succeeds:
  assumes "0 < n" "\<forall>(vs, cfgs) \<in> set early. \<forall>i < n. accepted (vs ! i) = None" "\<exists>i < n. accepted (vs ! i) \<noteq> None"
    "\<forall>i < n. accepted (vs ! i) \<in> {None, Some index}" "index \<noteq> -1" "\<forall>cfg \<in> set cfgs. agreed 0 index cmd cfg" "\<exists>cfg \<in> set cfgs. agreed (max 1 expectedServers) index cmd cfg"
  shows "one_agree n cmd expectedServers retry (early @ (vs, cfgs) # later) = Inr index"
proof -
  have "oneLoop n cmd expectedServers retry starts (early @ (vs, cfgs) # later) = Inr index" if "starts < n" for starts
    using that assms(2)
  proof (induction early arbitrary: starts)
    case Nil
    obtain idx s' where t: "tryServers n n starts vs = (idx, s')" by (cases "tryServers n n starts vs")
    have s': "s' < n" "accepted (vs ! s') = Some idx" using tryServers_complete [OF Nil(1), of vs] t assms(3) by auto
    then have "idx = index" using assms(4) by force
    then show ?case using t assms(5) pollAgreement_finds [OF assms(6,7)] by simp
  next
    case (Cons ob early)
    obtain ws ds where ob: "ob = (ws, ds)" by (cases ob)
    obtain idx s' where t: "tryServers n n starts ws = (idx, s')" by (cases "tryServers n n starts ws")
    have "idx = -1" "s' < n" using tryServers_complete [OF Cons.prems(1), of ws] t Cons.prems(2) ob by auto
    then show ?case using Cons.IH [of s'] Cons.prems(2) t ob by simp
  qed
  from this [OF assms(1)] show ?thesis by (simp add: one_agree_def)
qed


section \<open>Counting requests\<close>

fun isCall :: "('e, 's, 'v) net_event \<Rightarrow> bool" where
  "isCall (Call taken e meth v) \<longleftrightarrow> True"
| "isCall _ \<longleftrightarrow> False"

lemma admin_count:
  assumes "admin_exec a rn = Inr rn'" "a \<noteq> ACleanup"
  shows "net_count rn' = net_count rn \<and> net_done rn' = net_done rn"
  using assms by (cases a) (auto simp: Reliable_def LongReordering_def LongDelays_def MakeEnd_def AddServer_def DeleteServer_def Connect_def Enable_def split: if_splits)

lemma net_exec_count:
  assumes "net_exec cd ev s = Inr s'" "\<not> net_done (net s)" "ev \<noteq> Admin ACleanup"
  shows "net_count (net s') = net_count (net s) + (if isCall ev then 1 else 0) \<and> \<not> net_done (net s')"
proof (cases ev)
  case (Admin a)
  then obtain rn where "admin_exec a (net s) = Inr rn" "s' = s\<lparr>net := rn\<rparr>" using assms(1) by (auto simp: go_bind_def split: sum.splits)
  then show ?thesis using admin_count [of a "net s" rn] assms Admin by simp
next
  case (Handle i)
  then show ?thesis using assms by (auto simp: handleReq_def go_bind_def split: handler.splits sum.splits if_splits)
qed (use assms in \<open>auto simp: startCall_def Let_def finishReq_def fireReq_def split: phase.splits handler.splits if_splits\<close>)

lemma net_run_count:
  "net_run cd evs s = Inr s' \<Longrightarrow> \<not> net_done (net s) \<Longrightarrow> Admin ACleanup \<notin> set evs \<Longrightarrow> net_count (net s') = net_count (net s) + of_nat (length (filter isCall evs))"
proof (induction evs arbitrary: s)
  case (Cons ev evs)
  then obtain s1 where s1: "net_exec cd ev s = Inr s1" "net_run cd evs s1 = Inr s'" by (auto simp: go_bind_def split: sum.splits)
  then show ?case using Cons.IH [OF s1(2)] net_exec_count [OF s1(1)] Cons.prems by auto
qed simp

text \<open>The number of requests that \<open>end\<close> reports is the number of calls made since \<open>begin\<close>, successful or not, as long as the network has not been closed and has not seen \<open>2 ^ 31\<close> calls in all.\<close>

theorem end_reports_calls:
  assumes "net_run cd evs s = Inr s'" "\<not> net_done (net s)" "Admin ACleanup \<notin> set evs" "h_net h = net s" "h_net h' = net s'"
    "unat (net_count (net s)) + length (filter isCall evs) < 2 ^ 31"
  shows "\<exists>bytes cmds. end_test False False h' cfg' (begin_test h cfg) = Inr (Some (h_n h', int (length (filter isCall evs)), bytes, cmds))"
proof -
  let ?k = "length (filter isCall evs)" let ?c = "net_count (net s)"
  have c': "net_count (net s') = ?c + of_nat ?k" by (rule net_run_count [OF assms(1-3)])
  have k: "unat (of_nat ?k :: 32 word) = ?k" using assms(6) by (simp add: unat_of_nat)
  have u': "unat (?c + of_nat ?k) = unat ?c + ?k" using assms(6) k by (subst unat_add_lem [THEN iffD1]) simp_all
  have small: "sint w = int (unat w)" if "unat w < 2 ^ 31" for w :: "32 word"
  proof -
    have w: "int (unat w) = uint w" by simp
    have "int (unat w) < int (2 ^ 31)" using that by (simp only: of_nat_less_iff)
    then have "uint w < 2 ^ 31" unfolding w by simp
    moreover have "- (2 ^ 31) \<le> uint w" by (rule order_trans [OF _ uint_ge_0]) simp
    ultimately have "signed_take_bit 31 (uint w) = uint w" by (intro signed_take_bit_int_eq_self)
    then show ?thesis unfolding w by (simp add: sint_uint)
  qed
  have "rpcTotal h' - rpcTotal h = int ?k"
    using small [of ?c] small [of "?c + of_nat ?k"] assms(4-6) c' u' by (simp add: rpcTotal_def GetTotalCount_def)
  moreover have "signed_take_bit 63 (int ?k) = int ?k" using assms(6) by (intro signed_take_bit_int_eq_self) auto
  ultimately show ?thesis by (simp add: end_test_def begin_test_def checkTimeout_def)
qed


section \<open>Examples\<close>

definition sampleCfg :: "nat config" where
  "sampleCfg = \<lparr>connected = [True, True, True], cfg_logs = [[1 \<mapsto> Some 7], [1 \<mapsto> Some 7], Map.empty], maxIndex = 1\<rparr>"

definition sampleRounds :: "(visit list \<times> nat config list) list" where
  "sampleRounds = [([(True, Some (-1, False)), (False, None), (True, Some (-1, False))], []), ([(True, Some (-1, False)), (False, None), (True, Some (1, True))], [sampleCfg])]"

theorem one_agreement_witness:
  "one_agree 3 (Some 7) 2 False sampleRounds = Inr 1 \<and> (\<exists>(vs, cfgs) \<in> set sampleRounds. \<exists>cfg \<in> set cfgs. agreed 2 1 (Some 7) cfg)"
proof -
  have one: "one_agree 3 (Some 7) 2 False sampleRounds = Inr 1" by code_simp
  obtain vs cfgs cfg where "(vs, cfgs) \<in> set sampleRounds" "cfg \<in> set cfgs" "agreed 2 1 (Some 7) cfg" using one_agreement [OF one] by (auto simp: max_def)
  then have "\<exists>(vs, cfgs) \<in> set sampleRounds. \<exists>cfg \<in> set cfgs. agreed 2 1 (Some 7) cfg" by (intro bexI [of _ "(vs, cfgs)"]) auto
  with one show ?thesis by blast
qed

theorem one_succeeds_witness: "one_agree 3 (Some 7) 2 True sampleRounds = Inr 1"
proof -
  let ?vs = "[(True, Some (-1, False)), (False, None), (True, Some (1 :: int, True))]"
  have e: "sampleRounds = [([(True, Some (-1, False)), (False, None), (True, Some (-1, False))], [])] @ (?vs, [sampleCfg]) # []" by (simp add: sampleRounds_def)
  show ?thesis
    unfolding e
  proof (rule one_succeeds)
    show "\<exists>i < 3. accepted (?vs ! i) \<noteq> None" by (intro exI [of _ 2]) simp
    show "\<forall>i < 3. accepted (?vs ! i) \<in> {None, Some 1}" by (auto simp: eval_nat_numeral less_Suc_eq)
    show "\<forall>(vs, cfgs) \<in> set [([(True, Some (-1, False)), (False, None), (True, Some (-1, False))], [])]. \<forall>i < 3. accepted (vs ! i) = None"
      by (auto simp: eval_nat_numeral less_Suc_eq)
  qed (simp_all add: agreed_def sampleCfg_def)
qed

theorem end_reports_calls_witness:
  "\<exists>s' bytes cmds. net_run plainCodec [Call False ''a'' ''S.Echo'' ''xy'', Begin 0 False, Call False ''b'' ''S.Echo'' ''z''] \<lparr>net = MakeNetwork, heap = (\<lambda>_. sampleServer), state = 0, calls = []\<rparr> = Inr s' \<and>
     end_test False False ((emptyConfig 3 False)\<lparr>h_net := net s'\<rparr>) sampleCfg (begin_test ((emptyConfig 3 False)\<lparr>h_net := MakeNetwork\<rparr>) sampleCfg) = Inr (Some (3, 2, bytes, cmds))"
proof -
  let ?evs = "[Call False ''a'' ''S.Echo'' ''xy'', Begin 0 False, Call False ''b'' ''S.Echo'' ''z''] :: (string, nat, string) net_event list"
  let ?s = "\<lparr>net = MakeNetwork, heap = (\<lambda>_. sampleServer), state = 0, calls = []\<rparr> :: (string, nat, string, nat) sys"
  obtain s' where s': "net_run plainCodec ?evs ?s = Inr s'" by simp
  let ?h = "(emptyConfig 3 False)\<lparr>h_net := MakeNetwork\<rparr>" let ?h' = "(emptyConfig 3 False)\<lparr>h_net := net s'\<rparr>"
  have "\<exists>bytes cmds. end_test False False ?h' sampleCfg (begin_test ?h sampleCfg) = Inr (Some (h_n ?h', int (length (filter isCall ?evs)), bytes, cmds))"
    by (rule end_reports_calls [OF s']) (simp_all add: MakeNetwork_def)
  then show ?thesis using s' by (simp add: emptyConfig_def)
qed

end
