(* ===== verification/Labgob.thy ===== *)
theory Labgob
  imports Lab_Prelude
begin

text \<open>
  \<open>lab3/lab3/labgob/labgob.go\<close>: the checks around \<open>encoding/gob\<close>.

  A type is a number, and a table gives its structure, as \<open>reflect.Type\<close> does; so types may refer to themselves. \<open>checkType\<close> recurses over that graph. Its recursion is bounded by fuel, one unit
  per nested call; one more than the number of types that are not yet checked is enough. The global variables \<open>checked\<close> and \<open>errorCount\<close> are a record. Printing is not modelled, but what \<open>checkDefault\<close> would
  print is.

  \<open>gob\<close> is a library: a record of its operations.
\<close>

section \<open>Types\<close>

datatype rtype =
    RStruct "(string \<times> nat) list"     \<comment> \<open>fields: name and type\<close>
  | RSlice nat
  | RArray nat
  | RPtr nat
  | RMap nat nat                        \<comment> \<open>key and element\<close>
  | RBasic

type_synonym types = "nat \<Rightarrow> rtype"

record labgob =
  checked :: "nat set"
  errorCount :: nat

definition initGob :: labgob where
  "initGob = \<lparr>checked = {}, errorCount = 0\<rparr>"

text \<open>\<open>unicode.IsUpper\<close> of the first character; the model has ASCII names.\<close>

definition isUpperName :: "string \<Rightarrow> bool" where
  "isUpperName name = (case name of [] \<Rightarrow> False | ch # _ \<Rightarrow> 65 \<le> (of_char ch :: nat) \<and> (of_char ch :: nat) \<le> 90)"

definition countField :: "string \<Rightarrow> labgob \<Rightarrow> labgob" where
  "countField name g = (if \<not> isUpperName name then g\<lparr>errorCount := errorCount g + 1\<rparr> else g)"

fun checkType :: "nat \<Rightarrow> types \<Rightarrow> nat \<Rightarrow> labgob \<Rightarrow> labgob option"
  and checkFields :: "nat \<Rightarrow> types \<Rightarrow> (string \<times> nat) list \<Rightarrow> labgob \<Rightarrow> labgob option" where
  "checkType 0 types t g = None"
| "checkType (Suc n) types t g =
     (if t \<in> checked g then Some g
      else let g = g\<lparr>checked := insert t (checked g)\<rparr> in
        case types t of
          RStruct fs \<Rightarrow> checkFields n types fs g
        | RSlice e \<Rightarrow> checkType n types e g
        | RArray e \<Rightarrow> checkType n types e g
        | RPtr e \<Rightarrow> checkType n types e g
        | RMap k e \<Rightarrow> (case checkType n types e g of None \<Rightarrow> None | Some g \<Rightarrow> checkType n types k g)
        | RBasic \<Rightarrow> Some g)"
| "checkFields n types [] g = Some g"
| "checkFields n types ((name, t) # fs) g =
     (case checkType n types t (countField name g) of None \<Rightarrow> None | Some g \<Rightarrow> checkFields n types fs g)"

text \<open>What a type refers to, and how many of its fs start with a lower-case letter.\<close>

definition children :: "rtype \<Rightarrow> nat set" where
  "children r = (case r of RStruct fs \<Rightarrow> snd ` set fs | RSlice e \<Rightarrow> {e} | RArray e \<Rightarrow> {e} | RPtr e \<Rightarrow> {e} | RMap k e \<Rightarrow> {k, e} | RBasic \<Rightarrow> {})"

definition badFields :: "rtype \<Rightarrow> nat" where
  "badFields r = (case r of RStruct fs \<Rightarrow> length (filter (\<lambda>f. \<not> isUpperName (fst f)) fs) | _ \<Rightarrow> 0)"

inductive reachable :: "types \<Rightarrow> nat \<Rightarrow> nat \<Rightarrow> bool" for types t where
  self: "reachable types t t"
| child: "reachable types t u \<Longrightarrow> v \<in> children (types u) \<Longrightarrow> reachable types t v"

section \<open>The traversal\<close>

text \<open>What a call of \<open>checkType\<close> for the types \<open>ts\<close> achieves: nothing is unchecked again, only types reachable from \<open>ts\<close> are checked, those in \<open>ts\<close> are, the types newly checked have their children checked, and
  \<open>bad\<close> and the lower-case fs of the types newly checked are counted, once.\<close>

definition visited :: "types \<Rightarrow> nat set \<Rightarrow> nat \<Rightarrow> labgob \<Rightarrow> labgob \<Rightarrow> bool" where
  "visited types ts bad g g' \<longleftrightarrow> checked g \<subseteq> checked g' \<and> ts \<subseteq> checked g' \<and> finite (checked g' - checked g) \<and>
     (\<forall>u \<in> checked g' - checked g. (\<exists>t \<in> ts. reachable types t u) \<and> children (types u) \<subseteq> checked g') \<and>
     errorCount g' = errorCount g + bad + (\<Sum>u \<in> checked g' - checked g. badFields (types u))"

lemma visited_refl: "ts \<subseteq> checked g \<Longrightarrow> visited types ts 0 g g"
  by (simp add: visited_def)

lemma visited_trans:
  assumes "visited types ts1 bad1 g g1" "visited types ts2 bad2 g1 g2"
  shows "visited types (ts1 \<union> ts2) (bad1 + bad2) g g2"
proof -
  have split: "checked g2 - checked g = (checked g1 - checked g) \<union> (checked g2 - checked g1)" "(checked g1 - checked g) \<inter> (checked g2 - checked g1) = {}"
    using assms by (auto simp: visited_def)
  have "(\<Sum>u \<in> checked g2 - checked g. badFields (types u)) =
      (\<Sum>u \<in> checked g1 - checked g. badFields (types u)) + (\<Sum>u \<in> checked g2 - checked g1. badFields (types u))"
    unfolding split(1) by (rule sum.union_disjoint) (use assms split(2) in \<open>auto simp: visited_def\<close>)
  moreover have "(\<exists>t \<in> ts1 \<union> ts2. reachable types t u) \<and> children (types u) \<subseteq> checked g2" if "u \<in> checked g2 - checked g" for u
  proof (cases "u \<in> checked g1")
    case True
    then have "(\<exists>t \<in> ts1. reachable types t u) \<and> children (types u) \<subseteq> checked g1" using assms(1) that by (simp add: visited_def)
    then show ?thesis using assms(2) by (auto simp: visited_def)
  next
    case False
    then have "(\<exists>t \<in> ts2. reachable types t u) \<and> children (types u) \<subseteq> checked g2" using assms(2) that by (simp add: visited_def)
    then show ?thesis by auto
  qed
  ultimately show ?thesis using assms split(1) by (auto simp: visited_def)
qed

lemma visited_count: "visited types ts bad (countField name g) g' \<Longrightarrow> visited types ts (bad + (if isUpperName name then 0 else 1)) g g'"
  by (auto simp: visited_def countField_def split: if_splits)

lemma reachable_trans: "reachable types u v \<Longrightarrow> reachable types t u \<Longrightarrow> reachable types t v"
  by (induction rule: reachable.induct) (auto intro: reachable.child)

lemma visited_enter:
  assumes "t \<notin> checked g" "visited types (children (types t)) (badFields (types t)) (g\<lparr>checked := insert t (checked g)\<rparr>) g'"
  shows "visited types {t} 0 g g'"
proof -
  let ?new = "checked g' - insert t (checked g)"
  have v: "insert t (checked g) \<subseteq> checked g'" "children (types t) \<subseteq> checked g'" "finite ?new"
      "\<And>u. u \<in> ?new \<Longrightarrow> (\<exists>c \<in> children (types t). reachable types c u) \<and> children (types u) \<subseteq> checked g'"
      "errorCount g' = errorCount g + badFields (types t) + (\<Sum>u \<in> ?new. badFields (types u))"
    using assms(2) by (auto simp: visited_def)
  have new: "checked g' - checked g = insert t ?new" using v(1) assms(1) by auto
  have re: "reachable types t u \<and> children (types u) \<subseteq> checked g'" if "u \<in> checked g' - checked g" for u
  proof (cases "u = t")
    case True
    then show ?thesis using v(2) by (auto intro: reachable.self)
  next
    case False
    with that have "u \<in> ?new" by blast
    then obtain c where "c \<in> children (types t)" "reachable types c u" "children (types u) \<subseteq> checked g'" using v(4) by blast
    then show ?thesis using reachable_trans [of types c u t] reachable.child [OF reachable.self] by blast
  qed
  have sum: "(\<Sum>u \<in> checked g' - checked g. badFields (types u)) = badFields (types t) + (\<Sum>u \<in> ?new. badFields (types u))"
    unfolding new using v(3) by simp
  have fin: "finite (checked g' - checked g)" unfolding new using v(3) by simp
  show ?thesis unfolding visited_def
  proof (intro conjI ballI)
    show "errorCount g' = errorCount g + 0 + (\<Sum>u \<in> checked g' - checked g. badFields (types u))" unfolding sum using v(5) by simp
  qed (use v(1) fin re in auto)
qed

text \<open>\<open>closed\<close>: a set of types contains what its members refer to.\<close>

definition closed :: "types \<Rightarrow> nat set \<Rightarrow> bool" where
  "closed types U \<longleftrightarrow> finite U \<and> (\<forall>u \<in> U. children (types u) \<subseteq> U)"

lemma card_enter:
  assumes "closed types U" "t \<in> U" "t \<notin> checked g" "card (U - checked g) < Suc n"
  shows "card (U - checked (g\<lparr>checked := insert t (checked g)\<rparr>)) < n"
proof -
  have "U - insert t (checked g) \<subset> U - checked g" using assms(2,3) by auto
  then have "card (U - insert t (checked g)) < card (U - checked g)" using assms(1) by (simp add: closed_def psubset_card_mono)
  then show ?thesis using assms(4) by simp
qed

lemma card_later:
  assumes "closed types U" "checked g \<subseteq> checked g'" "card (U - checked g) < n"
  shows "card (U - checked g') < n"
proof -
  have "card (U - checked g') \<le> card (U - checked g)" using assms(1,2) by (intro card_mono) (auto simp: closed_def)
  then show ?thesis using assms(3) by simp
qed

lemma check_visits:
  assumes "closed types U"
  shows "t \<in> U \<Longrightarrow> card (U - checked g) < n \<Longrightarrow> \<exists>g'. checkType n types t g = Some g' \<and> visited types {t} 0 g g'"
    "snd ` set fs \<subseteq> U \<Longrightarrow> card (U - checked g) < n \<Longrightarrow>
      \<exists>g'. checkFields n types fs g = Some g' \<and> visited types (snd ` set fs) (length (filter (\<lambda>f. \<not> isUpperName (fst f)) fs)) g g'"
  using assms
proof (induction n types t g and n types fs g rule: checkType_checkFields.induct)
  case (2 n types t g)
  let ?g = "g\<lparr>checked := insert t (checked g)\<rparr>"
  show ?case
  proof (cases "t \<in> checked g")
    case True
    then show ?thesis by (simp add: visited_refl)
  next
    case False
    have ch: "children (types t) \<subseteq> U" using "2.prems" by (auto simp: closed_def)
    have cd: "card (U - checked ?g) < n" using card_enter [OF "2.prems"(3,1) False "2.prems"(2)] .
    have "\<exists>g'. checkType (Suc n) types t g = Some g' \<and> visited types (children (types t)) (badFields (types t)) ?g g'"
    proof (cases "types t")
      case (RStruct fs)
      with "2.IH"(1) [OF False refl RStruct] ch cd "2.prems"(3) False show ?thesis by (simp add: children_def badFields_def)
    next
      case (RMap k e)
      obtain g1 where g1: "checkType n types e ?g = Some g1" "visited types {e} 0 ?g g1"
        using "2.IH"(5) [OF False refl RMap] ch cd "2.prems"(3) RMap by (auto simp: children_def)
      have "card (U - checked g1) < n" using card_later [OF "2.prems"(3) _ cd, of g1] g1(2) by (auto simp: visited_def)
      then obtain g2 where "checkType n types k g1 = Some g2" "visited types {k} 0 g1 g2"
        using "2.IH"(6) [OF False refl RMap g1(1)] ch "2.prems"(3) RMap by (auto simp: children_def)
      with g1 False RMap visited_trans [OF g1(2)] show ?thesis by (fastforce simp: children_def badFields_def insert_commute)
    qed (use "2.IH"(2-4) [OF False refl] ch cd "2.prems"(3) False in \<open>auto simp: children_def badFields_def visited_refl\<close>)
    then show ?thesis using visited_enter [OF False] by blast
  qed
next
  case (4 n types name t fs g)
  have "card (U - checked (countField name g)) < n" using "4.prems"(2) by (simp add: countField_def)
  then obtain g1 where g1: "checkType n types t (countField name g) = Some g1" "visited types {t} 0 (countField name g) g1"
    using "4.IH"(1) "4.prems" by auto
  have v1: "visited types {t} (0 + (if isUpperName name then 0 else 1)) g g1" by (rule visited_count [OF g1(2)])
  then have "card (U - checked g1) < n" using card_later [OF "4.prems"(3) _ "4.prems"(2), of g1] by (auto simp: visited_def)
  then obtain g2 where "checkFields n types fs g1 = Some g2" "visited types (snd ` set fs) (length (filter (\<lambda>f. \<not> isUpperName (fst f)) fs)) g1 g2"
    using "4.IH"(2) [OF g1(1)] "4.prems" by auto
  with g1(1) visited_trans [OF v1] show ?case by fastforce
qed (simp_all add: visited_refl)

text \<open>C15: The check of a type ends and is complete, for types that refer to themselves too. If finitely many types are reachable, then \<open>checkType\<close>, with fuel for one more than the types not yet checked, returns; if moreover the types already checked
  have their children checked, then afterwards exactly those and the types reachable from the argument are checked, and each lower-case field of a type newly checked has been counted once.\<close>

theorem checkType_complete:
  assumes "closed types U" "t \<in> U" "\<forall>u \<in> checked g. children (types u) \<subseteq> checked g"
  shows "\<exists>g'. checkType (Suc (card (U - checked g))) types t g = Some g' \<and> checked g' = checked g \<union> {u. reachable types t u} \<and>
    errorCount g' = errorCount g + (\<Sum>u \<in> {u. reachable types t u} - checked g. badFields (types u))"
proof -
  obtain g' where g': "checkType (Suc (card (U - checked g))) types t g = Some g'" "visited types {t} 0 g g'"
    using check_visits(1) [OF assms(1,2), of g "Suc (card (U - checked g))"] by auto
  have "u \<in> checked g'" if "reachable types t u" for u
    using that
  proof induction
    case self
    then show ?case using g'(2) by (simp add: visited_def)
  next
    case (child u v)
    then show ?case using g'(2) assms(3) by (cases "u \<in> checked g") (auto simp: visited_def)
  qed
  then have c: "checked g' = checked g \<union> {u. reachable types t u}" using g'(2) by (auto simp: visited_def)
  then have "checked g' - checked g = {u. reachable types t u} - checked g" by auto
  then show ?thesis using g' c by (auto simp: visited_def)
qed

text \<open>A list type: a struct with a field of its own type.\<close>

definition listType :: types where
  "listType t = (if t = 0 then RStruct [(''Val'', 1), (''next'', 2)] else if t = 2 then RPtr 0 else RBasic)"

theorem checkType_complete_witness: "\<exists>g'. checkType 4 listType 0 initGob = Some g' \<and> errorCount g' = 1 + errorCount initGob"
proof -
  have cl: "closed listType {0, 1, 2}" by (simp add: closed_def listType_def children_def)
  have r: "{u. reachable listType 0 u} = {0, 1, 2}"
  proof (intro equalityI subsetI)
    fix u
    assume "u \<in> {u. reachable listType 0 u}"
    then have "reachable listType 0 u" by simp
    then show "u \<in> {0, 1, 2}" by induction (auto simp: listType_def children_def split: if_splits)
  next
    fix u :: nat
    have "reachable listType 0 1" "reachable listType 0 2"
      by (rule reachable.child [OF reachable.self], simp add: listType_def children_def)+
    moreover assume "u \<in> {0, 1, 2}"
    ultimately show "u \<in> {u. reachable listType 0 u}" by (auto intro: reachable.self)
  qed
  have b: "(\<Sum>u \<in> {0, 1, 2}. badFields (listType u)) = 1" by (simp add: listType_def badFields_def isUpperName_def)
  have f: "Suc (card ({0, 1, 2} - checked initGob)) = 4" by (simp add: initGob_def)
  have h: "0 \<in> {0, 1, 2 :: nat}" "\<forall>u \<in> checked initGob. children (listType u) \<subseteq> checked initGob" by (simp_all add: initGob_def)
  obtain g' where g': "checkType 4 listType 0 initGob = Some g'" "errorCount g' = errorCount initGob + (\<Sum>u \<in> {0, 1, 2} - checked initGob. badFields (listType u))"
    using checkType_complete [OF cl h] unfolding r f by blast
  have "{0, 1, 2} - checked initGob = {0, 1, 2}" by (simp add: initGob_def)
  then have "errorCount g' = 1 + errorCount initGob" using g'(2) b by simp
  with g'(1) show ?thesis by blast
qed

section \<open>Values to decode into\<close>

text \<open>What \<open>checkDefault1\<close> sees of a value: a basic value is its type's name and whether it is the zero value of the type; slices, maps and interfaces are \<open>VOther\<close>. A field has its name, whether it
  is embedded, and its value.\<close>

datatype gval =
    VStruct "(string \<times> bool \<times> gval) list"
  | VPtr "gval option"
  | VBasic string bool
  | VOther

text \<open>\<open>reflect\<close> remembers of a value whether it was reached through a field that is not exported. \<open>Value.Field\<close> marks the value of such a field, for an embedded field until the next field is taken, otherwise
  for all that is reached from there; \<open>Value.Elem\<close> keeps the mark, and \<open>Value.Interface\<close> panics on a marked value.\<close>

datatype rflag = Exported | EmbedRO | StickyRO

definition fieldFlag :: "rflag \<Rightarrow> string \<Rightarrow> bool \<Rightarrow> rflag" where
  "fieldFlag flag field embedded =
     (if flag = StickyRO then StickyRO
      else if isUpperName field then Exported
      else if embedded then EmbedRO else StickyRO)"

definition valueInterface :: "rflag \<Rightarrow> bool \<Rightarrow> bool go" where
  "valueInterface flag isZero =
     (if flag \<noteq> Exported then Inl (ExplicitPanic ''reflect.Value.Interface: cannot return value obtained from unexported field or method'') else Inr isZero)"

definition fieldName :: "string \<Rightarrow> string \<Rightarrow> string" where
  "fieldName name field = (if name \<noteq> [] then name @ ''.'' @ field else field)"

text \<open>The second component of the result collects the names in the warnings that are printed.\<close>

fun checkDefault1 :: "gval \<Rightarrow> rflag \<Rightarrow> nat \<Rightarrow> string \<Rightarrow> labgob \<times> string list \<Rightarrow> (labgob \<times> string list) go"
  and checkDefaultFields :: "(string \<times> bool \<times> gval) list \<Rightarrow> rflag \<Rightarrow> nat \<Rightarrow> string \<Rightarrow> labgob \<times> string list \<Rightarrow> (labgob \<times> string list) go" where
  "checkDefault1 (VStruct fs) flag depth name gw = (if depth > 3 then Inr gw else checkDefaultFields fs flag depth name gw)"
| "checkDefault1 (VPtr None) flag depth name gw = Inr gw"
| "checkDefault1 (VPtr (Some v)) flag depth name gw = (if depth > 3 then Inr gw else checkDefault1 v flag (depth + 1) name gw)"
| "checkDefault1 (VBasic t isZero) flag depth name (g, ws) =
     (if depth > 3 then Inr (g, ws)
      else go_bind (valueInterface flag isZero) (\<lambda>isZero.
        if isZero then Inr (g, ws)
        else Inr (g\<lparr>errorCount := errorCount g + 1\<rparr>, if errorCount g < 1 then ws @ [if name = [] then t else name] else ws)))"
| "checkDefault1 VOther flag depth name gw = Inr gw"
| "checkDefaultFields [] flag depth name gw = Inr gw"
| "checkDefaultFields ((field, embedded, v) # fs) flag depth name gw =
     go_bind (checkDefault1 v (fieldFlag flag field embedded) (depth + 1) (fieldName name field) gw) (checkDefaultFields fs flag depth name)"

definition checkDefault :: "gval option \<Rightarrow> labgob \<Rightarrow> (labgob \<times> string list) go" where
  "checkDefault value g = (case value of None \<Rightarrow> Inr (g, []) | Some v \<Rightarrow> checkDefault1 v Exported 1 [] (g, []))"

section \<open>Encoders and decoders\<close>

record 'v gob =
  TypeOf :: "'v \<Rightarrow> nat"
  ValueOf :: "'v \<Rightarrow> gval option"
  gobEncode :: "'v \<Rightarrow> string option"
  gobDecode :: "string \<Rightarrow> 'v \<Rightarrow> 'v option"

definition checkValue :: "nat \<Rightarrow> types \<Rightarrow> 'v gob \<Rightarrow> 'v \<Rightarrow> labgob \<Rightarrow> labgob option" where
  "checkValue n types lib value g = checkType n types (TypeOf lib value) g"

definition Encode :: "nat \<Rightarrow> types \<Rightarrow> 'v gob \<Rightarrow> 'v \<Rightarrow> labgob \<Rightarrow> (string option \<times> labgob) option" where
  "Encode n types lib e g = map_option (\<lambda>g. (gobEncode lib e, g)) (checkValue n types lib e g)"

definition EncodeValue :: "nat \<Rightarrow> types \<Rightarrow> 'v gob \<Rightarrow> 'v \<Rightarrow> labgob \<Rightarrow> (string option \<times> labgob) option" where
  "EncodeValue n types lib value g = map_option (\<lambda>g. (gobEncode lib value, g)) (checkValue n types lib value g)"

definition Decode :: "nat \<Rightarrow> types \<Rightarrow> 'v gob \<Rightarrow> string \<Rightarrow> 'v \<Rightarrow> labgob \<Rightarrow> ('v option \<times> labgob \<times> string list) go option" where
  "Decode n types lib bytes e g =
     map_option (\<lambda>g. go_bind (checkDefault (ValueOf lib e) g) (\<lambda>(g, ws). Inr (gobDecode lib bytes e, g, ws))) (checkValue n types lib e g)"

definition Register :: "nat \<Rightarrow> types \<Rightarrow> 'v gob \<Rightarrow> 'v \<Rightarrow> labgob \<Rightarrow> labgob option" where
  "Register n types lib value g = checkValue n types lib value g"

definition RegisterName :: "nat \<Rightarrow> types \<Rightarrow> 'v gob \<Rightarrow> string \<Rightarrow> 'v \<Rightarrow> labgob \<Rightarrow> labgob option" where
  "RegisterName n types lib name value g = checkValue n types lib value g"

section \<open>The warnings\<close>

text \<open>How many basic values down to the given depth are not zero, and whether a basic value there is hidden behind a field that is not exported.\<close>

fun nonDefault :: "nat \<Rightarrow> gval \<Rightarrow> nat" where
  "nonDefault 0 v = 0"
| "nonDefault (Suc n) (VStruct fs) = (\<Sum>f \<leftarrow> fs. nonDefault n (snd (snd f)))"
| "nonDefault (Suc n) (VPtr None) = 0"
| "nonDefault (Suc n) (VPtr (Some v)) = nonDefault n v"
| "nonDefault (Suc n) (VBasic t isZero) = (if isZero then 0 else 1)"
| "nonDefault (Suc n) VOther = 0"

fun hidden :: "nat \<Rightarrow> rflag \<Rightarrow> gval \<Rightarrow> bool" where
  "hidden 0 flag v = False"
| "hidden (Suc n) flag (VStruct fs) = (\<exists>f \<in> set fs. hidden n (fieldFlag flag (fst f) (fst (snd f))) (snd (snd f)))"
| "hidden (Suc n) flag (VPtr None) = False"
| "hidden (Suc n) flag (VPtr (Some v)) = hidden n flag v"
| "hidden (Suc n) flag (VBasic t isZero) = (flag \<noteq> Exported)"
| "hidden (Suc n) flag VOther = False"

text \<open>\<open>warned k gw gw'\<close>: \<open>k\<close> errors have been counted, and one warning printed if the first of all errors is among them.\<close>

definition warned :: "nat \<Rightarrow> labgob \<times> string list \<Rightarrow> labgob \<times> string list \<Rightarrow> bool" where
  "warned k gw gw' \<longleftrightarrow> fst gw' = (fst gw)\<lparr>errorCount := errorCount (fst gw) + k\<rparr> \<and>
     length (snd gw') = length (snd gw) + (if errorCount (fst gw) = 0 \<and> 0 < k then 1 else 0)"

lemma warned_0 [simp]: "warned 0 gw gw"
  by (simp add: warned_def)

lemma warned_trans: "warned k gw gw1 \<Longrightarrow> warned l gw1 gw2 \<Longrightarrow> warned (k + l) gw gw2"
  by (auto simp: warned_def split: if_splits)

text \<open>\<open>outcome bad k gw r\<close>: a call of \<open>checkDefault1\<close> panics if \<open>bad\<close> and otherwise returns with \<open>k\<close> errors counted.\<close>

definition outcome :: "bool \<Rightarrow> nat \<Rightarrow> labgob \<times> string list \<Rightarrow> (labgob \<times> string list) go \<Rightarrow> bool" where
  "outcome bad k gw r \<longleftrightarrow> (if bad then (\<exists>msg. r = Inl (ExplicitPanic msg)) else (\<exists>gw'. r = Inr gw' \<and> warned k gw gw'))"

lemma outcome_0 [simp]: "outcome False 0 gw (Inr gw)"
  by (simp add: outcome_def)

lemma outcome_bind:
  assumes "outcome bad1 k gw r" "\<And>gw1. r = Inr gw1 \<Longrightarrow> outcome bad2 l gw1 (f gw1)"
  shows "outcome (bad1 \<or> bad2) (k + l) gw (go_bind r f)"
proof (cases bad1)
  case True
  then show ?thesis using assms(1) by (auto simp: outcome_def)
next
  case False
  then obtain gw1 where gw1: "r = Inr gw1" "warned k gw gw1" using assms(1) by (auto simp: outcome_def)
  show ?thesis
  proof (cases bad2)
    case True
    then show ?thesis using assms(2) [OF gw1(1)] gw1(1) by (auto simp: outcome_def)
  next
    case bad2: False
    then obtain gw2 where "f gw1 = Inr gw2" "warned l gw1 gw2" using assms(2) [OF gw1(1)] by (auto simp: outcome_def)
    then show ?thesis using gw1 False bad2 warned_trans [OF gw1(2)] by (simp add: outcome_def)
  qed
qed

lemma depth_Suc: "\<not> depth > 3 \<Longrightarrow> 4 - depth = Suc (4 - (depth + 1 :: nat))"
  by simp

lemma checkDefault1_outcome:
  "outcome (hidden (4 - depth) flag v) (nonDefault (4 - depth) v) gw (checkDefault1 v flag depth name gw)"
  "outcome (\<exists>f \<in> set fs. hidden (4 - (depth + 1)) (fieldFlag flag (fst f) (fst (snd f))) (snd (snd f)))
     (\<Sum>f \<leftarrow> fs. nonDefault (4 - (depth + 1)) (snd (snd f))) gw (checkDefaultFields fs flag depth name gw)"
proof (induction v flag depth name gw and fs flag depth name gw rule: checkDefault1_checkDefaultFields.induct)
  case (1 fs flag depth name gw)
  show ?case
  proof (cases "depth > 3")
    case False
    show ?thesis using "1.IH" [OF False] False by (simp only: depth_Suc [OF False] hidden.simps nonDefault.simps checkDefault1.simps if_False)
  qed simp
next
  case (3 v flag depth name gw)
  show ?case
  proof (cases "depth > 3")
    case False
    show ?thesis using "3.IH" [OF False] False by (simp only: depth_Suc [OF False] hidden.simps nonDefault.simps checkDefault1.simps if_False)
  qed simp
next
  case (2 flag depth name gw)
  show ?case by (cases "4 - depth") simp_all
next
  case (4 t isZero flag depth name g ws)
  show ?case by (cases "4 - depth") (auto simp: outcome_def warned_def valueInterface_def)
next
  case (5 flag depth name gw)
  show ?case by (cases "4 - depth") simp_all
next
  case (7 field embedded v fs flag depth name gw)
  show ?case using outcome_bind [OF "7.IH"(1) "7.IH"(2)] by simp
qed simp

text \<open>C16: Decoding warns of values that are not zero, unless it panics. A value is looked at if it is reached through at most two structs or pointers below the argument, in any order of nesting. If such a
  basic value lies behind a field that is not exported, be it zero or not, \<open>checkDefault\<close> panics. Otherwise it returns: it counts each such basic value that is not zero, and no other, and it prints at most
  one warning, and none if an error was counted before.\<close>

theorem checkDefault_counts:
  "if hidden 3 Exported v then \<exists>msg. checkDefault (Some v) g = Inl (ExplicitPanic msg)
   else \<exists>g' ws. checkDefault (Some v) g = Inr (g', ws) \<and> errorCount g' = errorCount g + nonDefault 3 v \<and> checked g' = checked g \<and>
     length ws = (if errorCount g = 0 \<and> 0 < nonDefault 3 v then 1 else 0)"
  using checkDefault1_outcome(1) [of 1 Exported v "(g, [])" "[]"] by (auto simp: checkDefault_def outcome_def warned_def split: if_splits)

text \<open>A pointer to a struct with an exported and a lower-case integer, both zero: \<open>checkType\<close> warns of the lower-case field, and then \<open>checkDefault\<close> panics on it. With the exported field alone it counts the
  value if it is not zero.\<close>

lemma checkDefault_T4: "\<exists>msg. checkDefault (Some (VPtr (Some (VStruct [(''Yes'', False, VBasic ''int'' True), (''no'', False, VBasic ''int'' True)])))) g = Inl (ExplicitPanic msg)"
  by (simp add: checkDefault_def valueInterface_def fieldFlag_def isUpperName_def)

lemma checkDefault_DD:
  "checkDefault (Some (VPtr (Some (VStruct [(''X'', False, VBasic ''int'' False)])))) initGob = Inr (initGob\<lparr>errorCount := 1\<rparr>, [''X''])"
  by (simp add: checkDefault_def valueInterface_def fieldFlag_def isUpperName_def fieldName_def initGob_def)

end
