(* ===== verification/Shard_Map.thy ===== *)
theory Shard_Map
  imports Lab_Prelude
begin

text \<open>
  The shard map of the key-value store: \<open>lab4/kv/shardmap.go\<close>, \<open>lab4/kv/file_shardmap.go\<close> and the hash of
  \<open>lab4/kv/util.go\<close>.

  A \<open>ShardMapState\<close> is immutable once it is published, so its queries take the state that
  \<open>GetState\<close> loads. A listener is its integer key; \<open>Update\<close> returns the keys of the listeners it
  notifies, which is what the unbuffered sends of the source do before \<open>Update\<close> returns. Reading a
  file, decoding JSON and \<open>fsnotify\<close> are not part of the program: they are parameters.
\<close>

section \<open>Shards of keys\<close>

definition GetShardForKey :: "string \<Rightarrow> int \<Rightarrow> int go" where
  "GetShardForKey key numShards =
     go_bind (go_rem_nonneg (unat (fnv32 key)) numShards) (\<lambda>r. Inr (r + 1))"

lemma GetShardForKey_pos:
  assumes "0 < n"
  shows "GetShardForKey key n = Inr (int (unat (fnv32 key)) mod n + 1)"
  using assms by (simp add: GetShardForKey_def go_rem_nonneg_def)

lemma GetShardForKey_bounds:
  assumes "0 < n" "GetShardForKey key n = Inr s"
  shows "1 \<le> s \<and> s \<le> n"
proof -
  have "0 \<le> int (unat (fnv32 key)) mod n" "int (unat (fnv32 key)) mod n < n"
    using assms(1) by simp_all
  with assms show ?thesis unfolding GetShardForKey_pos [OF assms(1)] by auto
qed

section \<open>The state of the shard map\<close>

record NodeInfo =
  Address :: string
  Port :: int

record ShardMapState =
  sm_Nodes :: "string \<rightharpoonup> NodeInfo"
  ShardsToNodes :: "(int \<times> string list) list"
  sm_NumShards :: int

text \<open>The two loops of \<open>IsValid\<close>.\<close>

fun nodesValid :: "(string \<rightharpoonup> NodeInfo) \<Rightarrow> string list \<Rightarrow> string list \<Rightarrow> bool" where
  "nodesValid ns nodeSet [] = True"
| "nodesValid ns nodeSet (node # nodes) =
     (if ns node = None then False
      else if node \<in> set nodeSet then False
      else nodesValid ns (node # nodeSet) nodes)"

fun shardsValid :: "ShardMapState \<Rightarrow> (int \<times> string list) list \<Rightarrow> bool" where
  "shardsValid st [] = True"
| "shardsValid st ((shard, nodes) # rest) =
     (if shard < 1 \<or> shard > sm_NumShards st then False
      else if \<not> nodesValid (sm_Nodes st) [] nodes then False
      else shardsValid st rest)"

definition IsValid :: "ShardMapState \<Rightarrow> bool" where
  "IsValid st =
     (if int (length (ShardsToNodes st)) > sm_NumShards st then False
      else shardsValid st (ShardsToNodes st))"

definition ShardsForNode :: "string \<Rightarrow> ShardMapState \<Rightarrow> int list" where
  "ShardsForNode nodeName st =
     concat (map (\<lambda>(shard, nodes). map (\<lambda>_. shard) (filter (\<lambda>node. node = nodeName) nodes))
       (ShardsToNodes st))"

definition NodesForShard :: "int \<Rightarrow> ShardMapState \<Rightarrow> string list" where
  "NodesForShard shard st =
     (case map_of (ShardsToNodes st) shard of None \<Rightarrow> [] | Some nodeNames \<Rightarrow> nodeNames)"

definition go_map :: "('k \<times> 'v) list \<Rightarrow> bool" where
  "go_map m \<longleftrightarrow> distinct (map fst m)"

lemma nodesValid_iff:
  "nodesValid ns seen nodes \<longleftrightarrow> set nodes \<subseteq> dom ns \<and> distinct nodes \<and> set nodes \<inter> set seen = {}"
  by (induction ns seen nodes rule: nodesValid.induct) auto

lemma shardsValid_iff:
  "shardsValid st ms \<longleftrightarrow> (\<forall>(shard, nodes) \<in> set ms. 1 \<le> shard \<and> shard \<le> sm_NumShards st \<and>
     distinct nodes \<and> set nodes \<subseteq> dom (sm_Nodes st))"
  by (induction st ms rule: shardsValid.induct) (auto simp: nodesValid_iff)

text \<open>\<open>IsValid\<close> accepts exactly the states in which there are no more entries than shards, every
  shard number is between 1 and \<open>NumShards\<close>, and the nodes of a shard are known and listed once.\<close>

theorem IsValid_iff:
  "IsValid st \<longleftrightarrow> int (length (ShardsToNodes st)) \<le> sm_NumShards st \<and>
     (\<forall>(shard, nodes) \<in> set (ShardsToNodes st). 1 \<le> shard \<and> shard \<le> sm_NumShards st \<and>
        distinct nodes \<and> set nodes \<subseteq> dom (sm_Nodes st))"
  by (simp add: IsValid_def shardsValid_iff)

lemma IsValid_entry:
  assumes "IsValid st" "(shard, nodes) \<in> set (ShardsToNodes st)"
  shows "1 \<le> shard \<and> shard \<le> sm_NumShards st \<and> distinct nodes \<and> set nodes \<subseteq> dom (sm_Nodes st)"
  using assms by (auto simp: IsValid_def shardsValid_iff split: if_splits)

lemma IsValid_nodes_distinct: "IsValid st \<Longrightarrow> distinct (NodesForShard s st)"
  by (auto simp: NodesForShard_def split: option.split dest!: map_of_SomeD dest: IsValid_entry)

lemma set_ShardsForNode:
  "set (ShardsForNode nodeName st) =
     {shard. \<exists>nodes. (shard, nodes) \<in> set (ShardsToNodes st) \<and> nodeName \<in> set nodes}"
  by (force simp: ShardsForNode_def)

lemma ShardsForNode_NodesForShard:
  assumes "go_map (ShardsToNodes st)"
  shows "shard \<in> set (ShardsForNode nodeName st) \<longleftrightarrow> nodeName \<in> set (NodesForShard shard st)"
  using assms by (auto simp: set_ShardsForNode NodesForShard_def go_map_def split: option.split
      dest: map_of_SomeD map_of_is_SomeI simp: map_of_eq_None_iff image_iff)

lemma ShardsForNode_range:
  assumes "IsValid st" "shard \<in> set (ShardsForNode nodeName st)"
  shows "1 \<le> shard \<and> shard \<le> sm_NumShards st"
  using assms by (auto simp: set_ShardsForNode dest: IsValid_entry)

lemma filter_eq_singleton: "distinct ns \<Longrightarrow> x \<in> set ns \<Longrightarrow> filter (\<lambda>n. n = x) ns = [x]"
  by (induction ns) (auto simp: filter_empty_conv)

lemma distinct_concat_singletons:
  assumes "distinct (map fst ms)" "\<forall>(s, ns) \<in> set ms. distinct ns"
  shows "distinct (concat (map (\<lambda>(s, ns). map (\<lambda>_. s) (filter (\<lambda>n. n = x) ns)) ms))"
  using assms
proof (induction ms)
  case (Cons m ms)
  obtain s ns where m: "m = (s, ns)" by (cases m)
  have "filter (\<lambda>n. n = x) ns = [] \<or> filter (\<lambda>n. n = x) ns = [x]"
    using Cons.prems(2) m filter_eq_singleton [of ns x] by (auto simp: filter_empty_conv)
  with Cons m show ?case by (auto simp: rev_image_eqI)
qed simp

text \<open>On a valid shard map the two queries are inverse to each other: a node is asked for a
  shard exactly if the shard is among the shards of the node, which are listed once and are
  between 1 and \<open>NumShards\<close>.\<close>

theorem shards_and_nodes:
  assumes "IsValid st" "go_map (ShardsToNodes st)"
  shows "(shard \<in> set (ShardsForNode nodeName st) \<longleftrightarrow> nodeName \<in> set (NodesForShard shard st)) \<and>
    distinct (ShardsForNode nodeName st) \<and>
    (shard \<in> set (ShardsForNode nodeName st) \<longrightarrow> 1 \<le> shard \<and> shard \<le> sm_NumShards st)"
proof -
  have "\<forall>(s, ns) \<in> set (ShardsToNodes st). distinct ns"
    using IsValid_entry [OF assms(1)] by auto
  with assms show ?thesis
    using ShardsForNode_NodesForShard ShardsForNode_range [OF assms(1)]
      distinct_concat_singletons [of "ShardsToNodes st" nodeName]
    by (auto simp: go_map_def ShardsForNode_def)
qed

definition sample_shards :: ShardMapState where
  "sample_shards =
     \<lparr>sm_Nodes = [''n1'' \<mapsto> \<lparr>Address = ''::1'', Port = 9000\<rparr>, ''n2'' \<mapsto> \<lparr>Address = ''::1'', Port = 9001\<rparr>],
      ShardsToNodes = [(1, [''n1'', ''n2'']), (2, [''n2''])], sm_NumShards = 2\<rparr>"

lemma sample_shards_ok: "IsValid sample_shards" "go_map (ShardsToNodes sample_shards)"
  by (simp_all add: sample_shards_def IsValid_def go_map_def)

theorem shards_and_nodes_witness:
  "2 \<in> set (ShardsForNode ''n2'' sample_shards) \<and> ''n2'' \<in> set (NodesForShard 2 sample_shards)"
  using shards_and_nodes [OF sample_shards_ok, of 2 "''n2''"]
  by (simp add: sample_shards_def NodesForShard_def)

section \<open>Publication and listeners\<close>

record ShardMap =
  sm_state :: "ShardMapState option"
  updateChannels :: "int list"
  updateChannelCounter :: int
  closedChannels :: "int list"

definition empty_ShardMap :: ShardMap where
  "empty_ShardMap =
     \<lparr>sm_state = None, updateChannels = [], updateChannelCounter = 0, closedChannels = []\<rparr>"

text \<open>The type assertion panics before the first \<open>Update\<close>.\<close>

definition GetState_sm :: "ShardMap \<Rightarrow> ShardMapState go" where
  "GetState_sm sm =
     (case sm_state sm of None \<Rightarrow> Inl (ExplicitPanic ''interface conversion'') | Some st \<Rightarrow> Inr st)"

definition Nodes :: "ShardMap \<Rightarrow> (string \<rightharpoonup> NodeInfo) go" where
  "Nodes sm = go_bind (GetState_sm sm) (\<lambda>st. Inr (sm_Nodes st))"

definition NumShards :: "ShardMap \<Rightarrow> int go" where
  "NumShards sm = go_bind (GetState_sm sm) (\<lambda>st. Inr (sm_NumShards st))"

definition MakeListener :: "ShardMap \<Rightarrow> ShardMap \<times> int" where
  "MakeListener sm =
     (let ident = updateChannelCounter sm in
      (sm\<lparr>updateChannelCounter := updateChannelCounter sm + 1,
          updateChannels := ident # removeAll ident (updateChannels sm)\<rparr>, ident))"

definition Update :: "ShardMapState \<Rightarrow> ShardMap \<Rightarrow> ShardMap \<times> int list" where
  "Update st sm = (sm\<lparr>sm_state := Some st\<rparr>, updateChannels sm)"

definition CloseListener :: "int \<Rightarrow> ShardMap \<Rightarrow> ShardMap go" where
  "CloseListener ident sm =
     (if ident \<in> set (closedChannels sm) then Inl (ExplicitPanic ''close of closed channel'')
      else Inr (sm\<lparr>updateChannels := removeAll ident (updateChannels sm),
                   closedChannels := ident # closedChannels sm\<rparr>))"

definition listeners_ok :: "ShardMap \<Rightarrow> bool" where
  "listeners_ok sm \<longleftrightarrow> distinct (updateChannels sm) \<and>
     (\<forall>i \<in> set (updateChannels sm) \<union> set (closedChannels sm). 0 \<le> i \<and> i < updateChannelCounter sm) \<and>
     set (updateChannels sm) \<inter> set (closedChannels sm) = {} \<and> 0 \<le> updateChannelCounter sm"

lemma listeners_ok_empty: "listeners_ok empty_ShardMap"
  by (simp add: listeners_ok_def empty_ShardMap_def)

lemma MakeListener_ok: "listeners_ok sm \<Longrightarrow> listeners_ok (fst (MakeListener sm))"
  by (auto simp: listeners_ok_def MakeListener_def Let_def distinct_removeAll intro: less_imp_le)

lemma Update_ok: "listeners_ok sm \<Longrightarrow> listeners_ok (fst (Update st sm))"
  by (simp add: listeners_ok_def Update_def)

lemma CloseListener_ok:
  "listeners_ok sm \<Longrightarrow> i \<in> set (updateChannels sm) \<Longrightarrow> CloseListener i sm = Inr sm' \<Longrightarrow> listeners_ok sm'"
  by (auto simp: listeners_ok_def CloseListener_def distinct_removeAll split: if_splits)

text \<open>The life of a listener. It gets a key no open listener has; every \<open>Update\<close> publishes its state and
  notifies it exactly once, next to all the listeners there were; once closed it is not notified any
  more while the others still are, and closing it again panics.\<close>

theorem listener_lifecycle:
  assumes "listeners_ok sm" "MakeListener sm = (sm1, ident)"
  shows "ident \<notin> set (updateChannels sm) \<and>
    mset (snd (Update st sm1)) = add_mset ident (mset (snd (Update st sm))) \<and>
    GetState_sm (fst (Update st sm1)) = Inr st \<and>
    (\<exists>sm2. CloseListener ident sm1 = Inr sm2 \<and> mset (snd (Update st sm2)) = mset (snd (Update st sm)) \<and>
       CloseListener ident sm2 = Inl (ExplicitPanic ''close of closed channel''))"
proof -
  have i: "ident = updateChannelCounter sm" "ident \<notin> set (updateChannels sm)" "ident \<notin> set (closedChannels sm)"
    using assms by (auto simp: MakeListener_def Let_def listeners_ok_def)
  then have sm1: "sm1 = sm\<lparr>updateChannelCounter := updateChannelCounter sm + 1,
      updateChannels := ident # updateChannels sm\<rparr>"
    using assms(2) by (auto simp: MakeListener_def Let_def)
  with i show ?thesis by (simp add: Update_def CloseListener_def GetState_sm_def)
qed

theorem listener_lifecycle_witness:
  "\<exists>sm1 ident. MakeListener empty_ShardMap = (sm1, ident) \<and> snd (Update sample_shards sm1) = [ident] \<and>
     GetState_sm (fst (Update sample_shards sm1)) = Inr sample_shards"
proof -
  obtain sm1 ident where 1: "MakeListener empty_ShardMap = (sm1, ident)" by force
  have "snd (Update sample_shards empty_ShardMap) = []" by (simp add: Update_def empty_ShardMap_def)
  with 1 listener_lifecycle [OF listeners_ok_empty 1, of sample_shards] show ?thesis by auto
qed

section \<open>The shard map of a file\<close>

text \<open>\<open>doneMade\<close> records whether the channel \<open>done\<close> has been made. \<open>read\<close> is \<open>os.ReadFile\<close>, \<open>unmarshal\<close> the JSON
  decoder; both may fail.\<close>

record FileShardMap =
  fs_ShardMap :: ShardMap
  filename :: string
  doneMade :: bool

definition isBitSet :: "32 word \<Rightarrow> 32 word \<Rightarrow> bool" where
  "isBitSet bitset b \<longleftrightarrow> bitset AND b \<noteq> 0"

definition applyFromFile ::
    "(string \<Rightarrow> 'd option) \<Rightarrow> ('d \<Rightarrow> ShardMapState option) \<Rightarrow> FileShardMap \<Rightarrow> FileShardMap \<times> bool" where
  "applyFromFile read unmarshal fsm =
     (case read (filename fsm) of
        None \<Rightarrow> (fsm, False)
      | Some bytes \<Rightarrow>
          (case unmarshal bytes of
             None \<Rightarrow> (fsm, False)
           | Some st \<Rightarrow> (fsm\<lparr>fs_ShardMap := fst (Update st (fs_ShardMap fsm))\<rparr>, True)))"

definition WatchShardMapFile ::
    "(string \<Rightarrow> 'd option) \<Rightarrow> ('d \<Rightarrow> ShardMapState option) \<Rightarrow> string \<Rightarrow> FileShardMap option" where
  "WatchShardMapFile read unmarshal fname =
     (let fsm = \<lparr>fs_ShardMap = empty_ShardMap, filename = fname, doneMade = False\<rparr> in
      case applyFromFile read unmarshal fsm of (fsm', ok) \<Rightarrow> if ok then Some fsm' else None)"

datatype watch_event =
    FileEvent string "32 word"
  | EventsClosed
  | WatchError
  | ErrorsClosed
  | DoneSignal

text \<open>One round of \<open>watchForUpdates\<close>: the new state and whether the loop goes on. The \<open>break\<close> of the
  two closed-channel cases leaves the \<open>select\<close>, not the loop. \<open>wr\<close> and \<open>cr\<close> are \<open>fsnotify.Write\<close> and
  \<open>fsnotify.Create\<close>.\<close>

fun watchStep ::
    "32 word \<Rightarrow> 32 word \<Rightarrow> (string \<Rightarrow> 'd option) \<Rightarrow> ('d \<Rightarrow> ShardMapState option) \<Rightarrow> watch_event \<Rightarrow>
     FileShardMap \<Rightarrow> FileShardMap \<times> bool" where
  "watchStep wr cr read unmarshal (FileEvent name op) fsm =
     (if name \<noteq> filename fsm then (fsm, True)
      else if isBitSet op wr \<or> isBitSet op cr then (fst (applyFromFile read unmarshal fsm), True)
      else (fsm, True))"
| "watchStep wr cr read unmarshal EventsClosed fsm = (fsm, True)"
| "watchStep wr cr read unmarshal WatchError fsm = (fsm, True)"
| "watchStep wr cr read unmarshal ErrorsClosed fsm = (fsm, True)"
| "watchStep wr cr read unmarshal DoneSignal fsm = (fsm, False)"

text \<open>A send on a channel that was never made blocks forever.\<close>

definition ShutdownFile :: "FileShardMap \<Rightarrow> unit go" where
  "ShutdownFile fsm = (if doneMade fsm then Inr () else Inl Blocks)"

lemma applyFromFile_frame:
  "filename (fst (applyFromFile read unmarshal fsm)) = filename fsm"
  "doneMade (fst (applyFromFile read unmarshal fsm)) = doneMade fsm"
  by (auto simp: applyFromFile_def split: option.splits)

lemma watchStep_frame:
  "doneMade (fst (watchStep wr cr read unmarshal e fsm)) = doneMade fsm"
  by (cases e) (auto simp: applyFromFile_frame)

text \<open>The last known good value. After any event the published state is the old one or what the
  file decodes to now; a file that cannot be read or decoded, an event for another file, and
  a closed or failing watcher all leave the old one.\<close>

theorem watch_keeps_last_good:
  "let old = sm_state (fs_ShardMap fsm);
       new = sm_state (fs_ShardMap (fst (watchStep wr cr read unmarshal e fsm)));
       decoded = Option.bind (read (filename fsm)) unmarshal
   in (new = old \<or> new = decoded \<and> decoded \<noteq> None) \<and>
      (decoded = None \<longrightarrow> new = old) \<and>
      (\<forall>op. e = FileEvent (filename fsm) op \<and> isBitSet op wr \<and> decoded \<noteq> None \<longrightarrow> new = decoded)"
  by (cases e) (auto simp: Let_def applyFromFile_def Update_def split: option.splits)

theorem watch_keeps_last_good_witness:
  "let fsm = \<lparr>fs_ShardMap = empty_ShardMap, filename = ''f'', doneMade = False\<rparr>
   in sm_state (fs_ShardMap (fst (watchStep 2 1 (\<lambda>_. Some ()) (\<lambda>_. Some sample_shards)
        (FileEvent ''f'' 2) fsm))) = Some sample_shards"
  using watch_keeps_last_good [of "\<lparr>fs_ShardMap = empty_ShardMap, filename = ''f'', doneMade = False\<rparr>" 2 1
      "\<lambda>_. Some ()" "\<lambda>_. Some sample_shards" "FileEvent ''f'' 2"]
  by (simp add: Let_def isBitSet_def)

text \<open>\<open>Shutdown\<close> of a watched file never returns: the channel \<open>done\<close> is never made, whatever events have been
  handled since \<open>WatchShardMapFile\<close>.\<close>

theorem file_shutdown_blocks:
  assumes "WatchShardMapFile read unmarshal fname = Some fsm"
  shows "ShutdownFile (fold (\<lambda>e f. fst (watchStep wr cr read unmarshal e f)) es fsm) = Inl Blocks"
proof -
  have "doneMade fsm = False" using assms applyFromFile_frame(2) [of read unmarshal]
    by (auto simp: WatchShardMapFile_def Let_def split: prod.splits if_splits) (metis fst_conv FileShardMap.select_convs(3))
  moreover have "doneMade (fold (\<lambda>e f. fst (watchStep wr cr read unmarshal e f)) es f) = doneMade f" for f
    by (induction es arbitrary: f) (simp_all add: watchStep_frame)
  ultimately show ?thesis by (simp add: ShutdownFile_def)
qed

theorem file_shutdown_blocks_witness:
  "\<exists>fsm. WatchShardMapFile (\<lambda>_. Some ()) (\<lambda>_. Some sample_shards) ''f'' = Some fsm \<and> ShutdownFile fsm = Inl Blocks"
proof -
  obtain fsm where 1: "WatchShardMapFile (\<lambda>_. Some ()) (\<lambda>_. Some sample_shards) ''f'' = Some fsm"
    by (simp add: WatchShardMapFile_def applyFromFile_def Let_def)
  from file_shutdown_blocks [OF 1, of 2 1 "[]"] 1 show ?thesis by simp
qed

end
