(* ===== verification/Kv_Server.thy ===== *)
theory Kv_Server
  imports Shard_Map
begin

text \<open>
  The server of the key-value store: \<open>lab4/kv/server.go\<close>.

  \<open>KvServerImpl\<close> keeps, per hosted shard, a Go map from keys to items with a time to live. A
  request holds \<open>server.mu\<close> for its whole duration, so each is one step; the clock is read once
  per step and is an argument (\<open>now\<close>, in nanoseconds); the loop that stores copied items, which reads it for each, is taken at one instant. \<open>handleShardMapUpdate\<close> gives up the lock while it copies
  shards, so it is two steps, \<open>shardUpdateBegin\<close> and \<open>shardUpdateFinish\<close>, with the copied contents between
  them; requests and another such call may come in between (\<open>kv_step\<close>), and \<open>handleShardMapUpdate\<close> is their composition when nothing interferes. The sweeps of the expiry goroutine of a shard
  are steps of their own. The peer a shard is copied from is a parameter.

  The laws of a store with expiry are a locale, \<open>expiring_store\<close>, interpreted on the server.
\<close>

section \<open>State\<close>

record cacheItem =
  ci_value :: string
  ci_ttl :: int
  ci_time_elapsed :: int

type_synonym shardData = "(string \<times> cacheItem) list"

record KvServerImpl =
  nodeName :: string
  availableShards :: "(int \<times> shardData) list"

record GetShardValue =
  gsv_Key :: string
  gsv_Value :: string
  gsv_TtlMsRemaining :: int

text \<open>\<open>time.Since(item.time_elapsed).Milliseconds() >= item.ttl\<close>\<close>

definition expired :: "int \<Rightarrow> cacheItem \<Rightarrow> bool" where
  "expired now item \<longleftrightarrow> milliseconds (now - ci_time_elapsed item) \<ge> ci_ttl item"

section \<open>Requests\<close>

text \<open>The response (value, found) and the error of \<open>Get\<close>.\<close>

definition Get :: "int \<Rightarrow> ShardMapState \<Rightarrow> string \<Rightarrow> KvServerImpl \<Rightarrow> ((string \<times> bool) \<times> code option) go" where
  "Get now sm key server =
     (if key = '''' then Inr (('''', False), Some InvalidArgument)
      else go_bind (GetShardForKey key (sm_NumShards sm)) (\<lambda>shardID.
        case map_of (availableShards server) (int32_of shardID) of
          None \<Rightarrow> Inr (('''', False), Some NotFound)
        | Some shard \<Rightarrow>
            (case map_of shard key of
               None \<Rightarrow> Inr (('''', False), None)
             | Some item \<Rightarrow>
                 if expired now item then Inr (('''', False), None)
                 else Inr ((ci_value item, True), None))))"

definition Set ::
    "int \<Rightarrow> ShardMapState \<Rightarrow> string \<Rightarrow> string \<Rightarrow> int \<Rightarrow> KvServerImpl \<Rightarrow> (KvServerImpl \<times> code option) go" where
  "Set now sm key value ttlMs server =
     (if key = '''' then Inr (server, Some InvalidArgument)
      else go_bind (GetShardForKey key (sm_NumShards sm)) (\<lambda>shardID.
        case map_of (availableShards server) (int32_of shardID) of
          None \<Rightarrow> Inr (server, Some NotFound)
        | Some shard \<Rightarrow>
            let item = \<lparr>ci_value = value, ci_ttl = ttlMs, ci_time_elapsed = now\<rparr> in
            Inr (server\<lparr>availableShards :=
                   AList.update (int32_of shardID) (AList.update key item shard) (availableShards server)\<rparr>, None)))"

definition Delete :: "ShardMapState \<Rightarrow> string \<Rightarrow> KvServerImpl \<Rightarrow> (KvServerImpl \<times> code option) go" where
  "Delete sm key server =
     (if key = '''' then Inr (server, Some InvalidArgument)
      else go_bind (GetShardForKey key (sm_NumShards sm)) (\<lambda>shardID.
        case map_of (availableShards server) (int32_of shardID) of
          None \<Rightarrow> Inr (server, Some NotFound)
        | Some shard \<Rightarrow>
            Inr (server\<lparr>availableShards :=
                   AList.update (int32_of shardID) (AList.delete key shard) (availableShards server)\<rparr>, None)))"

text \<open>The lock of the shard is taken before \<open>found\<close> is tested: a shard that is not hosted is a nil pointer
  there. The loop reads the clock twice for an item, to see whether it has expired and to compute the time it has left; \<open>clk key\<close> are the two readings for the item of a key.\<close>

definition liveValues :: "(string \<Rightarrow> int \<times> int) \<Rightarrow> shardData \<Rightarrow> GetShardValue list" where
  "liveValues clk shard =
     map (\<lambda>(key, item). \<lparr>gsv_Key = key, gsv_Value = ci_value item,
            gsv_TtlMsRemaining = ci_ttl item - milliseconds (snd (clk key) - ci_time_elapsed item)\<rparr>)
       (filter (\<lambda>(key, item). milliseconds (fst (clk key) - ci_time_elapsed item) < ci_ttl item) shard)"

definition GetShardContents ::
    "(string \<Rightarrow> int \<times> int) \<Rightarrow> int \<Rightarrow> KvServerImpl \<Rightarrow> (GetShardValue list \<times> code option) go" where
  "GetShardContents clk shardID server =
     (case map_of (availableShards server) (int32_of shardID) of
        None \<Rightarrow> Inl NilDereference
      | Some shard \<Rightarrow> Inr (liveValues clk shard, None))"

text \<open>One tick of the goroutine that expires the items of a shard.\<close>

definition ttlSweep :: "int \<Rightarrow> shardData \<Rightarrow> shardData" where
  "ttlSweep now shard = filter (\<lambda>(key, item). \<not> expired now item) shard"

definition sweepShard :: "int \<Rightarrow> int \<Rightarrow> KvServerImpl \<Rightarrow> KvServerImpl" where
  "sweepShard now shardID server =
     (case map_of (availableShards server) shardID of
        None \<Rightarrow> server
      | Some shard \<Rightarrow>
          server\<lparr>availableShards := AList.update shardID (ttlSweep now shard) (availableShards server)\<rparr>)"

section \<open>Changes of the shard map\<close>

text \<open>\<open>fetch node\<close> is what \<open>GetClient\<close> and the call of \<open>GetShardContents\<close> on \<open>node\<close> return, \<open>None\<close> if either fails. \<open>nodesAt i\<close>
  is \<open>NodesForShard\<close> at the i-th time the loop asks for it, after the first time, \<open>nodes0\<close>.\<close>

fun retrieveLoop ::
    "(string \<Rightarrow> GetShardValue list option) \<Rightarrow> (nat \<Rightarrow> string list) \<Rightarrow> string \<Rightarrow> nat \<Rightarrow> nat \<Rightarrow> nat list \<Rightarrow>
     GetShardValue list go" where
  "retrieveLoop fetch nodesAt self numNodes startIndex [] = Inr []"
| "retrieveLoop fetch nodesAt self numNodes startIndex (i # is) =
     go_bind (slice_index (nodesAt i) (int ((startIndex + i) mod numNodes))) (\<lambda>node.
       if node \<noteq> self then
         (case fetch node of
            Some response \<Rightarrow> Inr response
          | None \<Rightarrow> retrieveLoop fetch nodesAt self numNodes startIndex is)
       else retrieveLoop fetch nodesAt self numNodes startIndex is)"

definition retrieveShardData ::
    "(string \<Rightarrow> GetShardValue list option) \<Rightarrow> string list \<Rightarrow> (nat \<Rightarrow> string list) \<Rightarrow> (nat \<Rightarrow> nat) \<Rightarrow> string \<Rightarrow>
     GetShardValue list go" where
  "retrieveShardData fetch nodes0 nodesAt intn self =
     (let numNodes = length nodes0 in
      if numNodes = 0 then Inl (BadArgument ''rand.Intn'')
      else retrieveLoop fetch nodesAt self numNodes (intn numNodes) [0..<numNodes])"

definition shardsToBeAdded :: "ShardMapState \<Rightarrow> KvServerImpl \<Rightarrow> int list" where
  "shardsToBeAdded sm server =
     remdups (filter (\<lambda>shard. map_of (availableShards server) shard = None)
       (map int32_of (ShardsForNode (nodeName server) sm)))"

definition shardsToBeRemoved :: "ShardMapState \<Rightarrow> KvServerImpl \<Rightarrow> int list" where
  "shardsToBeRemoved sm server =
     filter (\<lambda>shard. shard \<notin> set (map int32_of (ShardsForNode (nodeName server) sm)))
       (map fst (availableShards server))"

definition addEmpty :: "int list \<Rightarrow> KvServerImpl \<Rightarrow> KvServerImpl" where
  "addEmpty shards server =
     server\<lparr>availableShards := fold (\<lambda>shard. AList.update shard []) shards (availableShards server)\<rparr>"

text \<open>Up to the release of the lock: the new shards, empty, are already hosted.\<close>

definition shardUpdateBegin :: "ShardMapState \<Rightarrow> KvServerImpl \<Rightarrow> KvServerImpl \<times> int list \<times> int list" where
  "shardUpdateBegin sm server =
     (let added = shardsToBeAdded sm server; removed = shardsToBeRemoved sm server
      in (addEmpty added server, added, removed))"

fun insertCopied :: "int \<Rightarrow> int \<Rightarrow> GetShardValue list \<Rightarrow> KvServerImpl \<Rightarrow> KvServerImpl go" where
  "insertCopied now numShards [] server = Inr server"
| "insertCopied now numShards (v # vs) server =
     go_bind (GetShardForKey (gsv_Key v) numShards) (\<lambda>shardID.
       case map_of (availableShards server) (int32_of shardID) of
         None \<Rightarrow> Inl NilDereference
       | Some shard \<Rightarrow>
           let item = \<lparr>ci_value = gsv_Value v, ci_ttl = gsv_TtlMsRemaining v, ci_time_elapsed = now\<rparr> in
           insertCopied now numShards vs
             (server\<lparr>availableShards :=
                AList.update (int32_of shardID) (AList.update (gsv_Key v) item shard) (availableShards server)\<rparr>))"

fun removeShards :: "int list \<Rightarrow> KvServerImpl \<Rightarrow> KvServerImpl go" where
  "removeShards [] server = Inr server"
| "removeShards (shard # shards) server =
     (if map_of (availableShards server) shard = None then Inl NilDereference
      else removeShards shards
             (server\<lparr>availableShards := AList.delete shard (availableShards server)\<rparr>))"

definition shardUpdateFinish ::
    "int \<Rightarrow> ShardMapState \<Rightarrow> GetShardValue list list \<Rightarrow> int list \<Rightarrow> KvServerImpl \<Rightarrow> KvServerImpl go" where
  "shardUpdateFinish now sm responses removed server =
     go_bind (insertCopied now (sm_NumShards sm) (concat responses) server) (removeShards removed)"

text \<open>The whole handler; \<open>copyOf shard\<close> is what \<open>retrieveShardData\<close> returned for a new shard.\<close>

definition handleShardMapUpdate ::
    "int \<Rightarrow> ShardMapState \<Rightarrow> (int \<Rightarrow> GetShardValue list) \<Rightarrow> KvServerImpl \<Rightarrow> KvServerImpl go" where
  "handleShardMapUpdate now sm copyOf server =
     (case shardUpdateBegin sm server of (server1, added, removed) \<Rightarrow>
        shardUpdateFinish now sm (map copyOf added) removed server1)"

definition MakeKvServer ::
    "string \<Rightarrow> int \<Rightarrow> ShardMapState \<Rightarrow> (int \<Rightarrow> GetShardValue list) \<Rightarrow> KvServerImpl go" where
  "MakeKvServer name now sm copyOf =
     handleShardMapUpdate now sm copyOf \<lparr>nodeName = name, availableShards = []\<rparr>"

section \<open>The abstract store\<close>

text \<open>A store with expiry, as its clients see it: what a read returns after a write or a deletion.\<close>

datatype ('k, 'v) store_op = Put int 'k 'v int | Del 'k

fun op_key :: "('k, 'v) store_op \<Rightarrow> 'k" where
  "op_key (Put now k v ttl) = k"
| "op_key (Del k) = k"

text \<open>What a read at time \<open>t\<close> must return when the last operation on its key is given.\<close>

fun op_read :: "int \<Rightarrow> ('k, 'v) store_op \<Rightarrow> 'v option" where
  "op_read t (Put now k v ttl) = (if milliseconds (t - now) < ttl then Some v else None)"
| "op_read t (Del k) = None"

locale expiring_store =
  fixes hosts :: "'s \<Rightarrow> 'k \<Rightarrow> bool"
    and get :: "int \<Rightarrow> 'k \<Rightarrow> 's \<Rightarrow> 'v option"
    and exec :: "('k, 'v) store_op \<Rightarrow> 's \<Rightarrow> 's"
  assumes hosts_exec: "hosts (exec a s) k = hosts s k"
    and get_same: "hosts s (op_key a) \<Longrightarrow> get t (op_key a) (exec a s) = op_read t a"
    and get_other: "k \<noteq> op_key a \<Longrightarrow> get t k (exec a s) = get t k s"
begin

lemma hosts_fold: "hosts (fold exec as s) k = hosts s k"
  by (induction "as" arbitrary: s) (simp_all add: hosts_exec)

text \<open>After any history of operations a read returns what the last operation on its key says.\<close>

lemma get_history:
  assumes "hosts s k"
  shows "get t k (fold exec as s) =
    (case filter (\<lambda>a. op_key a = k) as of [] \<Rightarrow> get t k s | bs \<Rightarrow> op_read t (last bs))"
proof (induction "as" rule: rev_induct)
  case (snoc a "as")
  show ?case
  proof (cases "op_key a = k")
    case True
    then have "get t k (exec a (fold exec as s)) = op_read t a"
      using get_same [of "fold exec as s" a t] assms hosts_fold by auto
    with True show ?thesis by (cases "filter (\<lambda>a. op_key a = k) as") auto
  next
    case False
    with snoc get_other [of k a t] show ?thesis by simp
  qed
qed simp

end

section \<open>The server as an abstract store\<close>

definition shardOf :: "ShardMapState \<Rightarrow> string \<Rightarrow> int option" where
  "shardOf sm key = (case GetShardForKey key (sm_NumShards sm) of Inl _ \<Rightarrow> None | Inr s \<Rightarrow> Some (int32_of s))"

text \<open>The abstraction: the item of a key.\<close>

definition kv_item :: "ShardMapState \<Rightarrow> KvServerImpl \<Rightarrow> string \<Rightarrow> cacheItem option" where
  "kv_item sm server key =
     Option.bind (shardOf sm key) (\<lambda>s. Option.bind (map_of (availableShards server) s) (\<lambda>shard. map_of shard key))"

definition kv_hosts :: "ShardMapState \<Rightarrow> KvServerImpl \<Rightarrow> string \<Rightarrow> bool" where
  "kv_hosts sm server key \<longleftrightarrow>
     key \<noteq> '''' \<and> Option.bind (shardOf sm key) (map_of (availableShards server)) \<noteq> None"

definition kv_get :: "ShardMapState \<Rightarrow> int \<Rightarrow> string \<Rightarrow> KvServerImpl \<Rightarrow> string option" where
  "kv_get sm now key server =
     (case Get now sm key server of Inr ((v, True), None) \<Rightarrow> Some v | _ \<Rightarrow> None)"

fun kv_exec :: "ShardMapState \<Rightarrow> (string, string) store_op \<Rightarrow> KvServerImpl \<Rightarrow> KvServerImpl" where
  "kv_exec sm (Put now key value ttl) server =
     (case Set now sm key value ttl server of Inr (server', _) \<Rightarrow> server' | Inl _ \<Rightarrow> server)"
| "kv_exec sm (Del key) server = (case Delete sm key server of Inr (server', _) \<Rightarrow> server' | Inl _ \<Rightarrow> server)"

lemma kv_hostsE:
  assumes "kv_hosts sm server key"
  obtains s shard where "key \<noteq> ''''" "GetShardForKey key (sm_NumShards sm) = Inr s"
    "shardOf sm key = Some (int32_of s)" "map_of (availableShards server) (int32_of s) = Some shard"
  using assms by (auto simp: kv_hosts_def shardOf_def bind_eq_Some_conv split: sum.splits)

lemma kv_get_item:
  assumes "key \<noteq> ''''"
  shows "kv_get sm now key server =
    (case kv_item sm server key of None \<Rightarrow> None
     | Some item \<Rightarrow> if expired now item then None else Some (ci_value item))"
  using assms by (auto simp: kv_get_def Get_def kv_item_def shardOf_def split: sum.splits option.splits)

lemma kv_item_replace:
  "kv_item sm (server\<lparr>availableShards := AList.update s shard (availableShards server)\<rparr>) k =
    (if shardOf sm k = Some s then map_of shard k else kv_item sm server k)"
  by (cases "shardOf sm k") (simp_all add: kv_item_def)

lemma kv_hosts_replace:
  "map_of (availableShards server) s \<noteq> None \<Longrightarrow>
   kv_hosts sm (server\<lparr>availableShards := AList.update s shard (availableShards server)\<rparr>) = kv_hosts sm server"
  by (rule ext, rename_tac k, case_tac "shardOf sm k") (auto simp: kv_hosts_def)

lemma kv_item_hosted:
  "shardOf sm k = Some s \<Longrightarrow> map_of (availableShards server) s = Some shard \<Longrightarrow> kv_item sm server k = map_of shard k"
  by (simp add: kv_item_def)

lemmas kv_replace = kv_item_replace kv_hosts_replace

lemma Set_hosted:
  assumes "kv_hosts sm server key"
  obtains server' where "Set now sm key value ttl server = Inr (server', None)"
    "kv_item sm server' = (kv_item sm server)(key \<mapsto> \<lparr>ci_value = value, ci_ttl = ttl, ci_time_elapsed = now\<rparr>)"
    "kv_hosts sm server' = kv_hosts sm server" "nodeName server' = nodeName server"
proof -
  from assms obtain s shard where s: "key \<noteq> ''''" "GetShardForKey key (sm_NumShards sm) = Inr s"
    "shardOf sm key = Some (int32_of s)" "map_of (availableShards server) (int32_of s) = Some shard"
    by (rule kv_hostsE)
  show thesis
    by (rule that [of "server\<lparr>availableShards := AList.update (int32_of s) (AList.update key
          \<lparr>ci_value = value, ci_ttl = ttl, ci_time_elapsed = now\<rparr> shard) (availableShards server)\<rparr>"])
      (use s in \<open>auto simp: Set_def kv_replace fun_eq_iff kv_item_hosted\<close>)
qed

lemma Delete_hosted:
  assumes "kv_hosts sm server key"
  obtains server' where "Delete sm key server = Inr (server', None)"
    "kv_item sm server' = (kv_item sm server)(key := None)"
    "kv_hosts sm server' = kv_hosts sm server" "nodeName server' = nodeName server"
proof -
  from assms obtain s shard where s: "key \<noteq> ''''" "GetShardForKey key (sm_NumShards sm) = Inr s"
    "shardOf sm key = Some (int32_of s)" "map_of (availableShards server) (int32_of s) = Some shard"
    by (rule kv_hostsE)
  show thesis
    by (rule that [of "server\<lparr>availableShards := AList.update (int32_of s) (AList.delete key shard)
          (availableShards server)\<rparr>"])
      (use s in \<open>auto simp: Delete_def kv_replace fun_eq_iff kv_item_hosted\<close>)
qed

lemma not_hosted_exec: "\<not> kv_hosts sm server (op_key a) \<Longrightarrow> kv_exec sm a server = server"
  by (cases a) (auto simp: Set_def Delete_def kv_hosts_def shardOf_def split: sum.splits option.splits)

lemma kv_exec_item:
  assumes "kv_hosts sm server (op_key a)"
  shows "kv_item sm (kv_exec sm a server) = (kv_item sm server)(op_key a :=
     (case a of Put now k v ttl \<Rightarrow> Some \<lparr>ci_value = v, ci_ttl = ttl, ci_time_elapsed = now\<rparr> | Del k \<Rightarrow> None)) \<and>
   kv_hosts sm (kv_exec sm a server) = kv_hosts sm server"
proof (cases a)
  case (Put now k v ttl)
  with assms have "kv_hosts sm server k" by simp
  from Set_hosted [OF this, of now v ttl] Put show ?thesis by fastforce
next
  case (Del k)
  with assms have "kv_hosts sm server k" by simp
  from Delete_hosted [OF this] Del show ?thesis by fastforce
qed

interpretation kv: expiring_store "kv_hosts sm" "kv_get sm" "kv_exec sm" for sm
proof
  fix a s k t
  show "kv_hosts sm (kv_exec sm a s) k = kv_hosts sm s k"
    using kv_exec_item [of sm s a] not_hosted_exec [of sm s a] by (cases "kv_hosts sm s (op_key a)") auto
  show "kv_get sm t (op_key a) (kv_exec sm a s) = op_read t a" if "kv_hosts sm s (op_key a)"
    using kv_exec_item [OF that] that by (cases a) (auto simp: kv_get_item kv_hosts_def expired_def)
  show "kv_get sm t k (kv_exec sm a s) = kv_get sm t k s" if "k \<noteq> op_key a"
  proof (cases "kv_hosts sm s (op_key a)")
    case True
    show ?thesis
    proof (cases "k = ''''")
      case False
      with kv_exec_item [OF True] that show ?thesis by (simp add: kv_get_item)
    qed (simp add: kv_get_def Get_def)
  qed (simp add: not_hosted_exec)
qed

section \<open>The placement invariant\<close>

text \<open>A key is stored in the shard it hashes to, and nowhere else.\<close>

definition shard_ok :: "ShardMapState \<Rightarrow> int \<Rightarrow> shardData \<Rightarrow> bool" where
  "shard_ok sm s shard \<longleftrightarrow> go_map shard \<and> (\<forall>k \<in> dom (map_of shard). shardOf sm k = Some s)"

definition kv_inv :: "ShardMapState \<Rightarrow> KvServerImpl \<Rightarrow> bool" where
  "kv_inv sm server \<longleftrightarrow> go_map (availableShards server) \<and>
     (\<forall>s shard. map_of (availableShards server) s = Some shard \<longrightarrow> shard_ok sm s shard)"

lemma go_map_update: "go_map m \<Longrightarrow> go_map (AList.update k v m)"
  by (simp add: go_map_def distinct_update)

lemma go_map_delete: "go_map m \<Longrightarrow> go_map (AList.delete k m)"
  by (simp add: go_map_def distinct_delete)

lemma go_map_filter: "go_map m \<Longrightarrow> go_map (filter P m)"
  by (simp add: go_map_def distinct_map_filter)

lemma kv_inv_replace:
  "kv_inv sm server \<Longrightarrow> shard_ok sm s shard \<Longrightarrow>
   kv_inv sm (server\<lparr>availableShards := AList.update s shard (availableShards server)\<rparr>)"
  by (auto simp: kv_inv_def go_map_update)

lemma shard_ok_update:
  "shard_ok sm s shard \<Longrightarrow> shardOf sm k = Some s \<Longrightarrow> shard_ok sm s (AList.update k item shard)"
  by (auto simp: shard_ok_def go_map_update)

lemma shard_ok_delete: "shard_ok sm s shard \<Longrightarrow> shard_ok sm s (AList.delete k shard)"
  by (auto simp: shard_ok_def go_map_delete split: if_splits)

lemma shard_ok_sweep: "shard_ok sm s shard \<Longrightarrow> shard_ok sm s (ttlSweep now shard)"
  by (auto simp: shard_ok_def ttlSweep_def go_map_filter dom_map_of_conv_image_fst)

lemma shard_ok_empty: "shard_ok sm s []"
  by (simp add: shard_ok_def go_map_def)

lemma kv_invD: "kv_inv sm server \<Longrightarrow> map_of (availableShards server) s = Some shard \<Longrightarrow> shard_ok sm s shard"
  by (simp add: kv_inv_def)

lemma Set_inv:
  assumes "Set now sm key value ttl server = Inr (server', e)" "kv_inv sm server"
  shows "kv_inv sm server'"
  using assms by (auto simp: Set_def bind_eq_Inr Let_def shardOf_def split: if_splits option.splits
      intro!: kv_inv_replace shard_ok_update dest: kv_invD)

lemma Delete_inv:
  assumes "Delete sm key server = Inr (server', e)" "kv_inv sm server"
  shows "kv_inv sm server'"
  using assms by (auto simp: Delete_def bind_eq_Inr split: if_splits option.splits
      intro!: kv_inv_replace shard_ok_delete dest: kv_invD)

lemma sweepShard_inv: "kv_inv sm server \<Longrightarrow> kv_inv sm (sweepShard now s server)"
  by (auto simp: sweepShard_def split: option.splits intro!: kv_inv_replace shard_ok_sweep dest: kv_invD)

section \<open>Shard changes\<close>

lemma map_of_addEmpty:
  "map_of (fold (\<lambda>s. AList.update s []) added m) s = (if s \<in> set added then Some [] else map_of m s)"
  by (induction added arbitrary: m) auto

lemma addEmpty_inv: "kv_inv sm server \<Longrightarrow> kv_inv sm (addEmpty added server)"
proof -
  assume inv: "kv_inv sm server"
  have "go_map (fold (\<lambda>s. AList.update s []) added m)" if "go_map m" for m :: "(int \<times> shardData) list"
    using that by (induction added arbitrary: m) (simp_all add: go_map_update)
  with inv show ?thesis by (auto simp: kv_inv_def addEmpty_def map_of_addEmpty shard_ok_empty)
qed

text \<open>What a copied value must satisfy to be stored: its key is not lost on the way.\<close>

definition values_hosted :: "ShardMapState \<Rightarrow> KvServerImpl \<Rightarrow> GetShardValue list \<Rightarrow> bool" where
  "values_hosted sm server vs \<longleftrightarrow>
     (\<forall>v \<in> set vs. \<exists>s. shardOf sm (gsv_Key v) = Some s \<and> s \<in> dom (map_of (availableShards server)))"

definition copied_item :: "int \<Rightarrow> GetShardValue \<Rightarrow> cacheItem" where
  "copied_item now v = \<lparr>ci_value = gsv_Value v, ci_ttl = gsv_TtlMsRemaining v, ci_time_elapsed = now\<rparr>"

lemma insertCopied_ok:
  assumes "values_hosted sm server vs" "kv_inv sm server"
  shows "\<exists>server'. insertCopied now (sm_NumShards sm) vs server = Inr server' \<and> kv_inv sm server' \<and>
    nodeName server' = nodeName server \<and>
    dom (map_of (availableShards server')) = dom (map_of (availableShards server)) \<and>
    (\<forall>k. kv_item sm server' k = (case filter (\<lambda>v. gsv_Key v = k) vs of
        [] \<Rightarrow> kv_item sm server k | us \<Rightarrow> Some (copied_item now (last us))))"
  using assms
proof (induction vs arbitrary: server)
  case (Cons v vs)
  from Cons.prems(1) obtain s shard where s: "GetShardForKey (gsv_Key v) (sm_NumShards sm) = Inr s"
    "shardOf sm (gsv_Key v) = Some (int32_of s)" "map_of (availableShards server) (int32_of s) = Some shard"
    by (auto simp: values_hosted_def shardOf_def split: sum.splits)
  let ?server = "server\<lparr>availableShards := AList.update (int32_of s)
    (AList.update (gsv_Key v) (copied_item now v) shard) (availableShards server)\<rparr>"
  have "shard_ok sm (int32_of s) shard" using kv_invD [OF Cons.prems(2) s(3)] .
  then have inv: "kv_inv sm ?server" by (intro kv_inv_replace [OF Cons.prems(2)] shard_ok_update s(2))
  have dom: "dom (map_of (availableShards ?server)) = dom (map_of (availableShards server))"
    using s(3) by auto
  have vals: "values_hosted sm ?server vs"
    using Cons.prems(1) dom by (simp add: values_hosted_def)
  have item: "kv_item sm ?server k = (if gsv_Key v = k then Some (copied_item now v) else kv_item sm server k)" for k
    using s by (auto simp add: kv_item_replace kv_item_hosted)
  from Cons.IH [OF vals inv] obtain server' where
    "insertCopied now (sm_NumShards sm) vs ?server = Inr server'" "kv_inv sm server'"
    "nodeName server' = nodeName server" "dom (map_of (availableShards server')) = dom (map_of (availableShards server))"
    "\<forall>k. kv_item sm server' k = (case filter (\<lambda>v. gsv_Key v = k) vs of
        [] \<Rightarrow> kv_item sm ?server k | us \<Rightarrow> Some (copied_item now (last us)))"
    unfolding dom by auto
  with s item show ?case
    by (intro exI [of _ server']) (auto simp: copied_item_def Let_def split: list.splits)
qed simp

lemma removeShards_ok:
  assumes "set removed \<subseteq> dom (map_of (availableShards server))" "distinct removed" "kv_inv sm server"
  shows "\<exists>server'. removeShards removed server = Inr server' \<and> kv_inv sm server' \<and>
    nodeName server' = nodeName server \<and>
    map_of (availableShards server') = (\<lambda>s. if s \<in> set removed then None else map_of (availableShards server) s)"
  using assms
proof (induction removed arbitrary: server)
  case (Cons s removed)
  let ?server = "server\<lparr>availableShards := AList.delete s (availableShards server)\<rparr>"
  have inv: "kv_inv sm ?server" using Cons.prems(3) by (auto simp: kv_inv_def go_map_delete split: if_splits)
  have "set removed \<subseteq> dom (map_of (availableShards ?server))" using Cons.prems by auto
  from Cons.IH [OF this _ inv] Cons.prems(2) obtain server' where
    "removeShards removed ?server = Inr server'" "kv_inv sm server'" "nodeName server' = nodeName server"
    "map_of (availableShards server') = (\<lambda>t. if t \<in> set removed then None else map_of (availableShards ?server) t)"
    by auto
  with Cons.prems show ?case by (intro exI [of _ server']) (auto simp: fun_eq_iff)
qed auto


text \<open>The shards a node is assigned, as the server's keys.\<close>

abbreviation assigned :: "ShardMapState \<Rightarrow> string \<Rightarrow> int set" where
  "assigned sm name \<equiv> int32_of ` set (ShardsForNode name sm)"

lemma set_shardsToBeAdded:
  "set (shardsToBeAdded sm server) = assigned sm (nodeName server) - dom (map_of (availableShards server))"
  by (auto simp: shardsToBeAdded_def)

lemma set_shardsToBeRemoved:
  "set (shardsToBeRemoved sm server) = dom (map_of (availableShards server)) - assigned sm (nodeName server)"
  by (auto simp: shardsToBeRemoved_def dom_map_of_conv_image_fst)

lemma distinct_shardsToBeRemoved: "kv_inv sm server \<Longrightarrow> distinct (shardsToBeRemoved sm server)"
  by (simp add: shardsToBeRemoved_def kv_inv_def go_map_def)

lemma shardUpdateBegin_ok:
  assumes "shardUpdateBegin sm server = (server1, added, removed)" "kv_inv sm server"
  shows "kv_inv sm server1 \<and> nodeName server1 = nodeName server \<and>
    set added = assigned sm (nodeName server) - dom (map_of (availableShards server)) \<and>
    set removed = dom (map_of (availableShards server)) - assigned sm (nodeName server) \<and> distinct removed \<and>
    map_of (availableShards server1) =
      (\<lambda>s. if s \<in> set added then Some [] else map_of (availableShards server) s)"
proof -
  have eqs: "server1 = addEmpty added server" "added = shardsToBeAdded sm server"
    "removed = shardsToBeRemoved sm server" using assms(1) by (auto simp: shardUpdateBegin_def Let_def)
  show ?thesis
    using addEmpty_inv [OF assms(2)] distinct_shardsToBeRemoved [OF assms(2)]
    unfolding eqs set_shardsToBeAdded set_shardsToBeRemoved
    by (simp add: addEmpty_def map_of_addEmpty fun_eq_iff set_shardsToBeAdded)
qed

text \<open>What the peers may send for a new shard: values of that shard.\<close>

definition copies_ok :: "ShardMapState \<Rightarrow> (int \<Rightarrow> GetShardValue list) \<Rightarrow> bool" where
  "copies_ok sm copyOf \<longleftrightarrow> (\<forall>s. \<forall>v \<in> set (copyOf s). shardOf sm (gsv_Key v) = Some s)"

lemma filter_copies:
  assumes "copies_ok sm copyOf" "shardOf sm k = Some s" "distinct added"
  shows "filter (\<lambda>v. gsv_Key v = k) (concat (map copyOf added)) =
    (if s \<in> set added then filter (\<lambda>v. gsv_Key v = k) (copyOf s) else [])"
  using assms(3)
proof (induction added)
  case (Cons t added)
  have "filter (\<lambda>v. gsv_Key v = k) (copyOf t) = []" if "t \<noteq> s"
    using that assms(1,2) unfolding copies_ok_def by (auto simp: filter_empty_conv)
  with Cons show ?case by auto
qed simp

lemma handleShardMapUpdate_ok:
  assumes inv: "kv_inv sm server" and copies: "copies_ok sm copyOf"
  obtains server' where "handleShardMapUpdate now sm copyOf server = Inr server'" "kv_inv sm server'"
    "nodeName server' = nodeName server"
    "dom (map_of (availableShards server')) = assigned sm (nodeName server)"
    "\<And>k s. shardOf sm k = Some s \<Longrightarrow> s \<in> assigned sm (nodeName server) \<Longrightarrow> kv_item sm server' k =
       (if s \<in> dom (map_of (availableShards server)) then kv_item sm server k
        else case filter (\<lambda>v. gsv_Key v = k) (copyOf s) of [] \<Rightarrow> None | us \<Rightarrow> Some (copied_item now (last us)))"
proof -
  obtain server1 added removed where b: "shardUpdateBegin sm server = (server1, added, removed)"
    using prod_cases3 by blast
  note b1 = shardUpdateBegin_ok [OF b inv]
  have dist: "distinct added" using b by (auto simp: shardUpdateBegin_def Let_def shardsToBeAdded_def)
  have "values_hosted sm server1 (concat (map copyOf added))"
    using copies b1 unfolding values_hosted_def copies_ok_def by fastforce
  from insertCopied_ok [OF this, of now] b1 obtain server2 where
    i: "insertCopied now (sm_NumShards sm) (concat (map copyOf added)) server1 = Inr server2" "kv_inv sm server2"
      "nodeName server2 = nodeName server" "dom (map_of (availableShards server2)) = dom (map_of (availableShards server1))"
      "\<And>k. kv_item sm server2 k = (case filter (\<lambda>v. gsv_Key v = k) (concat (map copyOf added)) of
        [] \<Rightarrow> kv_item sm server1 k | us \<Rightarrow> Some (copied_item now (last us)))" by auto
  have "set removed \<subseteq> dom (map_of (availableShards server2))" using i(4) b1 by auto
  from removeShards_ok [OF this _ i(2)] b1 obtain server3 where
    r: "removeShards removed server2 = Inr server3" "kv_inv sm server3" "nodeName server3 = nodeName server2"
      "map_of (availableShards server3) = (\<lambda>s. if s \<in> set removed then None else map_of (availableShards server2) s)"
    by blast
  show thesis
  proof (rule that [of server3])
    show "handleShardMapUpdate now sm copyOf server = Inr server3"
      using b i(1) r(1) by (simp add: handleShardMapUpdate_def shardUpdateFinish_def)
    show "dom (map_of (availableShards server3)) = assigned sm (nodeName server)"
      using r(4) i(4) b1 by (auto simp: dom_def split: if_splits)
    fix k s assume k: "shardOf sm k = Some s" "s \<in> assigned sm (nodeName server)"
    then have "kv_item sm server3 k = kv_item sm server2 k" using r(4) b1 by (simp add: kv_item_def)
    also have "\<dots> = (if s \<in> dom (map_of (availableShards server)) then kv_item sm server k
        else case filter (\<lambda>v. gsv_Key v = k) (copyOf s) of [] \<Rightarrow> None | us \<Rightarrow> Some (copied_item now (last us)))"
    proof (cases "s \<in> set added")
      case True
      then have "kv_item sm server1 k = None" using b1 k(1) by (simp add: kv_item_def)
      moreover have "s \<notin> dom (map_of (availableShards server))" using True b1 by blast
      ultimately show ?thesis using True i(5) [of k] filter_copies [OF copies k(1) dist]
        by (simp split: list.split)
    next
      case False
      then have "kv_item sm server1 k = kv_item sm server k" "s \<in> dom (map_of (availableShards server))"
        using b1 k by (auto simp add: kv_item_def)
      with False i(5) [of k] filter_copies [OF copies k(1) dist] show ?thesis by simp
    qed
    finally show "kv_item sm server3 k = \<dots>" .
  qed (use r i in auto)
qed

text \<open>When the second half of a shard change returns: exactly if every copied key belongs to a hosted shard, and the shards to be removed are hosted.\<close>

lemma insertCopied_hosted:
  "insertCopied now (sm_NumShards sm) vs server = Inr server' \<Longrightarrow> values_hosted sm server vs"
proof (induction vs arbitrary: server)
  case (Cons v vs)
  then obtain s shard where s: "GetShardForKey (gsv_Key v) (sm_NumShards sm) = Inr s"
    "map_of (availableShards server) (int32_of s) = Some shard"
    by (auto simp: bind_eq_Inr split: option.splits)
  let ?server = "server\<lparr>availableShards := AList.update (int32_of s) (AList.update (gsv_Key v) (copied_item now v) shard) (availableShards server)\<rparr>"
  have "insertCopied now (sm_NumShards sm) vs ?server = Inr server'" using Cons.prems s by (simp add: copied_item_def Let_def)
  then have "values_hosted sm ?server vs" by (rule Cons.IH)
  moreover have "dom (map_of (availableShards ?server)) = dom (map_of (availableShards server))" using s(2) by auto
  ultimately have "values_hosted sm server vs" by (simp only: values_hosted_def)
  then show ?case using s by (auto simp: values_hosted_def shardOf_def)
qed (simp add: values_hosted_def)

lemma removeShards_hosted:
  "removeShards removed server = Inr server' \<Longrightarrow> set removed \<subseteq> dom (map_of (availableShards server)) \<and> distinct removed"
proof (induction removed arbitrary: server)
  case (Cons s removed)
  let ?server = "server\<lparr>availableShards := AList.delete s (availableShards server)\<rparr>"
  have s: "map_of (availableShards server) s \<noteq> None" "removeShards removed ?server = Inr server'" using Cons.prems by (auto split: if_splits)
  from Cons.IH [OF s(2)] have "set removed \<subseteq> dom (map_of (availableShards server)) - {s}" "distinct removed" by (auto split: if_splits)
  then show ?case using s(1) by auto
qed simp

lemma shardUpdateFinish_returns:
  assumes "kv_inv sm server" "values_hosted sm server (concat responses)" "set removed \<subseteq> dom (map_of (availableShards server))" "distinct removed"
  shows "\<exists>server'. shardUpdateFinish now sm responses removed server = Inr server' \<and> kv_inv sm server' \<and>
    (\<forall>k. kv_item sm server' k = (if (\<exists>s \<in> set removed. shardOf sm k = Some s) then None
       else case filter (\<lambda>v. gsv_Key v = k) (concat responses) of [] \<Rightarrow> kv_item sm server k | us \<Rightarrow> Some (copied_item now (last us))))"
proof -
  obtain server2 where i: "insertCopied now (sm_NumShards sm) (concat responses) server = Inr server2" "kv_inv sm server2"
    "dom (map_of (availableShards server2)) = dom (map_of (availableShards server))"
    "\<forall>k. kv_item sm server2 k = (case filter (\<lambda>v. gsv_Key v = k) (concat responses) of
        [] \<Rightarrow> kv_item sm server k | us \<Rightarrow> Some (copied_item now (last us)))"
    using insertCopied_ok [OF assms(2,1), of now] by blast
  obtain server3 where r: "removeShards removed server2 = Inr server3" "kv_inv sm server3"
    "map_of (availableShards server3) = (\<lambda>s. if s \<in> set removed then None else map_of (availableShards server2) s)"
    using removeShards_ok [of removed server2 sm] assms(3,4) i(2,3) by auto
  have "kv_item sm server3 k = (if (\<exists>s \<in> set removed. shardOf sm k = Some s) then None else kv_item sm server2 k)" for k
    by (cases "shardOf sm k") (auto simp: kv_item_def r(3))
  with i(1,4) r(1,2) show ?thesis by (simp add: shardUpdateFinish_def)
qed

lemma shardUpdateFinish_iff:
  assumes "kv_inv sm server"
  shows "(\<exists>server'. shardUpdateFinish now sm responses removed server = Inr server') \<longleftrightarrow>
    values_hosted sm server (concat responses) \<and> set removed \<subseteq> dom (map_of (availableShards server)) \<and> distinct removed"
proof
  assume "\<exists>server'. shardUpdateFinish now sm responses removed server = Inr server'"
  then obtain server1 server' where 1: "insertCopied now (sm_NumShards sm) (concat responses) server = Inr server1" "removeShards removed server1 = Inr server'"
    by (auto simp: shardUpdateFinish_def bind_eq_Inr)
  have "values_hosted sm server (concat responses)" by (rule insertCopied_hosted [OF 1(1)])
  moreover from insertCopied_ok [OF this assms, of now] 1(1) have "dom (map_of (availableShards server1)) = dom (map_of (availableShards server))" by auto
  ultimately show "values_hosted sm server (concat responses) \<and> set removed \<subseteq> dom (map_of (availableShards server)) \<and> distinct removed"
    using removeShards_hosted [OF 1(2)] by simp
qed (use shardUpdateFinish_returns [OF assms] in blast)

lemma shardUpdateFinish_inv:
  assumes "kv_inv sm server" "shardUpdateFinish now sm responses removed server = Inr server'"
  shows "kv_inv sm server'"
proof -
  have "values_hosted sm server (concat responses) \<and> set removed \<subseteq> dom (map_of (availableShards server)) \<and> distinct removed"
    using shardUpdateFinish_iff [OF assms(1)] assms(2) by blast
  with shardUpdateFinish_returns [OF assms(1), of responses removed now] assms(2) show ?thesis by auto
qed

section \<open>Requests, sweeps and shard changes in any order\<close>

text \<open>The steps that do not change which shards are hosted. \<open>n\<close> is the number of shards, which no change of the map changes.\<close>

inductive kv_request :: "int \<Rightarrow> KvServerImpl \<Rightarrow> KvServerImpl \<Rightarrow> bool" for n where
  kv_set: "sm_NumShards sm = n \<Longrightarrow> Set now sm key value ttl server = Inr (server', e) \<Longrightarrow> kv_request n server server'"
| kv_delete: "sm_NumShards sm = n \<Longrightarrow> Delete sm key server = Inr (server', e) \<Longrightarrow> kv_request n server server'"
| kv_sweep: "kv_request n server (sweepShard now s server)"

text \<open>\<open>MakeKvServer\<close> and the goroutine of \<open>shardMapListenLoop\<close> may each be in a call of \<open>handleShardMapUpdate\<close>. The second component of the state is what the calls have computed that have given up the
  lock to wait for copies, at most two; they complete in any order, with any responses. A call that adds no shard does not give up the lock and is one step. A call that panics has no successor: it ends
  the process.\<close>

type_synonym kv_state = "KvServerImpl \<times> (int list \<times> int list) list"

inductive kv_step :: "int \<Rightarrow> kv_state \<Rightarrow> kv_state \<Rightarrow> bool" for n where
  kv_req: "kv_request n server server' \<Longrightarrow> kv_step n (server, ps) (server', ps)"
| kv_begin: "sm_NumShards sm = n \<Longrightarrow> length ps < 2 \<Longrightarrow> shardUpdateBegin sm server = (server', added, removed) \<Longrightarrow> added \<noteq> [] \<Longrightarrow>
    kv_step n (server, ps) (server', ps @ [(added, removed)])"
| kv_direct: "sm_NumShards sm = n \<Longrightarrow> length ps < 2 \<Longrightarrow> shardUpdateBegin sm server = (server1, [], removed) \<Longrightarrow>
    shardUpdateFinish now sm [] removed server1 = Inr server' \<Longrightarrow> kv_step n (server, ps) (server', ps)"
| kv_finish: "sm_NumShards sm = n \<Longrightarrow> shardUpdateFinish now sm responses removed server = Inr server' \<Longrightarrow>
    kv_step n (server, ps1 @ (added, removed) # ps2) (server', ps1 @ ps2)"

inductive_cases kv_requestE: "kv_request n server server'"

definition kv_state_ok :: "ShardMapState \<Rightarrow> kv_state \<Rightarrow> bool" where
  "kv_state_ok sm st \<longleftrightarrow> kv_inv sm (fst st) \<and> length (snd st) \<le> 2 \<and> (\<forall>(added, removed) \<in> set (snd st). distinct removed)"

lemma shardOf_cong: "sm_NumShards sm = sm_NumShards sm' \<Longrightarrow> shardOf sm = shardOf sm'"
  by (simp add: shardOf_def fun_eq_iff)

lemma kv_inv_cong: "sm_NumShards sm = sm_NumShards sm' \<Longrightarrow> kv_inv sm = kv_inv sm'"
  using shardOf_cong [of sm sm'] by (simp add: kv_inv_def shard_ok_def fun_eq_iff)

lemma Set_dom:
  "Set now sm key value ttl server = Inr (server', e) \<Longrightarrow>
   dom (map_of (availableShards server')) = dom (map_of (availableShards server))"
  by (auto simp: Set_def bind_eq_Inr Let_def split: if_splits option.splits)

lemma Delete_dom:
  "Delete sm key server = Inr (server', e) \<Longrightarrow>
   dom (map_of (availableShards server')) = dom (map_of (availableShards server))"
  by (auto simp: Delete_def bind_eq_Inr split: if_splits option.splits)

lemma sweepShard_dom: "dom (map_of (availableShards (sweepShard now s server))) = dom (map_of (availableShards server))"
  by (auto simp: sweepShard_def split: option.splits)

lemma kv_request_ok:
  assumes "kv_request (sm_NumShards sm) server server'" "kv_inv sm server"
  shows "kv_inv sm server' \<and> dom (map_of (availableShards server')) = dom (map_of (availableShards server))"
  using assms(1)
proof (cases rule: kv_request.cases)
  case (kv_set sm' now key val ttl e)
  then show ?thesis using assms(2) Set_inv [OF kv_set(2)] Set_dom [OF kv_set(2)] kv_inv_cong [OF kv_set(1)] by simp
next
  case (kv_delete sm' key e)
  then show ?thesis using assms(2) Delete_inv [OF kv_delete(2)] Delete_dom [OF kv_delete(2)] kv_inv_cong [OF kv_delete(1)] by simp
next
  case (kv_sweep now s)
  then show ?thesis using assms(2) sweepShard_inv sweepShard_dom by simp
qed

lemma kv_requests_ok:
  assumes "(kv_request (sm_NumShards sm))\<^sup>*\<^sup>* server server'" "kv_inv sm server"
  shows "kv_inv sm server' \<and> dom (map_of (availableShards server')) = dom (map_of (availableShards server))"
  using assms by (induction rule: rtranclp_induct) (simp_all add: kv_request_ok)

lemma kv_step_ok:
  assumes "kv_step (sm_NumShards sm) st st'" "kv_state_ok sm st"
  shows "kv_state_ok sm st'"
  using assms(1)
proof (cases rule: kv_step.cases)
  case (kv_req server server' ps)
  then show ?thesis using assms(2) kv_request_ok [OF kv_req(3)] by (simp add: kv_state_ok_def)
next
  case (kv_begin sm' ps server server' added removed)
  then show ?thesis
    using assms(2) shardUpdateBegin_ok [OF kv_begin(5)] kv_inv_cong [OF kv_begin(3)] by (auto simp: kv_state_ok_def)
next
  case (kv_direct sm' ps server server1 removed now server')
  have "kv_inv sm' server1" using assms(2) kv_direct(1) shardUpdateBegin_ok [OF kv_direct(5)] kv_inv_cong [OF kv_direct(3)] by (simp add: kv_state_ok_def)
  then have "kv_inv sm' server'" using kv_direct(6) by (rule shardUpdateFinish_inv)
  then show ?thesis using assms(2) kv_direct(1,2) kv_inv_cong [OF kv_direct(3)] by (simp add: kv_state_ok_def)
next
  case (kv_finish sm' now responses removed server server' ps1 added ps2)
  have "kv_inv sm' server" using assms(2) kv_finish(1) kv_inv_cong [OF kv_finish(3)] by (simp add: kv_state_ok_def)
  then have "kv_inv sm' server'" using kv_finish(4) by (rule shardUpdateFinish_inv)
  then show ?thesis using assms(2) kv_finish(1,2) kv_inv_cong [OF kv_finish(3)] by (auto simp: kv_state_ok_def)
qed

definition kv_init :: "string \<Rightarrow> kv_state" where
  "kv_init name = (\<lparr>nodeName = name, availableShards = []\<rparr>, [])"

lemma kv_reachable_ok:
  assumes "(kv_step (sm_NumShards sm))\<^sup>*\<^sup>* (kv_init name) st"
  shows "kv_state_ok sm st"
  using assms
proof (induction rule: rtranclp_induct)
  case base
  then show ?case by (simp add: kv_init_def kv_state_ok_def kv_inv_def go_map_def)
qed (use kv_step_ok in blast)

text \<open>A change that only requests and sweeps interrupt can be completed with copies of the new shards.\<close>

lemma values_hosted_added:
  assumes "shardUpdateBegin sm server = (server1, added, removed)" "kv_inv sm server" "(kv_request (sm_NumShards sm))\<^sup>*\<^sup>* server1 server2"
    "\<forall>v \<in> set (concat responses). \<exists>s \<in> set added. shardOf sm (gsv_Key v) = Some s"
  shows "kv_inv sm server2 \<and> values_hosted sm server2 (concat responses) \<and> set removed \<subseteq> dom (map_of (availableShards server2)) \<and> distinct removed \<and>
    set added \<inter> set removed = {} \<and> set added \<subseteq> dom (map_of (availableShards server2))"
proof -
  have b: "kv_inv sm server1" "set added = assigned sm (nodeName server) - dom (map_of (availableShards server))"
      "set removed = dom (map_of (availableShards server)) - assigned sm (nodeName server)" "distinct removed"
      "map_of (availableShards server1) = (\<lambda>s. if s \<in> set added then Some [] else map_of (availableShards server) s)"
    using shardUpdateBegin_ok [OF assms(1,2)] by simp_all
  have r: "kv_inv sm server2" "dom (map_of (availableShards server2)) = dom (map_of (availableShards server1))"
    using kv_requests_ok [OF assms(3) b(1)] by simp_all
  have d: "dom (map_of (availableShards server1)) = set added \<union> dom (map_of (availableShards server))"
    unfolding b(5) by (auto simp: dom_def)
  show ?thesis
  proof (intro conjI)
    show "values_hosted sm server2 (concat responses)" using assms(4) unfolding values_hosted_def r(2) d by blast
    show "set removed \<subseteq> dom (map_of (availableShards server2))" unfolding r(2) d b(3) by blast
    show "set added \<inter> set removed = {}" unfolding b(2,3) by blast
    show "set added \<subseteq> dom (map_of (availableShards server2))" unfolding r(2) d by blast
  qed (rule r b)+
qed

section \<open>Properties of the server\<close>

text \<open>C19: in every state that requests, expiry sweeps and shard changes can reach, in any order, with requests in the middle of a shard change and with two overlapping changes, every key a server stores is
  in the shard the key hashes to, and at most two changes wait. Whenever one of them waits, completing it returns exactly if each copied key belongs to a shard that is hosted and the shards to be removed still are; otherwise it
  panics. In particular a change that only requests and sweeps have interrupted returns, if its copies belong to the new shards.\<close>

theorem kv_placement:
  assumes "(kv_step (sm_NumShards sm))\<^sup>*\<^sup>* (kv_init name) (server, ps)"
  shows "(\<forall>s shard key item. map_of (availableShards server) s = Some shard \<and> map_of shard key = Some item \<longrightarrow>
      shardOf sm key = Some s) \<and> length ps \<le> 2 \<and>
    (\<forall>(added, removed) \<in> set ps. \<forall>responses now.
      (\<exists>server'. shardUpdateFinish now sm responses removed server = Inr server') \<longleftrightarrow>
        (\<forall>v \<in> set (concat responses). \<exists>s \<in> dom (map_of (availableShards server)). shardOf sm (gsv_Key v) = Some s) \<and>
        set removed \<subseteq> dom (map_of (availableShards server))) \<and>
    (\<forall>server1 added removed server2 responses now.
      shardUpdateBegin sm server = (server1, added, removed) \<and> (kv_request (sm_NumShards sm))\<^sup>*\<^sup>* server1 server2 \<and>
      (\<forall>v \<in> set (concat responses). \<exists>s \<in> set added. shardOf sm (gsv_Key v) = Some s) \<longrightarrow>
      (\<exists>server'. shardUpdateFinish now sm responses removed server2 = Inr server'))"
proof -
  have inv: "kv_inv sm server" and ps: "length ps \<le> 2" "\<And>added removed. (added, removed) \<in> set ps \<Longrightarrow> distinct removed"
    using kv_reachable_ok [OF assms] by (auto simp: kv_state_ok_def)
  have 1: "shardOf sm key = Some s" if "map_of (availableShards server) s = Some shard" "map_of shard key = Some item" for s shard key item
    using kv_invD [OF inv that(1)] that(2) by (auto simp: shard_ok_def)
  have 2: "(\<exists>server'. shardUpdateFinish now sm responses removed server = Inr server') \<longleftrightarrow>
        (\<forall>v \<in> set (concat responses). \<exists>s \<in> dom (map_of (availableShards server)). shardOf sm (gsv_Key v) = Some s) \<and>
        set removed \<subseteq> dom (map_of (availableShards server))" if "(added, removed) \<in> set ps" for added removed responses now
    unfolding shardUpdateFinish_iff [OF inv] values_hosted_def using ps(2) [OF that] by blast
  have 3: "\<exists>server'. shardUpdateFinish now sm responses removed server2 = Inr server'"
    if "shardUpdateBegin sm server = (server1, added, removed)" "(kv_request (sm_NumShards sm))\<^sup>*\<^sup>* server1 server2"
      "\<forall>v \<in> set (concat responses). \<exists>s \<in> set added. shardOf sm (gsv_Key v) = Some s" for server1 added removed server2 responses now
    using values_hosted_added [OF that(1) inv that(2,3)] shardUpdateFinish_iff by blast
  have "\<forall>p \<in> set ps. case p of (added, removed) \<Rightarrow> \<forall>responses now.
      (\<exists>server'. shardUpdateFinish now sm responses removed server = Inr server') \<longleftrightarrow>
        (\<forall>v \<in> set (concat responses). \<exists>s \<in> dom (map_of (availableShards server)). shardOf sm (gsv_Key v) = Some s) \<and>
        set removed \<subseteq> dom (map_of (availableShards server))"
    by (intro ballI, simp only: split: prod.split) (intro allI impI 2, simp)
  then show ?thesis using 1 3 ps(1) by (intro conjI allI impI) (assumption | elim conjE exE | erule (2) 3 | erule (1) 1)+
qed

text \<open>A key of the sample shard map, and a server that hosts both its shards.\<close>

lemma fnv32_abc: "fnv32 ''abc'' = 1134309195"
  by (simp add: fnv32_def of_char_def)

lemma sample_shardOf: "shardOf sample_shards ''abc'' = Some 2" "GetShardForKey ''abc'' 2 = Inr 2"
  by (simp_all add: shardOf_def sample_shards_def GetShardForKey_def go_rem_nonneg_def fnv32_abc)

definition sample_server :: KvServerImpl where
  "sample_server = \<lparr>nodeName = ''n2'', availableShards = [(2, []), (1, [])]\<rparr>"

lemma sample_server_hosts: "kv_hosts sample_shards sample_server ''abc''"
  by (simp add: kv_hosts_def sample_shardOf sample_server_def)

lemma sample_server_begin:
  "shardUpdateBegin sample_shards \<lparr>nodeName = ''n2'', availableShards = []\<rparr> =
     (\<lparr>nodeName = ''n2'', availableShards = [(1, []), (2, [])]\<rparr>, [1, 2], [])"
  by code_simp

lemma sample_begun: "kv_step (sm_NumShards sample_shards) (kv_init ''n2'') (\<lparr>nodeName = ''n2'', availableShards = [(1, []), (2, [])]\<rparr>, [([1, 2], [])])"
  using kv_begin [OF refl _ sample_server_begin, of "[]"] by (simp add: kv_init_def)

theorem kv_placement_witness:
  "\<exists>server ps. (kv_step (sm_NumShards sample_shards))\<^sup>*\<^sup>* (kv_init ''n2'') (server, ps) \<and> ps = [([1, 2], [])] \<and>
     (\<exists>server'. shardUpdateFinish 0 sample_shards
        [[\<lparr>gsv_Key = ''abc'', gsv_Value = ''v'', gsv_TtlMsRemaining = 5\<rparr>]] (snd (hd ps)) server = Inr server')"
proof -
  let ?server = "\<lparr>nodeName = ''n2'', availableShards = [(1, []), (2, [])]\<rparr> :: KvServerImpl"
  let ?vs = "[[\<lparr>gsv_Key = ''abc'', gsv_Value = ''v'', gsv_TtlMsRemaining = 5\<rparr>]]"
  have r: "(kv_step (sm_NumShards sample_shards))\<^sup>*\<^sup>* (kv_init ''n2'') (?server, [([1, 2], [])])"
    by (rule r_into_rtranclp [of "kv_step (sm_NumShards sample_shards)", OF sample_begun])
  have "(\<exists>server'. shardUpdateFinish now sample_shards responses [] ?server = Inr server') \<longleftrightarrow>
      (\<forall>v \<in> set (concat responses). \<exists>s \<in> dom (map_of (availableShards ?server)). shardOf sample_shards (gsv_Key v) = Some s)" for responses now
    using bspec [OF kv_placement [OF r, THEN conjunct2, THEN conjunct2, THEN conjunct1], of "([1, 2], [])"] by simp
  from this [of 0 ?vs] have "\<exists>server'. shardUpdateFinish 0 sample_shards ?vs [] ?server = Inr server'" by (simp add: sample_shardOf)
  with r show ?thesis by (intro exI [of _ ?server] exI [of _ "[([1, 2], [])]"]) simp
qed

text \<open>C18: reads after any history. Run any sequence of \<open>Set\<close> and \<open>Delete\<close> requests; then \<open>Get\<close> on a key the server hosts
  returns what the last of them on that key says: the value, as long as fewer whole milliseconds than its time to live have
  passed since the \<open>Set\<close>, and nothing after that or after a \<open>Delete\<close>.\<close>

theorem kv_read_history:
  assumes "kv_hosts sm server key"
  shows "kv_get sm t key (fold (kv_exec sm) ops server) =
    (case filter (\<lambda>a. op_key a = key) ops of [] \<Rightarrow> kv_get sm t key server | bs \<Rightarrow> op_read t (last bs))"
  by (rule kv.get_history [OF assms])

theorem kv_read_history_witness:
  "kv_get sample_shards 2500000 ''abc''
     (fold (kv_exec sample_shards) [Put 0 ''abc'' ''old'' 9, Put 1000000 ''abc'' ''new'' 2] sample_server) = Some ''new'' \<and>
   kv_get sample_shards 3000000 ''abc''
     (fold (kv_exec sample_shards) [Put 0 ''abc'' ''old'' 9, Put 1000000 ''abc'' ''new'' 2] sample_server) = None"
  using kv_read_history [OF sample_server_hosts, of _ "[Put 0 ''abc'' ''old'' 9, Put 1000000 ''abc'' ''new'' 2]"]
  by (simp add: milliseconds_def)

text \<open>C23: the errors of the requests. An empty key is an invalid argument, a key of a shard that is not hosted is not found,
  and such a request changes nothing; every other request succeeds.\<close>

theorem request_errors:
  assumes "0 < sm_NumShards sm"
  shows "let err = (if key = '''' then Some InvalidArgument else if kv_hosts sm server key then None else Some NotFound) in
    (\<exists>r. Get now sm key server = Inr (r, err)) \<and>
    (\<exists>server'. Set now sm key val ttl server = Inr (server', err) \<and> (err \<noteq> None \<longrightarrow> server' = server)) \<and>
    (\<exists>server'. Delete sm key server = Inr (server', err) \<and> (err \<noteq> None \<longrightarrow> server' = server))"
  using GetShardForKey_pos [OF assms, of key]
  by (auto simp: Get_def Set_def Delete_def kv_hosts_def shardOf_def Let_def split: option.splits)

theorem request_errors_witness:
  "\<exists>r. Get 0 sample_shards ''abc'' \<lparr>nodeName = ''n1'', availableShards = [(1, [])]\<rparr> = Inr (r, Some NotFound)"
  using request_errors [of sample_shards "''abc''" "\<lparr>nodeName = ''n1'', availableShards = [(1, [])]\<rparr>" 0 "''v''" 5]
  by (simp add: kv_hosts_def sample_shardOf Let_def) (simp add: sample_shards_def)

lemma sweepShard_item:
  assumes "kv_inv sm server"
  shows "kv_item sm (sweepShard now s server) k =
    (case kv_item sm server k of None \<Rightarrow> None
     | Some item \<Rightarrow> if shardOf sm k = Some s \<and> expired now item then None else Some item)"
proof (cases "map_of (availableShards server) s")
  case None
  then show ?thesis by (auto simp: sweepShard_def kv_item_def split: option.splits)
next
  case (Some shard)
  then have "go_map shard" using kv_invD [OF assms Some] by (simp add: shard_ok_def)
  with Some show ?thesis
    by (auto simp: sweepShard_def kv_item_replace kv_item_hosted ttlSweep_def go_map_def
        map_of_filter_keys split: option.splits)
qed

lemma expired_mono: "expired now item \<Longrightarrow> now \<le> t \<Longrightarrow> expired t item"
  using milliseconds_mono [of "now - ci_time_elapsed item" "t - ci_time_elapsed item"] by (simp add: expired_def)


text \<open>C20: expiry sweeps are invisible. In any state a server can reach, a sweep of a shard at one moment does not change what a
  read at that moment or later returns, for any key.\<close>

theorem sweeps_invisible:
  assumes "(kv_step (sm_NumShards sm))\<^sup>*\<^sup>* (kv_init name) (server, ps)" "now \<le> t"
  shows "kv_get sm t key (sweepShard now s server) = kv_get sm t key server"
proof (cases "key = ''''")
  case False
  have "kv_inv sm server" using kv_reachable_ok [OF assms(1)] by (simp add: kv_state_ok_def)
  with False assms(2) show ?thesis
    by (auto simp: kv_get_item sweepShard_item split: option.splits dest: expired_mono)
qed (simp add: kv_get_def Get_def)

text \<open>A server with an item: a sweep before the item expires keeps it, one after it has expired removes it.\<close>

definition sample_stored :: KvServerImpl where
  "sample_stored = \<lparr>nodeName = ''n2'', availableShards = [(1, []), (2, [(''abc'', \<lparr>ci_value = ''v'', ci_ttl = 5, ci_time_elapsed = 0\<rparr>)])]\<rparr>"

lemma sample_stored_reachable: "(kv_step (sm_NumShards sample_shards))\<^sup>*\<^sup>* (kv_init ''n2'') (sample_stored, [([1, 2], [])])"
proof -
  have "Set 0 sample_shards ''abc'' ''v'' 5 \<lparr>nodeName = ''n2'', availableShards = [(1, []), (2, [])]\<rparr> = Inr (sample_stored, None)"
    by (simp add: Set_def sample_shardOf sample_shards_def sample_stored_def)
  from kv_step.kv_req [OF kv_set [OF refl this]] sample_begun show ?thesis by (meson converse_rtranclp_into_rtranclp r_into_rtranclp)
qed

theorem sweeps_invisible_witness:
  "kv_get sample_shards 4000000 ''abc'' (sweepShard 3000000 2 sample_stored) = Some ''v'' \<and>
   kv_get sample_shards 7000000 ''abc'' (sweepShard 6000000 2 sample_stored) = kv_get sample_shards 7000000 ''abc'' sample_stored \<and>
   sweepShard 3000000 2 sample_stored = sample_stored \<and> sweepShard 6000000 2 sample_stored \<noteq> sample_stored"
proof (intro conjI)
  have "kv_get sample_shards 4000000 ''abc'' sample_stored = Some ''v''"
    by (simp add: kv_get_item kv_item_def sample_shardOf sample_stored_def expired_def milliseconds_def)
  then show "kv_get sample_shards 4000000 ''abc'' (sweepShard 3000000 2 sample_stored) = Some ''v''"
    using sweeps_invisible [OF sample_stored_reachable, of 3000000 4000000] by simp
  show "kv_get sample_shards 7000000 ''abc'' (sweepShard 6000000 2 sample_stored) = kv_get sample_shards 7000000 ''abc'' sample_stored"
    by (rule sweeps_invisible [OF sample_stored_reachable]) simp
qed (simp_all add: sweepShard_def ttlSweep_def expired_def milliseconds_def sample_stored_def)

text \<open>C21: a shard change. If the copies received for new shards hold only keys of those shards, \<open>handleShardMapUpdate\<close> does not
  panic; afterwards the server hosts exactly the shards the map assigns to it. A shard it hosted before keeps its items;
  a new shard holds the copied values, with the remaining time to live counted from now.\<close>

theorem shard_change:
  assumes "kv_inv sm server" "copies_ok sm copyOf" "shardOf sm key = Some s"
  shows "\<exists>server'. handleShardMapUpdate now sm copyOf server = Inr server' \<and> kv_inv sm server' \<and>
    dom (map_of (availableShards server')) = int32_of ` set (ShardsForNode (nodeName server) sm) \<and>
    (s \<in> int32_of ` set (ShardsForNode (nodeName server) sm) \<longrightarrow> kv_item sm server' key =
       (if s \<in> dom (map_of (availableShards server)) then kv_item sm server key
        else case filter (\<lambda>v. gsv_Key v = key) (copyOf s) of [] \<Rightarrow> None
          | us \<Rightarrow> Some \<lparr>ci_value = gsv_Value (last us), ci_ttl = gsv_TtlMsRemaining (last us), ci_time_elapsed = now\<rparr>))"
proof -
  obtain server' where 1: "handleShardMapUpdate now sm copyOf server = Inr server'" "kv_inv sm server'"
    "dom (map_of (availableShards server')) = int32_of ` set (ShardsForNode (nodeName server) sm)"
    "\<And>k s. shardOf sm k = Some s \<Longrightarrow> s \<in> int32_of ` set (ShardsForNode (nodeName server) sm) \<Longrightarrow> kv_item sm server' k =
       (if s \<in> dom (map_of (availableShards server)) then kv_item sm server k
        else case filter (\<lambda>v. gsv_Key v = k) (copyOf s) of [] \<Rightarrow> None | us \<Rightarrow> Some (copied_item now (last us)))"
    using handleShardMapUpdate_ok [OF assms(1,2), of now] by metis
  from 1(1-3) 1(4) [OF assms(3), unfolded copied_item_def] show ?thesis by blast
qed

definition sample_copy :: "int \<Rightarrow> GetShardValue list" where
  "sample_copy s = (if s = 2 then [\<lparr>gsv_Key = ''abc'', gsv_Value = ''v'', gsv_TtlMsRemaining = 5\<rparr>] else [])"

lemma sample_copy_ok: "copies_ok sample_shards sample_copy"
  by (simp add: copies_ok_def sample_copy_def sample_shardOf)

theorem shard_change_witness:
  "\<exists>server'. handleShardMapUpdate 7 sample_shards sample_copy \<lparr>nodeName = ''n2'', availableShards = []\<rparr> = Inr server' \<and>
     dom (map_of (availableShards server')) = {1, 2} \<and>
     kv_item sample_shards server' ''abc'' = Some \<lparr>ci_value = ''v'', ci_ttl = 5, ci_time_elapsed = 7\<rparr>"
proof -
  let ?server = "\<lparr>nodeName = ''n2'', availableShards = []\<rparr> :: KvServerImpl"
  have inv: "kv_inv sample_shards ?server" by (simp add: kv_inv_def go_map_def)
  have a: "int32_of ` set (ShardsForNode ''n2'' sample_shards) = {1, 2}"
    by (simp add: ShardsForNode_def sample_shards_def insert_commute)
  from shard_change [OF inv sample_copy_ok sample_shardOf(1), of 7]
  obtain server' where "handleShardMapUpdate 7 sample_shards sample_copy ?server = Inr server'"
    "dom (map_of (availableShards server')) = {1, 2}"
    "kv_item sample_shards server' ''abc'' = Some \<lparr>ci_value = ''v'', ci_ttl = 5, ci_time_elapsed = 7\<rparr>"
    by (auto simp: a sample_copy_def)
  then show ?thesis by blast
qed

subsection \<open>Copying a shard\<close>

lemma filter_liveValues:
  assumes "go_map shard"
  shows "filter (\<lambda>v. gsv_Key v = k) (liveValues clk shard) =
    (case map_of shard k of None \<Rightarrow> [] | Some item \<Rightarrow> if expired (fst (clk k)) item then []
       else [\<lparr>gsv_Key = k, gsv_Value = ci_value item,
              gsv_TtlMsRemaining = ci_ttl item - milliseconds (snd (clk k) - ci_time_elapsed item)\<rparr>])"
  using assms
proof (induction shard)
  case (Cons e shard)
  obtain k' item where e: "e = (k', item)" by (cases e)
  from Cons.prems have "k' = k \<Longrightarrow> map_of shard k = None"
    by (auto simp: go_map_def e map_of_eq_None_iff)
  with Cons e show ?case
    by (auto simp: liveValues_def go_map_def expired_def split: option.splits)
qed (simp add: liveValues_def)

lemma liveValues_keys: "v \<in> set (liveValues clk shard) \<Longrightarrow> gsv_Key v \<in> dom (map_of shard)"
  by (auto simp: liveValues_def dom_map_of_conv_image_fst rev_image_eqI)

text \<open>C22: copying a shard from server A to server B. What B then stores of a key of the shard is what A stored, if it had
  not expired when A looked at it; B returns it only as long as the time that had passed at A, when A computed the time left, and the time since B stored it,
  in whole milliseconds, stay below the original time to live.\<close>

theorem shard_copy:
  assumes "kv_inv sm a" "GetShardContents clk s a = Inr (vs, e)" "int32_of s = s"
    and "kv_inv sm b" "s \<in> int32_of ` set (ShardsForNode (nodeName b) sm)" "s \<notin> dom (map_of (availableShards b))"
    and "handleShardMapUpdate now2 sm (\<lambda>s'. if s' = s then vs else []) b = Inr b'"
    and "shardOf sm key = Some s" "key \<noteq> ''''"
  shows "kv_get sm t key b' =
    (case kv_item sm a key of None \<Rightarrow> None
     | Some item \<Rightarrow> if milliseconds (fst (clk key) - ci_time_elapsed item) < ci_ttl item \<and>
          milliseconds (snd (clk key) - ci_time_elapsed item) + milliseconds (t - now2) < ci_ttl item
        then Some (ci_value item) else None)"
proof -
  from assms(2,3) obtain shard where shard: "map_of (availableShards a) s = Some shard" "vs = liveValues clk shard"
    by (auto simp: GetShardContents_def split: option.splits)
  have ok: "go_map shard" "\<forall>k \<in> dom (map_of shard). shardOf sm k = Some s"
    using kv_invD [OF assms(1) shard(1)] by (auto simp: shard_ok_def)
  have "copies_ok sm (\<lambda>s'. if s' = s then vs else [])"
    using ok(2) liveValues_keys by (auto simp: copies_ok_def shard(2))
  from assms(4) this have "kv_item sm b' key =
      (case filter (\<lambda>v. gsv_Key v = key) vs of [] \<Rightarrow> None | us \<Rightarrow> Some (copied_item now2 (last us)))"
  proof (rule handleShardMapUpdate_ok [where now = now2])
    fix b2 assume "handleShardMapUpdate now2 sm (\<lambda>s'. if s' = s then vs else []) b = Inr b2"
      and it: "\<And>k s'. shardOf sm k = Some s' \<Longrightarrow> s' \<in> assigned sm (nodeName b) \<Longrightarrow> kv_item sm b2 k =
        (if s' \<in> dom (map_of (availableShards b)) then kv_item sm b k
         else case filter (\<lambda>v. gsv_Key v = k) (if s' = s then vs else []) of [] \<Rightarrow> None
           | us \<Rightarrow> Some (copied_item now2 (last us)))"
    then have "b2 = b'" using assms(7) by simp
    with it [OF assms(8,5)] assms(6) show ?thesis by (simp only: if_False simp_thms if_True refl)
  qed
  moreover have "kv_item sm a key = map_of shard key" using shard(1) assms(8) by (simp add: kv_item_def)
  ultimately show ?thesis
    using assms(9) by (auto simp: kv_get_item shard(2) filter_liveValues [OF ok(1)] copied_item_def
        expired_def split: option.splits)
qed

theorem shard_copy_witness:
  "let item = \<lparr>ci_value = ''v'', ci_ttl = 5, ci_time_elapsed = 0\<rparr>;
       a = \<lparr>nodeName = ''n1'', availableShards = [(2, [(''abc'', item)])]\<rparr>;
       b = \<lparr>nodeName = ''n2'', availableShards = []\<rparr>
   in \<exists>vs b'. GetShardContents (\<lambda>_. (2000000, 2000000)) 2 a = Inr (vs, None) \<and>
        handleShardMapUpdate 3000000 sample_shards (\<lambda>s. if s = 2 then vs else []) b = Inr b' \<and>
        kv_get sample_shards 5500000 ''abc'' b' = Some ''v'' \<and> kv_get sample_shards 6000000 ''abc'' b' = None"
proof -
  define item where "item = \<lparr>ci_value = ''v'', ci_ttl = 5, ci_time_elapsed = 0\<rparr>"
  define a where "a = \<lparr>nodeName = ''n1'', availableShards = [(2, [(''abc'', item)])]\<rparr>"
  define b :: KvServerImpl where "b = \<lparr>nodeName = ''n2'', availableShards = []\<rparr>"
  define vs where "vs = liveValues (\<lambda>_. (2000000, 2000000)) [(''abc'', item)]"
  have ia: "kv_inv sample_shards a"
    by (auto simp: kv_inv_def shard_ok_def go_map_def a_def sample_shardOf split: if_splits)
  have g: "GetShardContents (\<lambda>_. (2000000, 2000000)) 2 a = Inr (vs, None)" by (simp add: GetShardContents_def a_def vs_def)
  have ib: "kv_inv sample_shards b" by (simp add: kv_inv_def go_map_def b_def)
  have as: "2 \<in> int32_of ` set (ShardsForNode (nodeName b) sample_shards)"
    by (simp add: ShardsForNode_def sample_shards_def b_def)
  have "copies_ok sample_shards (\<lambda>s. if s = 2 then vs else [])"
    by (auto simp: copies_ok_def vs_def liveValues_def sample_shardOf)
  from handleShardMapUpdate_ok [OF ib this, of 3000000] obtain b' where
    h: "handleShardMapUpdate 3000000 sample_shards (\<lambda>s. if s = 2 then vs else []) b = Inr b'" by metis
  have d: "2 \<notin> dom (map_of (availableShards b))" by (simp add: b_def)
  have ka: "kv_item sample_shards a ''abc'' = Some item" by (simp add: kv_item_def sample_shardOf a_def)
  have r: "kv_get sample_shards t ''abc'' b' = (if 2 + milliseconds (t - 3000000) < 5 then Some ''v'' else None)" for t
    using shard_copy [OF ia g _ ib as d h sample_shardOf(1), of t] by (simp add: ka item_def milliseconds_def)
  have "kv_get sample_shards 5500000 ''abc'' b' = Some ''v''" "kv_get sample_shards 6000000 ''abc'' b' = None"
    unfolding r by (simp_all add: milliseconds_def)
  with g h show ?thesis unfolding Let_def item_def [symmetric] a_def [symmetric] b_def [symmetric] by blast
qed

text \<open>The loop of \<open>retrieveShardData\<close> while the shard map does not change: the first peer, in rotated order, that answers.\<close>

lemma retrieveLoop_find:
  assumes "\<forall>i \<in> set is. i < length nodes" "nodes \<noteq> []"
  shows "retrieveLoop fetch (\<lambda>_. nodes) self (length nodes) start is =
    Inr (case find (\<lambda>node. node \<noteq> self \<and> fetch node \<noteq> None) (map (\<lambda>i. nodes ! ((start + i) mod length nodes)) is) of
      None \<Rightarrow> [] | Some node \<Rightarrow> the (fetch node))"
  using assms by (induction "is") (auto split: option.splits simp flip: of_nat_mod zmod_int)

text \<open>\<open>retrieveShardData\<close>, on a shard map that does not change meanwhile, returns the contents the first answering peer
  sent, in the order that starts at the random index and wraps around; it never asks the server itself, and
  returns nothing exactly if no other peer answers.\<close>

theorem retrieveShardData_first_peer:
  assumes "nodes \<noteq> []"
  shows "retrieveShardData fetch nodes (\<lambda>_. nodes) intn self =
    Inr (case find (\<lambda>node. node \<noteq> self \<and> fetch node \<noteq> None) (rotate (intn (length nodes)) nodes) of
      None \<Rightarrow> [] | Some node \<Rightarrow> the (fetch node))"
  using assms retrieveLoop_find [of "[0..<length nodes]" nodes fetch self "intn (length nodes)"]
  by (simp add: retrieveShardData_def Let_def map_nth_rotate)

theorem retrieveShardData_first_peer_witness:
  "let v = \<lparr>gsv_Key = ''abc'', gsv_Value = ''v'', gsv_TtlMsRemaining = 5\<rparr>
   in retrieveShardData (\<lambda>n. if n = ''n3'' then Some [v] else None) [''n1'', ''n2'', ''n3''] (\<lambda>_. [''n1'', ''n2'', ''n3''])
        (\<lambda>_. 1) ''n2'' = Inr [v]"
  using retrieveShardData_first_peer [of "[''n1'', ''n2'', ''n3'']"] by (simp add: Let_def)

section \<open>Where the server departs from its specification\<close>

text \<open>Asking for the contents of a shard that is not hosted panics; the error \<open>NotFound\<close> the code means to return is never
  returned.\<close>

theorem unhosted_contents_panic:
  "(GetShardContents clk s server = Inl NilDereference \<longleftrightarrow> int32_of s \<notin> dom (map_of (availableShards server))) \<and>
   (\<forall>vs. GetShardContents clk s server \<noteq> Inr (vs, Some NotFound))"
  by (auto simp: GetShardContents_def split: option.splits)

lemma Set_accepted:
  assumes "shardOf sm key = Some s" "s \<in> dom (map_of (availableShards server))" "key \<noteq> ''''" "Set now sm key value ttl server = Inr (server', e)"
  shows "e = None \<and> kv_item sm server' key = Some \<lparr>ci_value = value, ci_ttl = ttl, ci_time_elapsed = now\<rparr>"
proof -
  have "kv_hosts sm server key" using assms(1-3) by (auto simp: kv_hosts_def)
  then obtain server2 where "Set now sm key value ttl server = Inr (server2, None)"
    "kv_item sm server2 = (kv_item sm server)(key \<mapsto> \<lparr>ci_value = value, ci_ttl = ttl, ci_time_elapsed = now\<rparr>)" by (rule Set_hosted)
  then show ?thesis using assms(4) by simp
qed

text \<open>C24: a server serves a shard while it still copies it, and the copy overwrites what was accepted meanwhile. Let a shard change add the shard of a key, with requests and sweeps before and after a \<open>Set\<close> on the
  key, and let it complete with a copied value for the key. Then the \<open>Set\<close> was accepted, and reads returned its value until it expired; after the completion reads return the copied
  value, until its remaining time to live has passed, whatever was set or deleted since the change began.\<close>

theorem copy_overwrites_set:
  assumes "kv_inv sm server" "shardUpdateBegin sm server = (server1, added, removed)"
    "shardOf sm key = Some s" "s \<in> set added" "key \<noteq> ''''"
    "(kv_request (sm_NumShards sm))\<^sup>*\<^sup>* server1 server2" "Set now sm key value ttl server2 = Inr (server3, e)"
    "(kv_request (sm_NumShards sm))\<^sup>*\<^sup>* server3 server4" "shardUpdateFinish now2 sm responses removed server4 = Inr server5"
    "filter (\<lambda>v. gsv_Key v = key) (concat responses) = us @ [v]"
  shows "e = None \<and> kv_get sm t key server3 = (if milliseconds (t - now) < ttl then Some value else None) \<and>
    kv_get sm t key server5 = (if milliseconds (t - now2) < gsv_TtlMsRemaining v then Some (gsv_Value v) else None)"
proof -
  note h2 = values_hosted_added [OF assms(2,1,6), of "[]", simplified]
  have "s \<in> dom (map_of (availableShards server2))" using h2 assms(4) by blast
  note set = Set_accepted [OF assms(3) this assms(5,7)]
  have "kv_request (sm_NumShards sm) server2 server3" by (rule kv_set [OF refl assms(7)])
  then have r: "(kv_request (sm_NumShards sm))\<^sup>*\<^sup>* server1 server4" using assms(6,8) by (meson rtranclp.rtrancl_into_rtrancl rtranclp_trans)
  note h4 = values_hosted_added [OF assms(2,1) r, of "[]", simplified]
  have "values_hosted sm server4 (concat responses)" using shardUpdateFinish_iff [of sm server4] h4 assms(9) by blast
  from shardUpdateFinish_returns [OF _ this, of removed now2] h4 assms(9) have "\<forall>k. kv_item sm server5 k =
      (if (\<exists>s \<in> set removed. shardOf sm k = Some s) then None
       else case filter (\<lambda>v. gsv_Key v = k) (concat responses) of [] \<Rightarrow> kv_item sm server4 k | us \<Rightarrow> Some (copied_item now2 (last us)))" by auto
  moreover obtain w ws where "filter (\<lambda>v. gsv_Key v = key) (concat responses) = w # ws" "last (w # ws) = v"
    using assms(10) by (cases us) auto
  moreover have "\<not> (\<exists>s \<in> set removed. shardOf sm key = Some s)" using assms(3,4) h4 by auto
  ultimately have "kv_item sm server5 key = Some (copied_item now2 v)" by simp
  with set assms(5) show ?thesis by (simp add: kv_get_item copied_item_def expired_def not_le)
qed

theorem copy_overwrites_set_witness:
  "\<exists>server1 added removed server2 server3.
     shardUpdateBegin sample_shards \<lparr>nodeName = ''n2'', availableShards = []\<rparr> = (server1, added, removed) \<and>
     Set 1000000 sample_shards ''abc'' ''new'' 9000 server1 = Inr (server2, None) \<and>
     kv_get sample_shards 2000000 ''abc'' server2 = Some ''new'' \<and>
     shardUpdateFinish 2000000 sample_shards [[\<lparr>gsv_Key = ''abc'', gsv_Value = ''old'', gsv_TtlMsRemaining = 9000\<rparr>]]
       removed server2 = Inr server3 \<and>
     kv_get sample_shards 2000000 ''abc'' server3 = Some ''old''"
proof -
  let ?v = "\<lparr>gsv_Key = ''abc'', gsv_Value = ''old'', gsv_TtlMsRemaining = 9000\<rparr>"
  let ?server1 = "\<lparr>nodeName = ''n2'', availableShards = [(1, []), (2, [])]\<rparr> :: KvServerImpl"
  have inv: "kv_inv sample_shards \<lparr>nodeName = ''n2'', availableShards = []\<rparr>" by (simp add: kv_inv_def go_map_def)
  obtain server2 where 2: "Set 1000000 sample_shards ''abc'' ''new'' 9000 ?server1 = Inr (server2, None)"
    by (simp add: Set_def sample_shardOf sample_shards_def)
  obtain server3 where 3: "shardUpdateFinish 2000000 sample_shards [[?v]] [] server2 = Inr server3"
    using 2 by (auto simp: Set_def shardUpdateFinish_def sample_shardOf sample_shards_def)
  have "kv_get sample_shards 2000000 ''abc'' server2 = Some ''new'' \<and> kv_get sample_shards 2000000 ''abc'' server3 = Some ''old''"
    using copy_overwrites_set [OF inv sample_server_begin sample_shardOf(1) _ _ rtranclp.rtrancl_refl 2 rtranclp.rtrancl_refl 3, of "[]" ?v 2000000]
    by (simp add: milliseconds_def)
  with 2 3 show ?thesis unfolding sample_server_begin by blast
qed

text \<open>\<open>MakeKvServer\<close> starts the listening goroutine before its own call of \<open>handleShardMapUpdate\<close>, so two calls can overlap. If
  the second one takes a shard away while the first one still waits for its contents, completing the first one panics.\<close>

theorem overlapping_changes_panic:
  "let moved = sample_shards\<lparr>ShardsToNodes := [(1, [''n1'', ''n2'']), (2, [''n1''])]\<rparr> in
   \<exists>server1 added removed server2 removed2 server3.
     shardUpdateBegin sample_shards \<lparr>nodeName = ''n2'', availableShards = []\<rparr> = (server1, added, removed) \<and>
     shardUpdateBegin moved server1 = (server2, [], removed2) \<and>
     shardUpdateFinish 0 moved [] removed2 server2 = Inr server3 \<and>
     shardUpdateFinish 0 moved [[\<lparr>gsv_Key = ''abc'', gsv_Value = ''v'', gsv_TtlMsRemaining = 5\<rparr>]] removed server3
       = Inl NilDereference"
proof -
  let ?moved = "sample_shards\<lparr>ShardsToNodes := [(1, [''n1'', ''n2'']), (2, [''n1''])]\<rparr>"
  let ?s1 = "\<lparr>nodeName = ''n2'', availableShards = [(1, []), (2, [])]\<rparr> :: KvServerImpl"
  let ?s3 = "\<lparr>nodeName = ''n2'', availableShards = [(1, [])]\<rparr> :: KvServerImpl"
  have "shardUpdateBegin ?moved ?s1 = (?s1, [], [2])" by code_simp
  moreover have "shardUpdateFinish 0 ?moved [] [2] ?s1 = Inr ?s3" by code_simp
  moreover have "shardUpdateFinish 0 ?moved [[\<lparr>gsv_Key = ''abc'', gsv_Value = ''v'', gsv_TtlMsRemaining = 5\<rparr>]] [] ?s3
      = Inl NilDereference"
    by (simp add: shardUpdateFinish_def sample_shardOf sample_shards_def)
  ultimately show ?thesis unfolding sample_server_begin Let_def by blast
qed

end
