(* ===== verification/Kv_Client.thy ===== *)
theory Kv_Client
  imports Kv_Server
begin

text \<open>
  The client of the key-value store, \<open>lab4/kv/client.go\<close>, and the pool of connections,
  \<open>lab4/kv/clientpool.go\<close>.

  The client is generic in its surroundings, as the source is: \<open>getClient\<close>, \<open>clientGet\<close>, \<open>clientSet\<close> and \<open>clientDelete\<close> stand for
  the interface \<open>ClientPool\<close> and the remote calls, and act on a world of type \<open>'w\<close>. \<open>intn\<close> is the random start index and
  \<open>sched\<close> the order in which the goroutines of \<open>Set\<close> and \<open>Delete\<close> happen to run; with the servers behind it, the replicas handle one request at one instant. The last section puts the servers of \<open>Kv_Server\<close> behind
  the client and shows that a value written to all replicas is read from any.
\<close>

section \<open>The pool\<close>

datatype pool_error = NoSuchNode string | DialFailed string

text \<open>\<open>dial\<close> is what \<open>makeConnection\<close> gets from \<open>grpc.Dial\<close> and \<open>NewKvClient\<close>, \<open>None\<close> if dialling fails.

  The part of \<open>GetClient\<close> under the exclusive lock, and the whole: \<open>between\<close> is what other goroutines do to the
  pool after the optimistic read.\<close>

definition getClientLocked ::
    "(string \<Rightarrow> 'c option) \<Rightarrow> (string \<rightharpoonup> NodeInfo) \<Rightarrow> string \<Rightarrow> (string \<rightharpoonup> 'c) \<Rightarrow> (pool_error + 'c) \<times> (string \<rightharpoonup> 'c)" where
  "getClientLocked dial nodes name clients =
     (case clients name of
        Some client \<Rightarrow> (Inr client, clients)
      | None \<Rightarrow>
          (case nodes name of
             None \<Rightarrow> (Inl (NoSuchNode name), clients)
           | Some nodeInfo \<Rightarrow>
               let address = Address nodeInfo @ '':'' @ show_int (Port nodeInfo) in
               (case dial address of
                  None \<Rightarrow> (Inl (DialFailed address), clients)
                | Some client \<Rightarrow> (Inr client, clients(name \<mapsto> client)))))"

definition GetClient ::
    "(string \<Rightarrow> 'c option) \<Rightarrow> (string \<rightharpoonup> NodeInfo) \<Rightarrow> ((string \<rightharpoonup> 'c) \<Rightarrow> (string \<rightharpoonup> 'c)) \<Rightarrow> string \<Rightarrow>
     (string \<rightharpoonup> 'c) \<Rightarrow> (pool_error + 'c) \<times> (string \<rightharpoonup> 'c)" where
  "GetClient dial nodes between name clients =
     (case clients name of
        Some client \<Rightarrow> (Inr client, clients)
      | None \<Rightarrow> getClientLocked dial nodes name (between clients))"

text \<open>The pool caches clients and not errors. Once \<open>GetClient\<close> has returned a client for a node, every later call returns that
  client, whatever the shard map and the network say then, and whatever clients of other nodes have been added in between;
  a call that fails leaves the pool as it found it. A client once in the pool is never replaced.\<close>

theorem pool_caches:
  assumes "\<And>m n c. m n = Some c \<Longrightarrow> between m n = Some c"
  shows "(case GetClient dial nodes between name clients of
      (Inr client, clients') \<Rightarrow>
        (\<forall>dial' nodes' between' others. (\<forall>n c. clients' n = Some c \<longrightarrow> others n = Some c) \<longrightarrow>
          GetClient dial' nodes' between' name others = (Inr client, others)) \<and>
        clients \<subseteq>\<^sub>m clients' \<and> (\<forall>n. n \<noteq> name \<longrightarrow> clients' n = clients n \<or> clients' n = between clients n)
    | (Inl e, clients') \<Rightarrow> clients' = between clients \<and> clients name = None)"
  using assms [of clients]
  by (auto simp: GetClient_def getClientLocked_def Let_def map_le_def split: option.splits prod.splits sum.splits)

lemma show_9000: "show_int 9000 = ''9000''"
  by (simp add: show_int_def show_nat.simps char_of_def bit_Suc_0_iff)

theorem pool_caches_witness:
  "let (r, clients) = GetClient (\<lambda>a. Some a) (sm_Nodes sample_shards) (\<lambda>m. m) ''n1'' Map.empty
   in r = Inr ''::1:9000'' \<and> GetClient (\<lambda>_. None) Map.empty (\<lambda>m. m) ''n1'' clients = (r, clients)"
proof -
  have g: "GetClient (\<lambda>a. Some a) (sm_Nodes sample_shards) (\<lambda>m. m) ''n1'' Map.empty =
      (Inr ''::1:9000'', [''n1'' \<mapsto> ''::1:9000''])"
    by (simp add: GetClient_def getClientLocked_def sample_shards_def show_9000 Let_def)
  from pool_caches [where between = "\<lambda>m. m" and dial = "\<lambda>a. Some a" and nodes = "sm_Nodes sample_shards"
      and name = "''n1''" and clients = Map.empty] g
  show ?thesis by (auto simp: Let_def)
qed

section \<open>The client\<close>

fun kvGetLoop ::
    "(string \<Rightarrow> 'w \<Rightarrow> 'w \<times> ('e + 'c)) \<Rightarrow> ('c \<Rightarrow> string \<Rightarrow> 'w \<Rightarrow> 'w \<times> ('e + (string \<times> bool))) \<Rightarrow>
     string \<Rightarrow> string list \<Rightarrow> nat \<Rightarrow> nat list \<Rightarrow> 'e option \<Rightarrow> 'w \<Rightarrow> 'w \<times> (string \<times> bool) \<times> 'e option" where
  "kvGetLoop getClient clientGet key nodes startIndex [] lastErr w = (w, ('''', False), lastErr)"
| "kvGetLoop getClient clientGet key nodes startIndex (i # is) lastErr w =
     (let node = nodes ! ((i + startIndex) mod length nodes) in
      case getClient node w of
        (w1, Inl err) \<Rightarrow> kvGetLoop getClient clientGet key nodes startIndex is (Some err) w1
      | (w1, Inr client) \<Rightarrow>
          (case clientGet client key w1 of
             (w2, Inr response) \<Rightarrow> (w2, response, None)
           | (w2, Inl err) \<Rightarrow> kvGetLoop getClient clientGet key nodes startIndex is (Some err) w2))"

definition kvGet ::
    "(string \<Rightarrow> 'w \<Rightarrow> 'w \<times> (code + 'c)) \<Rightarrow> ('c \<Rightarrow> string \<Rightarrow> 'w \<Rightarrow> 'w \<times> (code + (string \<times> bool))) \<Rightarrow>
     (nat \<Rightarrow> nat) \<Rightarrow> ShardMapState \<Rightarrow> string \<Rightarrow> 'w \<Rightarrow> ('w \<times> (string \<times> bool) \<times> code option) go" where
  "kvGet getClient clientGet intn sm key w =
     go_bind (GetShardForKey key (sm_NumShards sm)) (\<lambda>shardID.
       let nodes = NodesForShard shardID sm in
       Inr (if length nodes = 0 then (w, ('''', False), Some NotFound)
            else kvGetLoop getClient clientGet key nodes (intn (length nodes)) [0..<length nodes] None w))"

text \<open>The goroutines of \<open>Set\<close> and \<open>Delete\<close>: one call per node; the errors in the order in which they are sent.\<close>

fun fanOut :: "(string \<Rightarrow> 'w \<Rightarrow> 'w \<times> ('e + 'c)) \<Rightarrow> ('c \<Rightarrow> 'w \<Rightarrow> 'w \<times> 'e option) \<Rightarrow> string list \<Rightarrow> 'w \<Rightarrow> 'w \<times> 'e list" where
  "fanOut getClient call [] w = (w, [])"
| "fanOut getClient call (node # nodes) w =
     (let (w2, err) =
        (case getClient node w of
           (w1, Inl err) \<Rightarrow> (w1, Some err)
         | (w1, Inr client) \<Rightarrow> call client w1);
        (w3, errs) = fanOut getClient call nodes w2
      in (w3, case err of None \<Rightarrow> errs | Some e \<Rightarrow> e # errs))"

definition writeAll ::
    "(string \<Rightarrow> 'w \<Rightarrow> 'w \<times> (code + 'c)) \<Rightarrow> ('c \<Rightarrow> 'w \<Rightarrow> 'w \<times> code option) \<Rightarrow> (string list \<Rightarrow> string list) \<Rightarrow>
     ShardMapState \<Rightarrow> string \<Rightarrow> 'w \<Rightarrow> ('w \<times> code option) go" where
  "writeAll getClient call sched sm key w =
     go_bind (GetShardForKey key (sm_NumShards sm)) (\<lambda>shardID.
       let nodes = NodesForShard shardID sm in
       Inr (if length nodes = 0 then (w, Some NotFound)
            else let (w', errs) = fanOut getClient call (sched nodes) w
                 in (w', if length errs > 0 then Some (hd errs) else None)))"

text \<open>\<open>Set\<close> converts the duration to milliseconds; \<open>clientSet client key value ttlMs\<close> is the remote call.\<close>

definition kvSet ::
    "(string \<Rightarrow> 'w \<Rightarrow> 'w \<times> (code + 'c)) \<Rightarrow> ('c \<Rightarrow> string \<Rightarrow> string \<Rightarrow> int \<Rightarrow> 'w \<Rightarrow> 'w \<times> code option) \<Rightarrow>
     (string list \<Rightarrow> string list) \<Rightarrow> ShardMapState \<Rightarrow> string \<Rightarrow> string \<Rightarrow> int \<Rightarrow> 'w \<Rightarrow> ('w \<times> code option) go" where
  "kvSet getClient clientSet sched sm key value ttl w =
     writeAll getClient (\<lambda>client. clientSet client key value (milliseconds ttl)) sched sm key w"

definition kvDelete ::
    "(string \<Rightarrow> 'w \<Rightarrow> 'w \<times> (code + 'c)) \<Rightarrow> ('c \<Rightarrow> string \<Rightarrow> 'w \<Rightarrow> 'w \<times> code option) \<Rightarrow>
     (string list \<Rightarrow> string list) \<Rightarrow> ShardMapState \<Rightarrow> string \<Rightarrow> 'w \<Rightarrow> ('w \<times> code option) go" where
  "kvDelete getClient clientDelete sched sm key w =
     writeAll getClient (\<lambda>client. clientDelete client key) sched sm key w"

section \<open>Reads with failover\<close>

text \<open>One attempt of the loop.\<close>

definition tryNode ::
    "(string \<Rightarrow> 'w \<Rightarrow> 'w \<times> ('e + 'c)) \<Rightarrow> ('c \<Rightarrow> string \<Rightarrow> 'w \<Rightarrow> 'w \<times> ('e + (string \<times> bool))) \<Rightarrow>
     string \<Rightarrow> string \<Rightarrow> 'w \<Rightarrow> 'w \<times> ('e + (string \<times> bool))" where
  "tryNode getClient clientGet key node w =
     (case getClient node w of (w1, Inl err) \<Rightarrow> (w1, Inl err) | (w1, Inr client) \<Rightarrow> clientGet client key w1)"

text \<open>What the loop must return when the nodes, in the order they are asked, answer \<open>ans\<close>.\<close>

definition failover :: "(string \<Rightarrow> 'e + (string \<times> bool)) \<Rightarrow> string list \<Rightarrow> 'e option \<Rightarrow> (string \<times> bool) \<times> 'e option" where
  "failover ans nodes lastErr =
     (case find (\<lambda>node. \<not> isl (ans node)) nodes of
        Some node \<Rightarrow> (projr (ans node), None)
      | None \<Rightarrow> (('''', False), if nodes = [] then lastErr else Some (projl (ans (last nodes)))))"

lemma failover_Nil: "failover ans [] lastErr = (('''', False), lastErr)"
  by (simp add: failover_def)

lemma failover_Cons:
  "failover ans (n # ns) lastErr =
     (case ans n of Inl err \<Rightarrow> failover ans ns (Some err) | Inr response \<Rightarrow> (response, None))"
  by (cases ns) (auto simp: failover_def split: sum.split option.split)

lemma kvGetLoop_failover:
  assumes "\<And>node w. I w \<Longrightarrow> I (fst (tryNode getClient clientGet key node w)) \<and> snd (tryNode getClient clientGet key node w) = ans node"
    and "I w"
  shows "I (fst (kvGetLoop getClient clientGet key nodes start is lastErr w)) \<and>
    snd (kvGetLoop getClient clientGet key nodes start is lastErr w) =
    failover ans (map (\<lambda>i. nodes ! ((i + start) mod length nodes)) is) lastErr"
  using \<open>I w\<close>
proof (induction "is" arbitrary: lastErr w)
  case (Cons i "is")
  let ?node = "nodes ! ((i + start) mod length nodes)"
  obtain w2 r where t: "tryNode getClient clientGet key ?node w = (w2, r)" by fastforce
  then have r: "ans ?node = r" "I w2" using assms(1) [of w ?node] Cons.prems by auto
  have "kvGetLoop getClient clientGet key nodes start (i # is) lastErr w =
    (case r of Inr response \<Rightarrow> (w2, response, None)
     | Inl err \<Rightarrow> kvGetLoop getClient clientGet key nodes start is (Some err) w2)"
    using t by (auto simp: tryNode_def Let_def split: prod.splits sum.splits)
  with r Cons.IH show ?case by (simp add: failover_Cons split: sum.split)
qed (simp add: failover_Nil)

lemma kvGet_ans:
  assumes "\<And>node w. I w \<Longrightarrow> I (fst (tryNode getClient clientGet key node w)) \<and> snd (tryNode getClient clientGet key node w) = ans node"
    and "I w" "GetShardForKey key (sm_NumShards sm) = Inr s"
  shows "\<exists>w'. I w' \<and> kvGet getClient clientGet intn sm key w =
    Inr (w', if NodesForShard s sm = [] then (('''', False), Some NotFound)
             else failover ans (rotate (intn (length (NodesForShard s sm))) (NodesForShard s sm)) None)"
proof -
  let ?nodes = "NodesForShard s sm" and ?start = "intn (length (NodesForShard s sm))"
  obtain w' r where l: "kvGetLoop getClient clientGet key ?nodes ?start [0..<length ?nodes] None w = (w', r)"
    by (rule prod.exhaust)
  have "I w' \<and> r = failover ans (rotate ?start ?nodes) None"
    using kvGetLoop_failover [where I = I, OF assms(1,2), of ?nodes ?start "[0..<length ?nodes]" None] l
    by (simp add: add.commute map_nth_rotate flip: map_nth_rotate)
  with l assms(2,3) show ?thesis by (auto simp: kvGet_def Let_def)
qed

text \<open>A read asks the replicas of the key's shard one after the other, from a random one on and around the list, and returns
  the answer of the first that answers; only if none does it returns an error, the one of the last replica asked.
  Failing to get a client and failing to call count alike. A key whose shard no node hosts gives \<open>NotFound\<close> without a call.
  \<open>ans\<close> says what a replica answers while the world satisfies \<open>I\<close>.\<close>

theorem kvGet_failover:
  fixes intn :: "nat \<Rightarrow> nat" and I :: "'w \<Rightarrow> bool"
  assumes "\<And>node w. I w \<Longrightarrow> I (fst (tryNode getClient clientGet key node w)) \<and> snd (tryNode getClient clientGet key node w) = ans node"
    and "I w" "GetShardForKey key (sm_NumShards sm) = Inr s"
  defines "asked \<equiv> rotate (intn (length (NodesForShard s sm))) (NodesForShard s sm)"
  shows "\<exists>w' r err. kvGet getClient clientGet intn sm key w = Inr (w', r, err) \<and> I w' \<and>
    (case err of
       None \<Rightarrow> (\<exists>i < length asked. ans (asked ! i) = Inr r \<and> (\<forall>j < i. isl (ans (asked ! j))))
     | Some e \<Rightarrow> (\<forall>node \<in> set asked. isl (ans node)) \<and> r = ('''', False) \<and>
         (if asked = [] then e = NotFound else ans (last asked) = Inl e))"
proof -
  from kvGet_ans [where I = I and intn = intn, OF assms(1-3)] obtain w' where g: "I w'" "kvGet getClient clientGet intn sm key w =
      Inr (w', if asked = [] then (('''', False), Some NotFound) else failover ans asked None)"
    by (auto simp: asked_def)
  show ?thesis
  proof (cases "find (\<lambda>node. \<not> isl (ans node)) asked")
    case None
    then have "\<forall>node \<in> set asked. isl (ans node)" by (simp add: find_None_iff)
    with g None show ?thesis by (auto simp: failover_def)
  next
    case (Some node)
    then have "asked \<noteq> []" by auto
    with g Some show ?thesis by (auto simp: failover_def find_Some_iff)
  qed
qed

section \<open>Writes to all replicas\<close>

text \<open>A fan-out over the nodes \<open>ns\<close> with one write per node, and the fan-out of the client as an instance of it.\<close>

primrec writes :: "('n \<Rightarrow> 'w \<Rightarrow> 'w \<times> 'e option) \<Rightarrow> 'n list \<Rightarrow> 'w \<Rightarrow> 'w \<times> 'e list" where
  "writes f [] w = (w, [])"
| "writes f (n # ns) w =
     (case f n w of (w1, err) \<Rightarrow>
       case writes f ns w1 of (w2, errs) \<Rightarrow> (w2, case err of None \<Rightarrow> errs | Some e \<Rightarrow> e # errs))"

definition writeNode :: "(string \<Rightarrow> 'w \<Rightarrow> 'w \<times> ('e + 'c)) \<Rightarrow> ('c \<Rightarrow> 'w \<Rightarrow> 'w \<times> 'e option) \<Rightarrow> string \<Rightarrow> 'w \<Rightarrow> 'w \<times> 'e option" where
  "writeNode getClient call node w =
     (case getClient node w of (w1, Inl err) \<Rightarrow> (w1, Some err) | (w1, Inr client) \<Rightarrow> call client w1)"

lemma fanOut_writes: "fanOut getClient call nodes w = writes (writeNode getClient call) nodes w"
  by (induction nodes arbitrary: w) (auto simp: writeNode_def Let_def split: prod.splits sum.splits)

text \<open>The contract of one replica: whether a write is accepted does not depend on writes to the replicas; an accepted
  write is what the replica then shows, a rejected one changes nothing, and no write shows on another replica.\<close>

locale replica_set =
  fixes writeAt :: "'n \<Rightarrow> 'w \<Rightarrow> 'w \<times> 'e option"
    and readAt :: "'n \<Rightarrow> 'w \<Rightarrow> 'r"
    and accepts :: "'n \<Rightarrow> 'w \<Rightarrow> bool"
    and expected :: 'r
  assumes accept_iff: "snd (writeAt n w) = None \<longleftrightarrow> accepts n w"
    and accept_stable: "accepts m (fst (writeAt n w)) = accepts m w"
    and read_own: "accepts n w \<Longrightarrow> readAt n (fst (writeAt n w)) = expected"
    and read_other: "m \<noteq> n \<or> \<not> accepts n w \<Longrightarrow> readAt m (fst (writeAt n w)) = readAt m w"
begin

lemma writes_Cons:
  "fst (writes writeAt (n # ns) w) = fst (writes writeAt ns (fst (writeAt n w)))"
  "snd (writes writeAt (n # ns) w) = [] \<longleftrightarrow> accepts n w \<and> snd (writes writeAt ns (fst (writeAt n w))) = []"
  using accept_iff [of n w] by (auto split: prod.splits option.splits)

lemma writes_accepts: "accepts m (fst (writes writeAt ns w)) = accepts m w"
  by (induction ns arbitrary: w) (simp_all add: writes_Cons accept_stable del: writes.simps(2))

lemma writes_ok_iff: "snd (writes writeAt ns w) = [] \<longleftrightarrow> (\<forall>n\<in>set ns. accepts n w)"
  by (induction ns arbitrary: w) (simp_all add: writes_Cons accept_stable del: writes.simps(2))

lemma writes_other: "m \<notin> set ns \<or> \<not> accepts m w \<Longrightarrow> readAt m (fst (writes writeAt ns w)) = readAt m w"
proof (induction ns arbitrary: w)
  case (Cons n ns)
  then have "m \<notin> set ns \<or> \<not> accepts m (fst (writeAt n w))" "m \<noteq> n \<or> \<not> accepts n w" by (auto simp: accept_stable)
  with Cons.IH read_other show ?case by (simp add: writes_Cons del: writes.simps(2))
qed simp

lemma writes_reach:
  "n \<in> set ns \<Longrightarrow> accepts n w \<Longrightarrow> readAt n (fst (writes writeAt ns w)) = expected"
proof (induction ns arbitrary: w)
  case (Cons m ns)
  show ?case
  proof (cases "n \<in> set ns")
    case True
    with Cons.IH Cons.prems show ?thesis by (simp add: writes_Cons accept_stable del: writes.simps(2))
  next
    case False
    with Cons.prems writes_other [of n ns] read_own [of n w] show ?thesis by (simp add: writes_Cons del: writes.simps(2))
  qed
qed simp

end

section \<open>The servers behind the client\<close>

text \<open>One server per node name; \<open>up\<close> says which of them can be reached. A server that panics does not answer.\<close>

type_synonym servers = "string \<Rightarrow> KvServerImpl"

definition netClient :: "(string \<Rightarrow> bool) \<Rightarrow> string \<Rightarrow> servers \<Rightarrow> servers \<times> (code + string)" where
  "netClient up node w = (w, if up node then Inr node else Inl Unavailable)"

definition netGet :: "int \<Rightarrow> ShardMapState \<Rightarrow> string \<Rightarrow> string \<Rightarrow> servers \<Rightarrow> servers \<times> (code + (string \<times> bool))" where
  "netGet now sm node key w =
     (w, case Get now sm key (w node) of
           Inl _ \<Rightarrow> Inl Unavailable
         | Inr (r, None) \<Rightarrow> Inr r
         | Inr (r, Some err) \<Rightarrow> Inl err)"

definition netSet ::
    "int \<Rightarrow> ShardMapState \<Rightarrow> string \<Rightarrow> string \<Rightarrow> string \<Rightarrow> int \<Rightarrow> servers \<Rightarrow> servers \<times> code option" where
  "netSet now sm node key value ttlMs w =
     (case Set now sm key value ttlMs (w node) of
        Inl _ \<Rightarrow> (w, Some Unavailable)
      | Inr (server', err) \<Rightarrow> (w(node := server'), err))"

definition netDelete :: "ShardMapState \<Rightarrow> string \<Rightarrow> string \<Rightarrow> servers \<Rightarrow> servers \<times> code option" where
  "netDelete sm node key w =
     (case Delete sm key (w node) of
        Inl _ \<Rightarrow> (w, Some Unavailable)
      | Inr (server', err) \<Rightarrow> (w(node := server'), err))"

text \<open>A write of the client, to all replicas, and the write at one of them. The expiry of a \<open>Put\<close> counts milliseconds,
  that of \<open>kvSet\<close> nanoseconds.\<close>

fun netWrite :: "ShardMapState \<Rightarrow> (string, string) store_op \<Rightarrow> string \<Rightarrow> servers \<Rightarrow> servers \<times> code option" where
  "netWrite sm (Put now key value ttlMs) node w = netSet now sm node key value ttlMs w"
| "netWrite sm (Del key) node w = netDelete sm node key w"

lemma kvWrite_writeAll:
  "kvSet (netClient up) (netSet now sm) sched sm key value ttl =
     writeAll (netClient up) (netWrite sm (Put now key value (milliseconds ttl))) sched sm key"
  "kvDelete (netClient up) (netDelete sm) sched sm key = writeAll (netClient up) (netWrite sm (Del key)) sched sm key"
proof -
  have "netWrite sm (Put now key value (milliseconds ttl)) = (\<lambda>client. netSet now sm client key value (milliseconds ttl))"
    "netWrite sm (Del key) = (\<lambda>client. netDelete sm client key)"
    by (simp_all add: fun_eq_iff)
  note eq = this
  show "kvSet (netClient up) (netSet now sm) sched sm key value ttl =
     writeAll (netClient up) (netWrite sm (Put now key value (milliseconds ttl))) sched sm key"
    "kvDelete (netClient up) (netDelete sm) sched sm key = writeAll (netClient up) (netWrite sm (Del key)) sched sm key"
    by (rule ext, simp only: kvSet_def kvDelete_def eq)+
qed

lemma netWrite_hosted:
  assumes "kv_hosts sm (w node) (op_key a)"
  shows "netWrite sm a node w = (w(node := kv_exec sm a (w node)), None)"
proof (cases a)
  case (Put now key val ttl)
  with assms have "kv_hosts sm (w node) key" by simp
  then obtain server' where "Set now sm key val ttl (w node) = Inr (server', None)" by (rule Set_hosted)
  with Put show ?thesis by (simp add: netSet_def)
next
  case (Del key)
  with assms have "kv_hosts sm (w node) key" by simp
  then obtain server' where "Delete sm key (w node) = Inr (server', None)" by (rule Delete_hosted)
  with Del show ?thesis by (simp add: netDelete_def)
qed

lemma Set_not_hosted:
  "\<not> kv_hosts sm server key \<Longrightarrow> isl (Set now sm key val ttl server) \<or> (\<exists>e. Set now sm key val ttl server = Inr (server, Some e))"
  by (cases "GetShardForKey key (sm_NumShards sm)") (auto simp: Set_def kv_hosts_def shardOf_def)

lemma Delete_not_hosted:
  "\<not> kv_hosts sm server key \<Longrightarrow> isl (Delete sm key server) \<or> (\<exists>e. Delete sm key server = Inr (server, Some e))"
  by (cases "GetShardForKey key (sm_NumShards sm)") (auto simp: Delete_def kv_hosts_def shardOf_def)

lemma netWrite_not_hosted:
  assumes "\<not> kv_hosts sm (w node) (op_key a)"
  obtains e where "netWrite sm a node w = (w, Some e)"
proof (cases a)
  case (Put now key val ttl)
  with Set_not_hosted [of sm "w node" key now val ttl] assms that show thesis by (auto simp: netSet_def isl_def)
next
  case (Del key)
  with Delete_not_hosted [of sm "w node" key] assms that show thesis by (auto simp: netDelete_def isl_def)
qed

lemma Get_hosted:
  assumes "kv_hosts sm server key"
  shows "Get t sm key server = Inr (case kv_get sm t key server of None \<Rightarrow> ('''', False) | Some v \<Rightarrow> (v, True), None)"
  using assms by (auto simp: kv_get_def Get_def kv_hosts_def shardOf_def bind_eq_Some_conv split: sum.splits option.splits)

text \<open>What a reader sees at time \<open>t\<close> of the write \<open>a\<close>.\<close>

definition seen :: "int \<Rightarrow> (string, string) store_op \<Rightarrow> string \<times> bool" where
  "seen t a = (case op_read t a of None \<Rightarrow> ('''', False) | Some v \<Rightarrow> (v, True))"

abbreviation acceptsWrite :: "(string \<Rightarrow> bool) \<Rightarrow> ShardMapState \<Rightarrow> string \<Rightarrow> string \<Rightarrow> servers \<Rightarrow> bool" where
  "acceptsWrite up sm key node w \<equiv> up node \<and> kv_hosts sm (w node) key"

lemma writeNode_accept:
  assumes "acceptsWrite up sm (op_key a) node w"
  shows "writeNode (netClient up) (netWrite sm a) node w = (w(node := kv_exec sm a (w node)), None)"
  using assms by (simp add: writeNode_def netClient_def netWrite_hosted)

lemma writeNode_reject:
  assumes "\<not> acceptsWrite up sm (op_key a) node w"
  obtains e where "writeNode (netClient up) (netWrite sm a) node w = (w, Some e)"
proof (cases "up node")
  case True
  with assms have "\<not> kv_hosts sm (w node) (op_key a)" by simp
  then obtain e where "netWrite sm a node w = (w, Some e)" by (rule netWrite_not_hosted)
  with True that show thesis by (simp add: writeNode_def netClient_def)
qed (use that in \<open>simp add: writeNode_def netClient_def\<close>)

interpretation replicas: replica_set
  "writeNode (netClient up) (netWrite sm a)" "\<lambda>node w. snd (netGet t sm node (op_key a) w)"
  "acceptsWrite up sm (op_key a)" "Inr (seen t a)"
  for up sm a t
proof
  fix m n :: string and w :: servers
  consider (acc) "acceptsWrite up sm (op_key a) n w" | (rej) e where "\<not> acceptsWrite up sm (op_key a) n w"
    "writeNode (netClient up) (netWrite sm a) n w = (w, Some e)"
    using writeNode_reject by blast
  note c = this
  show "snd (writeNode (netClient up) (netWrite sm a) n w) = None \<longleftrightarrow> acceptsWrite up sm (op_key a) n w"
    by (rule c) (simp_all add: writeNode_accept)
  show "acceptsWrite up sm (op_key a) m (fst (writeNode (netClient up) (netWrite sm a) n w)) = acceptsWrite up sm (op_key a) m w"
    by (rule c) (auto simp: writeNode_accept kv.hosts_exec simp del: kv_exec.simps)
  show "snd (netGet t sm n (op_key a) (fst (writeNode (netClient up) (netWrite sm a) n w))) = Inr (seen t a)"
    if acc: "acceptsWrite up sm (op_key a) n w"
  proof -
    have "kv_get sm t (op_key a) (kv_exec sm a (w n)) = op_read t a"
      by (rule kv.get_same) (use acc in simp)
    then show ?thesis
      using acc by (simp add: writeNode_accept netGet_def Get_hosted kv.hosts_exec seen_def del: kv_exec.simps)
  qed
  show "snd (netGet t sm m (op_key a) (fst (writeNode (netClient up) (netWrite sm a) n w))) = snd (netGet t sm m (op_key a) w)"
    if "m \<noteq> n \<or> \<not> acceptsWrite up sm (op_key a) n w"
    by (rule c) (use that in \<open>auto simp: writeNode_accept netGet_def\<close>)
qed

lemma writeAll_servers:
  fixes w :: servers and up :: "string \<Rightarrow> bool"
  assumes "GetShardForKey (op_key a) (sm_NumShards sm) = Inr s" "NodesForShard s sm \<noteq> []"
    and "mset (sched (NodesForShard s sm)) = mset (NodesForShard s sm)"
  defines "w' \<equiv> fst (writes (writeNode (netClient up) (netWrite sm a)) (sched (NodesForShard s sm)) w)"
  shows "\<exists>err. writeAll (netClient up) (netWrite sm a) sched sm (op_key a) w = Inr (w', err) \<and>
    (err = None \<longleftrightarrow> (\<forall>node \<in> set (NodesForShard s sm). acceptsWrite up sm (op_key a) node w))"
proof -
  let ?run = "writes (writeNode (netClient up) (netWrite sm a)) (sched (NodesForShard s sm)) w"
  have "set (sched (NodesForShard s sm)) = set (NodesForShard s sm)"
    using assms(3) by (metis set_mset_mset)
  then have ok: "snd ?run = [] \<longleftrightarrow> (\<forall>node \<in> set (NodesForShard s sm). acceptsWrite up sm (op_key a) node w)"
    by (simp add: replicas.writes_ok_iff)
  have "writeAll (netClient up) (netWrite sm a) sched sm (op_key a) w =
      Inr (w', if length (snd ?run) > 0 then Some (hd (snd ?run)) else None)"
    using assms(1,2) by (simp add: writeAll_def fanOut_writes w'_def Let_def split: prod.split)
  with ok show ?thesis by auto
qed

text \<open>The write of the client that performs \<open>a\<close> on the key of \<open>a\<close>; \<open>ttl\<close> is the duration given to \<open>Set\<close>.\<close>

lemma tryNode_after_write:
  assumes "node \<in> set (sched nodes)" "acceptsWrite up sm (op_key a) node w"
  defines "w' \<equiv> fst (writes (writeNode (netClient up) (netWrite sm a)) (sched nodes) w)"
  shows "tryNode (netClient up') (netGet t sm) (op_key a) node w' =
    (w', if up' node then Inr (seen t a) else Inl Unavailable)"
proof -
  have "snd (netGet t sm node (op_key a) w') = Inr (seen t a)"
    unfolding w'_def by (rule replicas.writes_reach) (use assms(1,2) in simp_all)
  moreover have "fst (netGet t sm node (op_key a) w') = w'" by (simp add: netGet_def)
  ultimately show ?thesis by (auto simp: tryNode_def netClient_def prod_eq_iff)
qed

lemma read_any_replica:
  assumes wrote: "writeAll (netClient up) (netWrite sm a) sched sm (op_key a) w = Inr (w', None)"
    and shard: "GetShardForKey (op_key a) (sm_NumShards sm) = Inr s"
    and sched: "mset (sched (NodesForShard s sm)) = mset (NodesForShard s sm)"
    and reach: "node \<in> set (NodesForShard s sm)" "up' node"
  shows "kvGet (netClient up') (netGet t sm) intn sm (op_key a) w' = Inr (w', seen t a, None)"
proof -
  let ?nodes = "NodesForShard s sm" and ?tried = "\<lambda>n. snd (tryNode (netClient up') (netGet t sm) (op_key a) n w')"
  let ?asked = "rotate (intn (length ?nodes)) ?nodes"
  have ne: "?nodes \<noteq> []" using reach by auto
  from writeAll_servers [where w = w and up = up and sched = sched and a = a, OF shard ne sched] wrote
  have w': "w' = fst (writes (writeNode (netClient up) (netWrite sm a)) (sched ?nodes) w)"
    and acc: "\<forall>n \<in> set ?nodes. acceptsWrite up sm (op_key a) n w" by auto
  have eq: "set (sched ?nodes) = set ?nodes" using sched by (metis set_mset_mset)
  have tried: "?tried n = (if up' n then Inr (seen t a) else Inl Unavailable)" if "n \<in> set ?nodes" for n
    using tryNode_after_write [where sched = sched and nodes = ?nodes and up = up and w = w and t = t and up' = up' and a = a] that acc eq
    by (simp add: w')
  have f: "fst (tryNode (netClient up') (netGet t sm) (op_key a) n w') = w'" for n
    by (simp add: tryNode_def netClient_def netGet_def)
  obtain r where r: "kvGet (netClient up') (netGet t sm) intn sm (op_key a) w' = Inr (w', failover ?tried ?asked None)"
    using kvGet_ans [where I = "\<lambda>v. v = w'" and ans = ?tried and getClient = "netClient up'" and clientGet = "netGet t sm"
      and key = "op_key a" and sm = sm and s = s and w = w' and intn = intn] f shard ne by auto
  obtain n where n: "find (\<lambda>node. \<not> isl (?tried node)) ?asked = Some n"
    using tried reach find_None_iff [of "\<lambda>node. \<not> isl (?tried node)" ?asked]
    by (cases "find (\<lambda>node. \<not> isl (?tried node)) ?asked") auto
  then have "n \<in> set ?nodes" "\<not> isl (?tried n)" by (auto simp: find_Some_iff) (metis nth_mem set_rotate length_rotate)
  with tried [of n] n r show ?thesis by (auto simp: failover_def split: if_splits)
qed

text \<open>C25: a write that reports success is read back from any replica. After \<open>Set\<close> has returned without an error, a read that can
  reach at least one replica of the key's shard returns the value, as long as fewer whole milliseconds than its time to live have passed,
  and nothing after that; after \<open>Delete\<close> without an error it returns nothing. The goroutines of the write run in any
  order (\<open>sched\<close>), the read starts at any replica (\<open>intn\<close>), and the replicas that can be reached may have changed in between.\<close>

theorem write_all_read_any:
  assumes "GetShardForKey key (sm_NumShards sm) = Inr s"
    and "mset (sched (NodesForShard s sm)) = mset (NodesForShard s sm)"
    and "node \<in> set (NodesForShard s sm)" "up' node"
  shows "(kvSet (netClient up) (netSet now sm) sched sm key value ttl w = Inr (w', None) \<longrightarrow>
      kvGet (netClient up') (netGet t sm) intn sm key w' =
        Inr (w', if milliseconds (t - now) < milliseconds ttl then (value, True) else ('''', False), None)) \<and>
    (kvDelete (netClient up) (netDelete sm) sched sm key w = Inr (w', None) \<longrightarrow>
      kvGet (netClient up') (netGet t sm) intn sm key w' = Inr (w', ('''', False), None))"
  using read_any_replica [of up sm "Put now key value (milliseconds ttl)" sched w w' s node up' t intn]
    read_any_replica [of up sm "Del key" sched w w' s node up' t intn] assms
  by (simp add: kvWrite_writeAll seen_def)

text \<open>A write goes to every replica even if some of them fail. It succeeds exactly if every replica can be reached and hosts the
  shard; whether or not it does, the replicas that can be reached and host the shard show the new value afterwards, and no other server shows a
  difference.\<close>

theorem set_on_every_replica:
  assumes "GetShardForKey key (sm_NumShards sm) = Inr s" "NodesForShard s sm \<noteq> []"
    and "mset (sched (NodesForShard s sm)) = mset (NodesForShard s sm)"
  shows "\<exists>w' err. kvSet (netClient up) (netSet now sm) sched sm key value ttl w = Inr (w', err) \<and>
    (err = None \<longleftrightarrow> (\<forall>node \<in> set (NodesForShard s sm). up node \<and> kv_hosts sm (w node) key)) \<and>
    (\<forall>node t. snd (netGet t sm node key w') =
       (if node \<in> set (NodesForShard s sm) \<and> up node \<and> kv_hosts sm (w node) key
        then Inr (seen t (Put now key value (milliseconds ttl)))
        else snd (netGet t sm node key w)))"
proof -
  let ?a = "Put now key value (milliseconds ttl)"
  let ?w' = "fst (writes (writeNode (netClient up) (netWrite sm ?a)) (sched (NodesForShard s sm)) w)"
  have "set (sched (NodesForShard s sm)) = set (NodesForShard s sm)"
    using assms(3) by (metis set_mset_mset)
  then have "snd (netGet t sm node key ?w') =
      (if node \<in> set (NodesForShard s sm) \<and> up node \<and> kv_hosts sm (w node) key then Inr (seen t ?a)
       else snd (netGet t sm node key w))" for node t
    using replicas.writes_reach [where n = node and ns = "sched (NodesForShard s sm)" and up = up and sm = sm and a = ?a and w = w and t = t]
      replicas.writes_other [where m = node and ns = "sched (NodesForShard s sm)" and up = up and sm = sm and a = ?a and w = w and t = t]
    by auto
  with writeAll_servers [where a = ?a and sm = sm and s = s and sched = sched and up = up and w = w] assms show ?thesis
    by (auto simp: kvWrite_writeAll)
qed

text \<open>Two replicas of the key \<open>abc\<close>.\<close>

definition sample_pair :: ShardMapState where
  "sample_pair = sample_shards\<lparr>ShardsToNodes := [(1, [''n1'']), (2, [''n1'', ''n2''])]\<rparr>"

lemma sample_pair_nodes:
  "NodesForShard 2 sample_pair = [''n1'', ''n2'']" "GetShardForKey ''abc'' (sm_NumShards sample_pair) = Inr 2"
  by (simp_all add: sample_pair_def NodesForShard_def sample_shards_def sample_shardOf(2))

lemma sample_pair_hosts: "kv_hosts sample_pair sample_server ''abc''"
  using sample_server_hosts by (simp add: kv_hosts_def shardOf_def sample_pair_def)

theorem set_on_every_replica_witness:
  "\<exists>w' e. kvSet (netClient (\<lambda>n. n = ''n2'')) (netSet 0 sample_pair) rev sample_pair ''abc'' ''v'' 5000000 (\<lambda>_. sample_server) =
      Inr (w', Some e) \<and> snd (netGet 1000000 sample_pair ''n2'' ''abc'' w') = Inr (''v'', True)"
  using set_on_every_replica [of "''abc''" sample_pair 2 rev "\<lambda>n. n = ''n2''" 0 "''v''" 5000000 "\<lambda>_. sample_server"]
  by (auto simp: sample_pair_nodes sample_pair_hosts seen_def milliseconds_def)

theorem write_all_read_any_witness:
  "\<exists>w'. kvSet (netClient (\<lambda>_. True)) (netSet 0 sample_pair) rev sample_pair ''abc'' ''v'' 5000000 (\<lambda>_. sample_server) =
      Inr (w', None) \<and>
    kvGet (netClient (\<lambda>n. n = ''n2'')) (netGet 4000000 sample_pair) (\<lambda>n. 1) sample_pair ''abc'' w' =
      Inr (w', (''v'', True), None)"
proof -
  have "\<exists>err. writeAll (netClient (\<lambda>_. True)) (netWrite sample_pair (Put 0 ''abc'' ''v'' 5)) rev sample_pair ''abc''
      (\<lambda>_. sample_server) = Inr (fst (writes (writeNode (netClient (\<lambda>_. True)) (netWrite sample_pair (Put 0 ''abc'' ''v'' 5)))
        (rev [''n1'', ''n2'']) (\<lambda>_. sample_server)), err) \<and> err = None"
    using writeAll_servers [where a = "Put 0 ''abc'' ''v'' 5" and sm = sample_pair and s = 2 and sched = rev
      and up = "\<lambda>_. True" and w = "\<lambda>_. sample_server"]
    by (simp add: sample_pair_nodes sample_pair_hosts)
  then obtain w' where "kvSet (netClient (\<lambda>_. True)) (netSet 0 sample_pair) rev sample_pair ''abc'' ''v'' 5000000
      (\<lambda>_. sample_server) = Inr (w', None)"
    by (auto simp: kvWrite_writeAll milliseconds_def)
  with write_all_read_any [of "''abc''" sample_pair 2 rev "''n2''" "\<lambda>n. n = ''n2''" "\<lambda>_. True" 0 "''v''" 5000000
      "\<lambda>_. sample_server" w' 4000000 "\<lambda>_. 1"]
  show ?thesis by (auto simp: sample_pair_nodes milliseconds_def)
qed

theorem kvGet_failover_witness:
  "\<exists>r err. kvGet (netClient (\<lambda>n. n = ''n2'')) (netGet 0 sample_pair) (\<lambda>n. 0) sample_pair ''abc'' (\<lambda>_. sample_server) =
      Inr (\<lambda>_. sample_server, r, err) \<and> (err = None \<longrightarrow> r = ('''', False))"
proof -
  let ?ans = "\<lambda>node. snd (tryNode (netClient (\<lambda>n. n = ''n2'')) (netGet 0 sample_pair) ''abc'' node (\<lambda>_. sample_server))"
  have "kv_get sample_pair 0 ''abc'' sample_server = None"
    by (simp add: kv_get_item kv_item_def sample_server_def shardOf_def sample_pair_def sample_shards_def sample_shardOf(2))
  then have a: "?ans n = (if n = ''n2'' then Inr ('''', False) else Inl Unavailable)" for n
    by (simp add: tryNode_def netClient_def netGet_def Get_hosted sample_pair_hosts)
  have "fst (tryNode (netClient (\<lambda>n. n = ''n2'')) (netGet 0 sample_pair) ''abc'' node w) = w" for node w
    by (simp add: tryNode_def netClient_def netGet_def)
  with kvGet_failover [of "\<lambda>w. w = (\<lambda>_. sample_server)" "netClient (\<lambda>n. n = ''n2'')" "netGet 0 sample_pair" "''abc''" ?ans
      "\<lambda>_. sample_server" sample_pair 2 "\<lambda>n. 0"] a
  show ?thesis by (auto simp: sample_pair_nodes split: option.splits if_splits)
qed

end
