(* ===== verification/Kv_Checker.thy ===== *)
theory Kv_Checker
  imports Kv_Client
begin

text \<open>
  The consistency checker of \<open>lab4/checker/checker.go\<close> and the requests of the stress tester,
  \<open>lab4/cmd/stress/tester.go\<close>, that use it.

  The values the checker keeps per key are Go maps from values to \<open>stateValue\<close>; a nil inner map reads like an empty
  one and \<open>CompleteWrite\<close> makes it before it writes, so both are the empty list. Instants are nanoseconds; the zero
  \<open>time.Time\<close> is \<open>None\<close>. The flags of the command line are a record.
\<close>

section \<open>The checker\<close>

record checker_flags =
  checkCorrectness :: bool
  checkTtl :: bool
  ttlCheckBuffer :: int

record stateValue =
  sv_value :: string
  writtenAt :: int
  maybeExpiredBy :: int
  definitelyExpiredBy :: int
  sv_err :: "code option"
  overwrittenAt :: "int option"

record ConsistencyChecker =
  ChecksRun :: "64 word"
  cc_values :: "string \<Rightarrow> (string \<times> stateValue) list"
  overwrittenValues :: "string \<Rightarrow> (string \<times> stateValue) list"
  version :: "string \<Rightarrow> int"
  rc :: "string \<Rightarrow> int"

definition MakeConsistencyChecker :: ConsistencyChecker where
  "MakeConsistencyChecker =
     \<lparr>ChecksRun = 0, cc_values = (\<lambda>_. []), overwrittenValues = (\<lambda>_. []), version = (\<lambda>_. 0), rc = (\<lambda>_. 0)\<rparr>"

definition BeginWrite :: "checker_flags \<Rightarrow> string \<Rightarrow> ConsistencyChecker \<Rightarrow> int \<times> ConsistencyChecker" where
  "BeginWrite fl key cc =
     (if \<not> checkCorrectness fl then (0, cc)
      else let cc' = cc\<lparr>rc := (rc cc)(key := rc cc key + 1)\<rparr> in (version cc' key, cc'))"

definition CompleteWrite ::
    "checker_flags \<Rightarrow> int \<Rightarrow> string \<Rightarrow> string \<Rightarrow> code option \<Rightarrow> int \<Rightarrow> int \<Rightarrow> int \<Rightarrow> ConsistencyChecker \<Rightarrow> ConsistencyChecker go" where
  "CompleteWrite fl now key value err initialVersion maybeExpired definitelyExpired cc =
     (if \<not> checkCorrectness fl then Inr cc
      else
        let newVal = \<lparr>sv_value = value, writtenAt = now, maybeExpiredBy = maybeExpired,
              definitelyExpiredBy = definitelyExpired + ttlCheckBuffer fl, sv_err = err, overwrittenAt = None\<rparr>;
            currentVersion = version cc key
        in
        if map_of (cc_values cc key) value \<noteq> None then Inl (ExplicitPanic ''duplicate values are not supported!'')
        else if map_of (overwrittenValues cc key) value \<noteq> None then Inl (ExplicitPanic ''duplicate values are not supported!'')
        else
          let cc1 =
            (if err = None \<and> initialVersion = currentVersion \<and> rc cc key = 1 then
               cc\<lparr>overwrittenValues := (overwrittenValues cc)(key :=
                    fold (\<lambda>(_, val). AList.update (sv_value val) val) (cc_values cc key) (overwrittenValues cc key)),
                  cc_values := (cc_values cc)(key := [(value, newVal)])\<rparr>
             else cc\<lparr>cc_values := (cc_values cc)(key := AList.update value newVal (cc_values cc key))\<rparr>)
          in Inr (cc1\<lparr>rc := (rc cc1)(key := rc cc1 key - 1), version := (version cc1)(key := version cc1 key + 1)\<rparr>))"

definition BeginRead :: "checker_flags \<Rightarrow> string \<Rightarrow> ConsistencyChecker \<Rightarrow> int \<times> bool" where
  "BeginRead fl key cc = (if \<not> checkCorrectness fl then (0, False) else (version cc key, rc cc key \<noteq> 0))"

text \<open>The errors of \<open>CheckReadCorrect\<close> with what their messages print; \<open>time.Since\<close> of the zero time saturates at the largest
  \<open>time.Duration\<close>.\<close>

datatype check_error =
    NoValueFound "stateValue list"
  | WasOverwritten string int
  | NeverWritten
  | ExpiredValue string int

definition since :: "int \<Rightarrow> int option \<Rightarrow> int" where
  "since now t = (case t of None \<Rightarrow> 9223372036854775807 | Some t \<Rightarrow> now - t)"

definition CheckReadCorrect ::
    "checker_flags \<Rightarrow> int \<Rightarrow> string \<Rightarrow> string \<Rightarrow> bool \<Rightarrow> int \<Rightarrow> int \<Rightarrow> bool \<Rightarrow> ConsistencyChecker \<Rightarrow>
     check_error option \<times> ConsistencyChecker" where
  "CheckReadCorrect fl now key value wasFound startTime initialVersion writesPending cc =
     (if \<not> checkCorrectness fl then (None, cc)
      else if version cc key \<noteq> initialVersion \<or> writesPending \<or> rc cc key \<noteq> 0 then (None, cc)
      else
        let cc' = cc\<lparr>ChecksRun := ChecksRun cc + 1\<rparr>; vals = map snd (cc_values cc key) in
        (if \<not> wasFound then
           let someValueExpired = (vals = [] \<or> list_ex (\<lambda>v. maybeExpiredBy v < now) vals);
               valsNotExpired = filter (\<lambda>v. \<not> maybeExpiredBy v < now) vals
           in if \<not> someValueExpired then Some (NoValueFound valsNotExpired) else None
         else
           (case map_of (cc_values cc key) value of
              None \<Rightarrow>
                (case map_of (overwrittenValues cc key) value of
                   Some overwrittenVal \<Rightarrow> Some (WasOverwritten value (milliseconds (since now (overwrittenAt overwrittenVal))))
                 | None \<Rightarrow> Some NeverWritten)
            | Some val \<Rightarrow>
                if checkTtl fl \<and> sv_err val = None \<and> definitelyExpiredBy val < startTime
                then Some (ExpiredValue value (milliseconds (startTime - maybeExpiredBy val)))
                else None), cc'))"

section \<open>The requests of the stress tester\<close>

text \<open>\<open>stressSets\<close> and \<open>stressGets\<close> around a store that is a register with expiry per key: \<open>register key\<close> is the
  last value that took effect and when, and a read at time \<open>t\<close> sees what \<open>op_read\<close> says of it. A request has three steps: its begin at the
  checker, its effect on the store, and its end at the checker; the steps of different requests interleave in any
  order. A write that ends with an error before it has taken effect may take effect later: \<open>failedSets\<close> holds these writes, and \<open>lateEffect key\<close> tells
  whether one of them has taken effect on the key after it had ended. These two and the register describe the store and not the tester.\<close>

record set_call =
  sc_key :: string
  sc_value :: string
  sc_version :: int
  sc_start :: int
  sc_applied :: "int option"

record get_call =
  gc_key :: string
  gc_version :: int
  gc_writesPending :: bool
  gc_start :: int
  gc_answer :: "(int \<times> string option) option"

record stressTester =
  clock :: int
  cc :: ConsistencyChecker
  register :: "string \<Rightarrow> (string \<times> int) option"
  failedSets :: "(string \<times> string) list"
  lateEffect :: "string \<Rightarrow> bool"
  setCalls :: "set_call list"
  getCalls :: "get_call list"
  gets :: "64 word"
  getErrs :: "64 word"
  sets :: "64 word"
  setErrs :: "64 word"
  inconsistencies :: "64 word"

definition beginSet :: "checker_flags \<Rightarrow> string \<Rightarrow> string \<Rightarrow> stressTester \<Rightarrow> stressTester" where
  "beginSet fl key value st =
     (let (initialVersion, cc') = BeginWrite fl key (cc st) in
      st\<lparr>cc := cc', setCalls := setCalls st @
        [\<lparr>sc_key = key, sc_value = value, sc_version = initialVersion, sc_start = clock st, sc_applied = None\<rparr>]\<rparr>)"

definition applySet :: "nat \<Rightarrow> stressTester \<Rightarrow> stressTester" where
  "applySet i st =
     (let c = setCalls st ! i in
      st\<lparr>register := (register st)(sc_key c \<mapsto> (sc_value c, clock st)),
         setCalls := (setCalls st)[i := c\<lparr>sc_applied := Some (clock st)\<rparr>]\<rparr>)"

definition endSet :: "checker_flags \<Rightarrow> int \<Rightarrow> nat \<Rightarrow> int \<Rightarrow> code option \<Rightarrow> stressTester \<Rightarrow> stressTester go" where
  "endSet fl ttl i endTime err st =
     (let c = setCalls st ! i;
          st1 = st\<lparr>sets := sets st + 1, setErrs := (if err \<noteq> None then setErrs st + 1 else setErrs st)\<rparr>
      in go_bind (CompleteWrite fl (clock st) (sc_key c) (sc_value c) err (sc_version c) (sc_start c + ttl) (endTime + ttl) (cc st1))
           (\<lambda>cc'. Inr (st1\<lparr>cc := cc', setCalls := remove_nth i (setCalls st1)\<rparr>)))"

definition beginGet :: "checker_flags \<Rightarrow> string \<Rightarrow> stressTester \<Rightarrow> stressTester" where
  "beginGet fl key st =
     (let (initialVersion, writesPending) = BeginRead fl key (cc st) in
      st\<lparr>getCalls := getCalls st @ [\<lparr>gc_key = key, gc_version = initialVersion, gc_writesPending = writesPending,
          gc_start = clock st, gc_answer = None\<rparr>]\<rparr>)"

definition applyGet :: "int \<Rightarrow> nat \<Rightarrow> stressTester \<Rightarrow> stressTester" where
  "applyGet ttl i st =
     (let c = getCalls st ! i in
      st\<lparr>getCalls := (getCalls st)[i := c\<lparr>gc_answer := Some (clock st,
          case register st (gc_key c) of None \<Rightarrow> None | Some (v, t) \<Rightarrow> op_read (clock st) (Put t (gc_key c) v (milliseconds ttl)))\<rparr>]\<rparr>)"

text \<open>The end of a request of \<open>stressGets\<close>, with \<open>res\<close> what \<open>Get\<close> returned. The flags \<open>errAllow\<close> and \<open>okAllow\<close> are what the two log
  limiters answer; the result also tells which line is logged.\<close>

datatype get_log = GetFailed | WrongAnswer check_error | GetOK

definition endGet ::
    "checker_flags \<Rightarrow> bool \<Rightarrow> bool \<Rightarrow> nat \<Rightarrow> code + (string \<times> bool) \<Rightarrow> stressTester \<Rightarrow> get_log option \<times> stressTester" where
  "endGet fl errAllow okAllow i res st =
     (let c = getCalls st ! i; st1 = st\<lparr>gets := gets st + 1, getCalls := remove_nth i (getCalls st)\<rparr> in
      case res of
        Inl _ \<Rightarrow> (if errAllow then Some GetFailed else None, st1\<lparr>getErrs := getErrs st1 + 1\<rparr>)
      | Inr (val, wasFound) \<Rightarrow>
          let (err, cc') = CheckReadCorrect fl (clock st) (gc_key c) val wasFound (gc_start c) (gc_version c) (gc_writesPending c) (cc st1);
              st2 = st1\<lparr>cc := cc'\<rparr>
          in (case err of
                Some e \<Rightarrow>
                  if errAllow then (Some (WrongAnswer e), st2\<lparr>inconsistencies := inconsistencies st2 + 1\<rparr>)
                  else if okAllow then (Some GetOK, st2) else (None, st2)
              | None \<Rightarrow> if okAllow then (Some GetOK, st2) else (None, st2)))"

section \<open>Executions\<close>

text \<open>The stress tester draws its values at random and relies on them being new for their key. A write that reports success has
  taken effect before it ends. One that reports an error has taken effect before, takes effect at some later time, or never does. An answer is checked strictly after it was given.\<close>

definition freshValue :: "string \<Rightarrow> string \<Rightarrow> stressTester \<Rightarrow> bool" where
  "freshValue key value st \<longleftrightarrow>
     map_of (cc_values (cc st) key) value = None \<and> map_of (overwrittenValues (cc st) key) value = None \<and>
     list_all (\<lambda>c. sc_key c = key \<longrightarrow> sc_value c \<noteq> value) (setCalls st)"

definition mayEnd :: "nat \<Rightarrow> int \<Rightarrow> code option \<Rightarrow> stressTester \<Rightarrow> bool" where
  "mayEnd i endTime err st \<longleftrightarrow>
     (case sc_applied (setCalls st ! i) of
        Some t \<Rightarrow> t \<le> endTime
      | None \<Rightarrow> err \<noteq> None)"

definition keepFailed :: "set_call \<Rightarrow> stressTester \<Rightarrow> stressTester" where
  "keepFailed c st = (if sc_applied c = None then st\<lparr>failedSets := (sc_key c, sc_value c) # failedSets st\<rparr> else st)"

definition lateSet :: "string \<Rightarrow> string \<Rightarrow> stressTester \<Rightarrow> stressTester" where
  "lateSet key value st = st\<lparr>register := (register st)(key \<mapsto> (value, clock st)), lateEffect := (lateEffect st)(key := True)\<rparr>"

definition answerOf :: "string option \<Rightarrow> string \<times> bool" where
  "answerOf a = (case a of None \<Rightarrow> ('''', False) | Some v \<Rightarrow> (v, True))"

inductive stress_step :: "checker_flags \<Rightarrow> int \<Rightarrow> stressTester \<Rightarrow> stressTester \<Rightarrow> bool" for fl ttl where
  tick: "clock st \<le> t \<Longrightarrow> stress_step fl ttl st (st\<lparr>clock := t\<rparr>)"
| set_begin: "freshValue key value st \<Longrightarrow> stress_step fl ttl st (beginSet fl key value st)"
| set_apply: "i < length (setCalls st) \<Longrightarrow> sc_applied (setCalls st ! i) = None \<Longrightarrow> stress_step fl ttl st (applySet i st)"
| set_end: "i < length (setCalls st) \<Longrightarrow> mayEnd i endTime err st \<Longrightarrow> endSet fl ttl i endTime err st = Inr st' \<Longrightarrow>
    stress_step fl ttl st (keepFailed (setCalls st ! i) st')"
| set_late: "(key, value) \<in> set (failedSets st) \<Longrightarrow> stress_step fl ttl st (lateSet key value st)"
| get_begin: "stress_step fl ttl st (beginGet fl key st)"
| get_apply: "i < length (getCalls st) \<Longrightarrow> gc_answer (getCalls st ! i) = None \<Longrightarrow> stress_step fl ttl st (applyGet ttl i st)"
| get_end: "i < length (getCalls st) \<Longrightarrow> gc_answer (getCalls st ! i) = Some (t, a) \<Longrightarrow> t < clock st \<Longrightarrow>
    endGet fl errAllow okAllow i (Inr (answerOf a)) st = (msg, st') \<Longrightarrow> stress_step fl ttl st st'"
| get_failed: "i < length (getCalls st) \<Longrightarrow> endGet fl errAllow okAllow i (Inl e) st = (msg, st') \<Longrightarrow> stress_step fl ttl st st'"

definition makeStressTester :: "int \<Rightarrow> stressTester" where
  "makeStressTester now =
     \<lparr>clock = now, cc = MakeConsistencyChecker, register = (\<lambda>_. None), failedSets = [], lateEffect = (\<lambda>_. False), setCalls = [], getCalls = [], gets = 0, getErrs = 0,
      sets = 0, setErrs = 0, inconsistencies = 0\<rparr>"

section \<open>What the checker knows of the store\<close>

text \<open>For each key: the reference count counts the pending writes, whose values are new. Unless a failed write took effect late: what the store holds was written by a pending
  write or is among the checker's values, with bounds on its expiry that hold; a write that no other write has completed
  against has, once it took effect, only been overwritten by pending writes; and an answer that can be checked still describes the
  store.\<close>

definition regRead :: "int \<Rightarrow> int \<Rightarrow> (string \<times> int) option \<Rightarrow> string option" where
  "regRead ttl now reg =
     (case reg of None \<Rightarrow> None | Some (v, t) \<Rightarrow> if milliseconds (now - t) < milliseconds ttl then Some v else None)"

definition callsOn :: "string \<Rightarrow> set_call list \<Rightarrow> set_call list" where
  "callsOn k cs = filter (\<lambda>c. sc_key c = k) cs"

text \<open>The arguments \<open>ver\<close>, \<open>vals\<close>, \<open>old\<close>, \<open>reg\<close> and \<open>calls\<close> are the version, the values, the overwritten values, the
  register and the pending writes of one key.\<close>

definition value_known :: "int \<Rightarrow> (string \<times> stateValue) list \<Rightarrow> string \<Rightarrow> int \<Rightarrow> bool" where
  "value_known ttl vals v t \<longleftrightarrow>
     (\<exists>sv. map_of vals v = Some sv \<and> maybeExpiredBy sv \<le> t + ttl \<and> (sv_err sv = None \<longrightarrow> t + ttl \<le> definitelyExpiredBy sv))"

definition applied_by :: "(string \<times> int) option \<Rightarrow> set_call \<Rightarrow> bool" where
  "applied_by reg c \<longleftrightarrow> (case sc_applied c of None \<Rightarrow> False | Some t \<Rightarrow> reg = Some (sc_value c, t))"

definition pending_ok ::
    "int \<Rightarrow> int \<Rightarrow> (string \<times> stateValue) list \<Rightarrow> (string \<times> stateValue) list \<Rightarrow> set_call \<Rightarrow> bool" where
  "pending_ok now ver vals old c \<longleftrightarrow>
     sc_version c \<le> ver \<and> sc_start c \<le> now \<and> map_of vals (sc_value c) = None \<and> map_of old (sc_value c) = None \<and>
     (\<forall>t. sc_applied c = Some t \<longrightarrow> sc_start c \<le> t \<and> t \<le> now)"

definition latest_ok :: "int \<Rightarrow> (string \<times> int) option \<Rightarrow> set_call list \<Rightarrow> bool" where
  "latest_ok ver reg calls \<longleftrightarrow>
     (\<forall>c \<in> set calls. sc_version c = ver \<longrightarrow> sc_applied c \<noteq> None \<longrightarrow> (\<exists>c' \<in> set calls. applied_by reg c'))"

definition register_ok :: "int \<Rightarrow> int \<Rightarrow> (string \<times> stateValue) list \<Rightarrow> (string \<times> int) option \<Rightarrow> set_call list \<Rightarrow> bool" where
  "register_ok ttl now vals reg calls \<longleftrightarrow>
     (case reg of
        None \<Rightarrow> (\<forall>sv \<in> snd ` set vals. sv_err sv \<noteq> None) \<and> (\<forall>c \<in> set calls. sc_applied c = None)
      | Some (v, t) \<Rightarrow> t \<le> now \<and> (value_known ttl vals v t \<or> (\<exists>c \<in> set calls. applied_by reg c)))"

definition key_ok ::
    "bool \<Rightarrow> int \<Rightarrow> int \<Rightarrow> int \<Rightarrow> int \<Rightarrow> (string \<times> stateValue) list \<Rightarrow> (string \<times> stateValue) list \<Rightarrow>
     (string \<times> int) option \<Rightarrow> set_call list \<Rightarrow> bool" where
  "key_ok late ttl now ver n vals old reg calls \<longleftrightarrow>
     n = int (length calls) \<and> distinct (map sc_value calls) \<and> (\<forall>(v, sv) \<in> set vals. sv_value sv = v) \<and>
     (\<forall>c \<in> set calls. pending_ok now ver vals old c) \<and> (\<not> late \<longrightarrow> latest_ok ver reg calls \<and> register_ok ttl now vals reg calls)"

definition answer_ok :: "bool \<Rightarrow> int \<Rightarrow> int \<Rightarrow> int \<Rightarrow> (string \<times> int) option \<Rightarrow> set_call list \<Rightarrow> get_call \<Rightarrow> bool" where
  "answer_ok late ttl now ver reg calls r \<longleftrightarrow>
     gc_version r \<le> ver \<and> gc_start r \<le> now \<and>
     (\<forall>t a. gc_answer r = Some (t, a) \<longrightarrow> gc_start r \<le> t \<and> t \<le> now \<and>
       (\<not> late \<longrightarrow> gc_version r = ver \<longrightarrow> calls = [] \<longrightarrow> a = regRead ttl t reg))"

definition tester_key_ok :: "int \<Rightarrow> stressTester \<Rightarrow> string \<Rightarrow> bool" where
  "tester_key_ok ttl st k \<longleftrightarrow>
     key_ok (lateEffect st k) ttl (clock st) (version (cc st) k) (rc (cc st) k) (cc_values (cc st) k) (overwrittenValues (cc st) k)
       (register st k) (callsOn k (setCalls st)) \<and>
     (\<forall>r \<in> set (getCalls st). gc_key r = k \<longrightarrow>
        answer_ok (lateEffect st k) ttl (clock st) (version (cc st) k) (register st k) (callsOn k (setCalls st)) r)"

definition tester_ok :: "int \<Rightarrow> stressTester \<Rightarrow> bool" where
  "tester_ok ttl st \<longleftrightarrow> (\<forall>k. tester_key_ok ttl st k)"

lemma callsOn_simps [simp]:
  "callsOn k [] = []" "callsOn k (c # cs) = (if sc_key c = k then c # callsOn k cs else callsOn k cs)"
  "callsOn k (cs @ ds) = callsOn k cs @ callsOn k ds"
  by (simp_all add: callsOn_def)

lemma op_read_regRead:
  "(case reg of None \<Rightarrow> None | Some (v, t') \<Rightarrow> op_read t (Put t' k v (milliseconds ttl))) = regRead ttl t reg"
  by (simp add: regRead_def split: option.split)

text \<open>The steps on the view of one key.\<close>

lemma pending_ok_tick: "pending_ok now ver vals old c \<Longrightarrow> now \<le> t \<Longrightarrow> pending_ok t ver vals old c"
  unfolding pending_ok_def by (meson order_trans)

lemma register_ok_tick: "register_ok ttl now vals reg calls \<Longrightarrow> now \<le> t \<Longrightarrow> register_ok ttl t vals reg calls"
  by (cases reg) (auto simp: register_ok_def)

lemma key_ok_tick: "key_ok late ttl now ver n vals old reg calls \<Longrightarrow> now \<le> t \<Longrightarrow> key_ok late ttl t ver n vals old reg calls"
  unfolding key_ok_def by (elim conjE, intro conjI ballI) (auto intro: pending_ok_tick register_ok_tick)

lemma answer_ok_tick: "answer_ok late ttl now ver reg calls r \<Longrightarrow> now \<le> t \<Longrightarrow> answer_ok late ttl t ver reg calls r"
  unfolding answer_ok_def by (meson order_trans)

lemma key_ok_begin:
  assumes "key_ok late ttl now ver n vals old reg calls"
    "map_of vals v = None" "map_of old v = None" "\<forall>c \<in> set calls. sc_value c \<noteq> v"
  shows "key_ok late ttl now ver (n + 1) vals old reg
    (calls @ [\<lparr>sc_key = k, sc_value = v, sc_version = ver, sc_start = now, sc_applied = None\<rparr>])"
  using assms
  by (auto simp: key_ok_def pending_ok_def latest_ok_def register_ok_def applied_by_def split: option.splits)

lemma key_ok_apply:
  assumes ok: "key_ok late ttl now ver n vals old reg (as @ c # bs)" and new: "sc_applied c = None"
  shows "key_ok late ttl now ver n vals old (Some (sc_value c, now)) (as @ c\<lparr>sc_applied := Some now\<rparr> # bs)"
proof -
  have p: "pending_ok now ver vals old (c\<lparr>sc_applied := Some now\<rparr>)"
    using ok new by (simp add: key_ok_def pending_ok_def)
  have "applied_by (Some (sc_value c, now)) (c\<lparr>sc_applied := Some now\<rparr>)" by (simp add: applied_by_def)
  then show ?thesis using ok p by (auto simp: key_ok_def latest_ok_def register_ok_def)
qed

lemma answer_ok_calls:
  "answer_ok late ttl now ver reg calls r \<Longrightarrow> calls' \<noteq> [] \<Longrightarrow> answer_ok late ttl now ver reg' calls' r"
  by (auto simp: answer_ok_def)

lemma answer_ok_end: "answer_ok late ttl now ver reg calls r \<Longrightarrow> answer_ok late ttl now (ver + 1) reg calls' r"
  by (auto simp: answer_ok_def)

lemma answer_ok_apply:
  "answer_ok late ttl now ver reg calls r \<Longrightarrow> answer_ok late ttl now ver reg calls (r\<lparr>gc_answer := Some (now, regRead ttl now reg)\<rparr>)"
  by (auto simp: answer_ok_def)

lemma set_AList_update: "set (AList.update k v m) \<subseteq> insert (k, v) (set m)"
  by (induction m) auto

definition new_value :: "int \<Rightarrow> set_call \<Rightarrow> int \<Rightarrow> code option \<Rightarrow> stateValue \<Rightarrow> bool" where
  "new_value ttl c endTime err nv \<longleftrightarrow>
     sv_value nv = sc_value c \<and> maybeExpiredBy nv = sc_start c + ttl \<and> endTime + ttl \<le> definitelyExpiredBy nv \<and> sv_err nv = err"

lemma value_known_new:
  assumes "pending_ok now ver vals old c" "sc_applied c = Some t" "new_value ttl c endTime err nv" "err = None \<longrightarrow> t \<le> endTime"
    "map_of vals' (sc_value c) = Some nv"
  shows "value_known ttl vals' (sc_value c) t"
  using assms by (auto simp: value_known_def pending_ok_def new_value_def)

lemma key_ok_end_alone:
  assumes ok: "key_ok late ttl now ver 1 vals old reg (as @ c # bs)" and nv: "new_value ttl c endTime None nv"
    and applied: "sc_applied c = Some t" "t \<le> endTime" and ver: "sc_version c = ver"
  shows "key_ok late ttl now (ver + 1) 0 [(sc_value c, nv)] old' reg (as @ bs)"
proof -
  from ok have "1 = int (length (as @ c # bs))" unfolding key_ok_def by (elim conjE)
  then have "length (as @ c # bs) = 1" by linarith
  then have l: "as = []" "bs = []" by simp_all
  from ok have p: "pending_ok now ver vals old c" unfolding key_ok_def by auto
  have "register_ok ttl now [(sc_value c, nv)] reg []" if "\<not> late"
  proof -
    from ok that have "latest_ok ver reg (as @ c # bs)" unfolding key_ok_def by auto
    then have "applied_by reg c" using applied(1) ver by (simp add: latest_ok_def l)
    with applied have reg: "reg = Some (sc_value c, t)" by (simp add: applied_by_def)
    moreover have "t \<le> now" using p applied by (simp add: pending_ok_def)
    moreover have "value_known ttl [(sc_value c, nv)] (sc_value c) t"
      by (rule value_known_new [OF p applied(1) nv]) (use applied in simp_all)
    ultimately show ?thesis by (simp add: register_ok_def)
  qed
  then show ?thesis using nv unfolding l key_ok_def by (simp add: latest_ok_def new_value_def)
qed

lemma register_ok_end:
  assumes ok: "register_ok ttl now vals reg (as @ c # bs)" and p: "pending_ok now ver vals old c"
    and nv: "new_value ttl c endTime err nv"
    and may: "case sc_applied c of Some t \<Rightarrow> t \<le> endTime | None \<Rightarrow> err \<noteq> None"
  shows "register_ok ttl now (AList.update (sc_value c) nv vals) reg (as @ bs)"
proof (cases reg)
  case None
  then have "sc_applied c = None" using ok by (simp add: register_ok_def)
  then have "sv_err nv \<noteq> None" using may nv by (simp add: new_value_def)
  with None ok set_AList_update [of "sc_value c" nv vals] show ?thesis by (fastforce simp: register_ok_def)
next
  case (Some x)
  obtain v t where x: "reg = Some (v, t)" using Some by (cases x) simp
  then have t: "t \<le> now" using ok by (simp add: register_ok_def)
  from ok x consider "value_known ttl vals v t" | "applied_by reg c" | c' where "c' \<in> set (as @ bs)" "applied_by reg c'"
    by (auto simp: register_ok_def)
  then show ?thesis
  proof cases
    case 1
    then have "v \<noteq> sc_value c" using p by (auto simp: value_known_def pending_ok_def)
    with 1 x t show ?thesis by (simp add: register_ok_def value_known_def)
  next
    case 2
    then have "v = sc_value c" "sc_applied c = Some t" using x by (auto simp: applied_by_def split: option.splits)
    with value_known_new [OF p _ nv, of t "AList.update (sc_value c) nv vals"] may x t
    show ?thesis by (simp add: register_ok_def)
  next
    case 3
    with x t show ?thesis by (auto simp: register_ok_def)
  qed
qed

lemma key_ok_end_add:
  assumes ok: "key_ok late ttl now ver n vals old reg (as @ c # bs)" and nv: "new_value ttl c endTime err nv"
    and may: "case sc_applied c of Some t \<Rightarrow> t \<le> endTime | None \<Rightarrow> err \<noteq> None"
  shows "key_ok late ttl now (ver + 1) (n - 1) (AList.update (sc_value c) nv vals) old reg (as @ bs)"
proof -
  from ok have p: "pending_ok now ver vals old c" by (simp add: key_ok_def)
  have "pending_ok now (ver + 1) (AList.update (sc_value c) nv vals) old c' \<and> sc_version c' \<noteq> ver + 1" if "c' \<in> set (as @ bs)" for c'
  proof -
    have "distinct (map sc_value (as @ c # bs))" using ok unfolding key_ok_def by blast
    then have "sc_value c' \<noteq> sc_value c" using that by (auto simp: image_iff)
    moreover have "pending_ok now ver vals old c'" using ok that by (auto simp: key_ok_def)
    ultimately show ?thesis by (auto simp: pending_ok_def)
  qed
  moreover have "\<forall>(v, sv) \<in> set (AList.update (sc_value c) nv vals). sv_value sv = v"
    using ok nv set_AList_update [of "sc_value c" nv vals] by (fastforce simp: key_ok_def new_value_def)
  moreover have "register_ok ttl now (AList.update (sc_value c) nv vals) reg (as @ bs)" if "\<not> late"
    by (rule register_ok_end [OF _ p nv may]) (use ok that in \<open>simp add: key_ok_def\<close>)
  ultimately show ?thesis using ok by (auto simp: key_ok_def latest_ok_def)
qed

lemma key_ok_late: "key_ok late ttl now ver n vals old reg calls \<Longrightarrow> key_ok True ttl now ver n vals old reg' calls"
  by (simp add: key_ok_def)

lemma answer_ok_late: "answer_ok late ttl now ver reg calls r \<Longrightarrow> answer_ok True ttl now ver reg' calls r"
  by (simp add: answer_ok_def)

section \<open>The invariant of an execution\<close>

lemma tester_ok_init: "tester_ok ttl (makeStressTester now)"
  by (simp add: tester_ok_def tester_key_ok_def makeStressTester_def key_ok_def register_ok_def latest_ok_def MakeConsistencyChecker_def)

lemma tester_ok_tick: "tester_ok ttl st \<Longrightarrow> clock st \<le> t \<Longrightarrow> tester_ok ttl (st\<lparr>clock := t\<rparr>)"
  by (auto simp: tester_ok_def tester_key_ok_def intro: key_ok_tick answer_ok_tick)

lemma tester_ok_beginSet:
  assumes "tester_ok ttl st" "freshValue key val st" "checkCorrectness fl"
  shows "tester_ok ttl (beginSet fl key val st)"
  unfolding tester_ok_def
proof
  fix k
  have k: "tester_key_ok ttl st k" using assms(1) by (simp add: tester_ok_def)
  show "tester_key_ok ttl (beginSet fl key val st) k"
  proof (cases "k = key")
    case True
    have "\<forall>c \<in> set (callsOn key (setCalls st)). sc_value c \<noteq> val"
      using assms(2) by (auto simp: freshValue_def list_all_iff callsOn_def)
    with k True assms(2) have "key_ok (lateEffect st key) ttl (clock st) (version (cc st) key) (rc (cc st) key + 1) (cc_values (cc st) key)
        (overwrittenValues (cc st) key) (register st key) (callsOn key (setCalls st) @ [\<lparr>sc_key = key, sc_value = val,
          sc_version = version (cc st) key, sc_start = clock st, sc_applied = None\<rparr>])"
      by (intro key_ok_begin) (auto simp: tester_key_ok_def freshValue_def)
    with k True assms(3) show ?thesis
      by (auto simp: tester_key_ok_def beginSet_def BeginWrite_def Let_def intro: answer_ok_calls)
  next
    case False
    with k assms(3) show ?thesis by (simp add: tester_key_ok_def beginSet_def BeginWrite_def Let_def)
  qed
qed

lemma list_split_at:
  assumes "i < length xs"
  obtains as bs where "xs = as @ xs ! i # bs" "length as = i" "remove_nth i xs = as @ bs" "\<And>x. xs[i := x] = as @ x # bs"
  using assms that [of "take i xs" "drop (Suc i) xs"]
  by (simp add: remove_nth_def upd_conv_take_nth_drop flip: id_take_nth_drop)

lemma tester_ok_applySet:
  assumes "tester_ok ttl st" "i < length (setCalls st)" "sc_applied (setCalls st ! i) = None"
  shows "tester_ok ttl (applySet i st)"
  unfolding tester_ok_def
proof
  fix k
  let ?c = "setCalls st ! i"
  obtain as bs where l: "setCalls st = as @ ?c # bs" "\<And>x. (setCalls st)[i := x] = as @ x # bs"
    using list_split_at [OF assms(2)] by metis
  have k: "tester_key_ok ttl st k" using assms(1) by (simp add: tester_ok_def)
  show "tester_key_ok ttl (applySet i st) k"
  proof (cases "k = sc_key ?c")
    case True
    have c: "callsOn k (setCalls st) = callsOn k as @ ?c # callsOn k bs" using True by (subst l(1)) simp
    with k have "key_ok (lateEffect st k) ttl (clock st) (version (cc st) k) (rc (cc st) k) (cc_values (cc st) k) (overwrittenValues (cc st) k)
        (Some (sc_value ?c, clock st)) (callsOn k as @ ?c\<lparr>sc_applied := Some (clock st)\<rparr> # callsOn k bs)"
      by (intro key_ok_apply [OF _ assms(3)]) (auto simp: tester_key_ok_def)
    with k True show ?thesis by (auto simp: tester_key_ok_def applySet_def Let_def l(2) intro: answer_ok_calls)
  next
    case False
    then have "callsOn k (setCalls st) = callsOn k as @ callsOn k bs" by (subst l(1)) simp
    with k False show ?thesis by (simp add: tester_key_ok_def applySet_def Let_def l(2))
  qed
qed

lemma endSet_Inr:
  assumes "tester_ok ttl st" "i < length (setCalls st)"
  shows "\<exists>st'. endSet fl ttl i endTime err st = Inr st'"
proof -
  let ?c = "setCalls st ! i"
  have "?c \<in> set (callsOn (sc_key ?c) (setCalls st))" using assms(2) by (simp add: callsOn_def)
  then have "pending_ok (clock st) (version (cc st) (sc_key ?c)) (cc_values (cc st) (sc_key ?c))
      (overwrittenValues (cc st) (sc_key ?c)) ?c"
    using assms(1) unfolding tester_ok_def tester_key_ok_def key_ok_def by blast
  then show ?thesis by (simp add: endSet_def Let_def CompleteWrite_def pending_ok_def)
qed

lemma tester_ok_endSet:
  assumes "tester_ok ttl st" "i < length (setCalls st)" "mayEnd i endTime err st" "endSet fl ttl i endTime err st = Inr st'"
    and "checkCorrectness fl" "0 \<le> ttlCheckBuffer fl"
  shows "tester_ok ttl st'"
  unfolding tester_ok_def
proof
  fix k
  let ?c = "setCalls st ! i"
  let ?nv = "\<lparr>sv_value = sc_value ?c, writtenAt = clock st, maybeExpiredBy = sc_start ?c + ttl,
    definitelyExpiredBy = endTime + ttl + ttlCheckBuffer fl, sv_err = err, overwrittenAt = None\<rparr>"
  let ?alone = "err = None \<and> sc_version ?c = version (cc st) (sc_key ?c) \<and> rc (cc st) (sc_key ?c) = 1"
  obtain as bs where l: "setCalls st = as @ ?c # bs" "remove_nth i (setCalls st) = as @ bs"
    using list_split_at [OF assms(2)] by metis
  have k: "tester_key_ok ttl st k" using assms(1) by (simp add: tester_ok_def)
  have nv: "new_value ttl ?c endTime err ?nv" using assms(6) by (simp add: new_value_def)
  from assms(4,5) have st': "clock st' = clock st" "register st' = register st" "lateEffect st' = lateEffect st" "getCalls st' = getCalls st"
    "setCalls st' = as @ bs" "version (cc st') = (version (cc st))(sc_key ?c := version (cc st) (sc_key ?c) + 1)"
    "rc (cc st') = (rc (cc st))(sc_key ?c := rc (cc st) (sc_key ?c) - 1)"
    "cc_values (cc st') = (cc_values (cc st))(sc_key ?c :=
       if ?alone then [(sc_value ?c, ?nv)] else AList.update (sc_value ?c) ?nv (cc_values (cc st) (sc_key ?c)))"
    "k \<noteq> sc_key ?c \<Longrightarrow> overwrittenValues (cc st') k = overwrittenValues (cc st) k"
    "\<not> ?alone \<Longrightarrow> overwrittenValues (cc st') = overwrittenValues (cc st)"
    by (auto simp: endSet_def CompleteWrite_def Let_def l(2) split: if_splits)
  show "tester_key_ok ttl st' k"
  proof (cases "k = sc_key ?c")
    case True
    have c: "callsOn k (setCalls st) = callsOn k as @ ?c # callsOn k bs" using True by (subst l(1)) simp
    have "key_ok (lateEffect st k) ttl (clock st) (version (cc st) k + 1) (rc (cc st) k - 1) (cc_values (cc st') k) (overwrittenValues (cc st') k)
        (register st k) (callsOn k as @ callsOn k bs)"
    proof (cases ?alone)
      case alone: True
      then obtain t where "sc_applied ?c = Some t" "t \<le> endTime"
        using assms(3) by (auto simp: mayEnd_def split: option.splits)
      with key_ok_end_alone [of "lateEffect st k" ttl "clock st" "version (cc st) k" "cc_values (cc st) k" "overwrittenValues (cc st) k"
          "register st k" "callsOn k as" ?c "callsOn k bs" endTime ?nv t] alone k nv True c
      show ?thesis by (simp add: tester_key_ok_def st')
    next
      case False
      then have v: "cc_values (cc st') k = AList.update (sc_value ?c) ?nv (cc_values (cc st) k)"
        using True st'(8) by (simp only: fun_upd_same if_False)
      have o: "overwrittenValues (cc st') k = overwrittenValues (cc st) k" by (rule fun_cong [OF st'(10) [OF False]])
      have "case sc_applied ?c of Some t \<Rightarrow> t \<le> endTime | None \<Rightarrow> err \<noteq> None"
        using assms(3) unfolding mayEnd_def True by this
      moreover have "key_ok (lateEffect st k) ttl (clock st) (version (cc st) k) (rc (cc st) k) (cc_values (cc st) k) (overwrittenValues (cc st) k)
          (register st k) (callsOn k as @ ?c # callsOn k bs)"
        using k by (simp only: tester_key_ok_def c)
      ultimately show ?thesis unfolding v o by (intro key_ok_end_add [OF _ nv])
    qed
    with k True show ?thesis by (auto simp: tester_key_ok_def st' intro: answer_ok_end)
  next
    case False
    then have "callsOn k (setCalls st) = callsOn k as @ callsOn k bs" by (subst l(1)) simp
    with k False show ?thesis by (simp add: tester_key_ok_def st')
  qed
qed

lemma tester_ok_beginGet:
  assumes "tester_ok ttl st" "checkCorrectness fl"
  shows "tester_ok ttl (beginGet fl key st)"
  using assms by (auto simp: tester_ok_def tester_key_ok_def beginGet_def BeginRead_def answer_ok_def)

lemma tester_ok_applyGet:
  assumes "tester_ok ttl st" "i < length (getCalls st)"
  shows "tester_ok ttl (applyGet ttl i st)"
proof -
  obtain as bs where l: "getCalls st = as @ getCalls st ! i # bs" "\<And>x. (getCalls st)[i := x] = as @ x # bs"
    using list_split_at [OF assms(2)] by metis
  have "set (getCalls st) = insert (getCalls st ! i) (set as \<union> set bs)" by (subst l(1)) simp
  with assms(1) show ?thesis
    by (auto simp: tester_ok_def tester_key_ok_def applyGet_def Let_def op_read_regRead l(2) simp del: op_read.simps
        intro: answer_ok_apply)
qed

lemma tester_ok_frame:
  assumes "tester_ok ttl st" "clock st' = clock st" "register st' = register st" "lateEffect st' = lateEffect st" "setCalls st' = setCalls st"
    "version (cc st') = version (cc st)" "rc (cc st') = rc (cc st)" "cc_values (cc st') = cc_values (cc st)"
    "overwrittenValues (cc st') = overwrittenValues (cc st)" "set (getCalls st') \<subseteq> set (getCalls st)"
  shows "tester_ok ttl st'"
  using assms by (auto simp: tester_ok_def tester_key_ok_def)

lemma tester_ok_lateSet: "tester_ok ttl st \<Longrightarrow> tester_ok ttl (lateSet key val st)"
  by (auto simp: tester_ok_def tester_key_ok_def lateSet_def intro: key_ok_late answer_ok_late)

lemma tester_ok_keepFailed: "tester_ok ttl st \<Longrightarrow> tester_ok ttl (keepFailed c st)"
  by (erule tester_ok_frame) (simp_all add: keepFailed_def)

lemma CheckReadCorrect_frame:
  "CheckReadCorrect fl now key v found start ver pend c = (err, c') \<Longrightarrow>
     version c' = version c \<and> rc c' = rc c \<and> cc_values c' = cc_values c \<and> overwrittenValues c' = overwrittenValues c"
  by (auto simp: CheckReadCorrect_def Let_def split: if_splits)

lemma endGet_frame:
  assumes "endGet fl errAllow okAllow i res st = (msg, st')"
  shows "clock st' = clock st \<and> register st' = register st \<and> lateEffect st' = lateEffect st \<and> setCalls st' = setCalls st \<and>
    version (cc st') = version (cc st) \<and> rc (cc st') = rc (cc st) \<and> cc_values (cc st') = cc_values (cc st) \<and>
    overwrittenValues (cc st') = overwrittenValues (cc st) \<and> getCalls st' = remove_nth i (getCalls st)"
proof (cases res)
  case (Inr x)
  obtain v found where x: "res = Inr (v, found)" using Inr by (cases x) simp
  obtain err c' where c: "CheckReadCorrect fl (clock st) (gc_key (getCalls st ! i)) v found (gc_start (getCalls st ! i))
      (gc_version (getCalls st ! i)) (gc_writesPending (getCalls st ! i)) (cc st) = (err, c')" by fastforce
  from CheckReadCorrect_frame [OF c] assms show ?thesis
    by (auto simp: endGet_def Let_def x c split: option.splits if_splits)
qed (use assms in \<open>auto simp: endGet_def Let_def\<close>)

lemma tester_ok_endGet:
  assumes "tester_ok ttl st" "endGet fl errAllow okAllow i res st = (msg, st')"
  shows "tester_ok ttl st'"
  using endGet_frame [OF assms(2)] set_remove_nth_subset [of i "getCalls st"] assms(1)
  by (intro tester_ok_frame [OF assms(1)]) auto

lemma stress_step_ok:
  assumes "stress_step fl ttl st st'" "tester_ok ttl st" "checkCorrectness fl" "0 \<le> ttlCheckBuffer fl"
  shows "tester_ok ttl st'"
  using assms
  by cases
    (blast intro: tester_ok_tick tester_ok_beginSet tester_ok_applySet tester_ok_endSet tester_ok_beginGet tester_ok_applyGet
      tester_ok_endGet tester_ok_lateSet tester_ok_keepFailed)+

lemma stress_run_ok:
  assumes "(stress_step fl ttl)\<^sup>*\<^sup>* (makeStressTester now) st" "checkCorrectness fl" "0 \<le> ttlCheckBuffer fl"
  shows "tester_ok ttl st"
  using assms by (induction rule: rtranclp_induct) (auto intro: tester_ok_init stress_step_ok)

lemma register_known:
  assumes "key_ok False ttl now ver n vals old (Some (v, t)) []"
  obtains sv where "map_of vals v = Some sv" "maybeExpiredBy sv \<le> t + ttl" "sv_err sv = None \<Longrightarrow> t + ttl \<le> definitelyExpiredBy sv"
  using assms by (auto simp: key_ok_def register_ok_def value_known_def)

lemma milliseconds_not_less:
  assumes "1000000 dvd ttl" "0 < ttl" "\<not> milliseconds d < milliseconds ttl"
  shows "ttl \<le> d"
proof -
  from assms(1,2) obtain m where m: "ttl = 1000000 * m" "0 < m" by (auto elim!: dvdE simp: zero_less_mult_iff)
  then have le: "m \<le> milliseconds d" using assms(3) by (simp add: milliseconds_def)
  have "0 \<le> d"
    using le m milliseconds_mono [of d 0] by (cases "0 \<le> d") simp_all
  with le have "m \<le> d div 1000000" by (simp add: milliseconds_def)
  with m show ?thesis by linarith
qed

lemma milliseconds_less: "milliseconds d < milliseconds ttl \<Longrightarrow> d < ttl"
  using milliseconds_mono [of ttl d] by linarith

text \<open>The verdict on an answer: \<open>nothing_yet\<close> describes the report of a read that finds nothing, at a key where nothing has taken effect but writes have failed.\<close>

definition nothing_yet :: "stressTester \<Rightarrow> string \<Rightarrow> string option \<Rightarrow> check_error option \<Rightarrow> bool" where
  "nothing_yet st key a verdict \<longleftrightarrow> a = None \<and> register st key = None \<and> cc_values (cc st) key \<noteq> [] \<and>
     (\<forall>sv \<in> snd ` set (cc_values (cc st) key). sv_err sv \<noteq> None) \<and> (\<exists>vs. verdict = Some (NoValueFound vs))"

definition verdictOn :: "checker_flags \<Rightarrow> stressTester \<Rightarrow> get_call \<Rightarrow> string option \<Rightarrow> check_error option" where
  "verdictOn fl st r a =
     fst (CheckReadCorrect fl (clock st) (gc_key r) (fst (answerOf a)) (snd (answerOf a)) (gc_start r) (gc_version r) (gc_writesPending r) (cc st))"

lemma verdict_nothing:
  assumes "\<forall>sv \<in> snd ` set (cc_values (cc st) (gc_key r)). sv_err sv \<noteq> None" "register st (gc_key r) = None"
  shows "verdictOn fl st r None = None \<or> nothing_yet st (gc_key r) None (verdictOn fl st r None)"
  using assms by (auto simp: verdictOn_def nothing_yet_def CheckReadCorrect_def Let_def answerOf_def)

lemma CheckReadCorrect_sound:
  assumes ok: "tester_ok ttl st" and r: "r \<in> set (getCalls st)" "gc_answer r = Some (t, a)" "t < clock st"
    and ttl: "1000000 dvd ttl" "0 < ttl" and late: "\<not> lateEffect st (gc_key r)"
  shows "verdictOn fl st r a = None \<or> nothing_yet st (gc_key r) a (verdictOn fl st r a)"
proof (cases "version (cc st) (gc_key r) \<noteq> gc_version r \<or> rc (cc st) (gc_key r) \<noteq> 0")
  case True
  then show ?thesis by (auto simp: verdictOn_def CheckReadCorrect_def)
next
  case False
  let ?k = "gc_key r" and ?vals = "cc_values (cc st) (gc_key r)"
  have k: "key_ok False ttl (clock st) (version (cc st) ?k) (rc (cc st) ?k) ?vals (overwrittenValues (cc st) ?k) (register st ?k)
      (callsOn ?k (setCalls st))"
    and a: "answer_ok False ttl (clock st) (version (cc st) ?k) (register st ?k) (callsOn ?k (setCalls st)) r"
    using ok [unfolded tester_ok_def, rule_format, of ?k] r(1) late by (simp_all add: tester_key_ok_def)
  from k False have none: "callsOn ?k (setCalls st) = []" by (simp add: key_ok_def)
  with a r False have read: "a = regRead ttl t (register st ?k)" "gc_start r \<le> t" by (auto simp: answer_ok_def)
  show ?thesis
  proof (cases "register st ?k")
    case None
    with k none have "\<forall>sv \<in> snd ` set ?vals. sv_err sv \<noteq> None" by (simp add: key_ok_def register_ok_def)
    with verdict_nothing [OF this None] None read show ?thesis by (simp add: regRead_def)
  next
    case (Some x)
    obtain v t' where x: "register st ?k = Some (v, t')" using Some by (cases x) simp
    with k none obtain sv where sv: "map_of ?vals v = Some sv" "maybeExpiredBy sv \<le> t' + ttl"
      "sv_err sv = None \<Longrightarrow> t' + ttl \<le> definitelyExpiredBy sv"
      using register_known [of ttl "clock st" "version (cc st) ?k" "rc (cc st) ?k" ?vals "overwrittenValues (cc st) ?k" v t'] by auto
    show ?thesis
    proof (cases "milliseconds (t - t') < milliseconds ttl")
      case True
      from milliseconds_less [OF this] sv(3) read(2) True x read(1) sv(1) show ?thesis
        by (auto simp: verdictOn_def CheckReadCorrect_def Let_def answerOf_def regRead_def)
    next
      case False
      from milliseconds_not_less [OF ttl False] sv(2) r(3) have "maybeExpiredBy sv < clock st" by linarith
      moreover have "sv \<in> snd ` set ?vals" using sv(1) by (metis map_of_SomeD image_eqI snd_conv)
      ultimately show ?thesis using False x read(1)
        by (auto simp: verdictOn_def CheckReadCorrect_def Let_def answerOf_def regRead_def list_ex_iff)
    qed
  qed
qed

section \<open>Verdicts\<close>

text \<open>C26: when the checker may raise a false alarm. The requests of the stress tester interleave in any order, with a store that is a register with expiry per key; writes may fail before or after they take
  effect, and may take effect after they have failed. The values written to a key are new, an answer is checked after it was given, the time to live is a positive number of whole milliseconds and the tolerance
  \<open>ttlCheckBuffer\<close> is not negative. Then \<open>CheckReadCorrect\<close> accepts every answer of the store, with two exceptions: a key on which a failed write took effect after it had
  ended; and a read that finds nothing, at a key where nothing ever took effect and all the writes completed so far failed, which may be reported as missing a value. Nor does \<open>CompleteWrite\<close> panic, however the write ended.\<close>

theorem checker_no_false_alarm:
  assumes run: "(stress_step fl ttl)\<^sup>*\<^sup>* (makeStressTester now) st"
    and flags: "0 \<le> ttlCheckBuffer fl" "1000000 dvd ttl" "0 < ttl"
  shows "(\<forall>r \<in> set (getCalls st). \<forall>t a. gc_answer r = Some (t, a) \<longrightarrow> t < clock st \<longrightarrow>
      (let verdict = fst (CheckReadCorrect fl (clock st) (gc_key r) (fst (answerOf a)) (snd (answerOf a)) (gc_start r) (gc_version r)
             (gc_writesPending r) (cc st))
       in verdict = None \<or> lateEffect st (gc_key r) \<or>
          a = None \<and> register st (gc_key r) = None \<and> cc_values (cc st) (gc_key r) \<noteq> [] \<and>
            (\<forall>sv \<in> snd ` set (cc_values (cc st) (gc_key r)). sv_err sv \<noteq> None) \<and> (\<exists>vs. verdict = Some (NoValueFound vs)))) \<and>
    (\<forall>i < length (setCalls st). \<forall>endTime err. \<exists>st'. endSet fl ttl i endTime err st = Inr st')"
proof (cases "checkCorrectness fl")
  case True
  note ok = stress_run_ok [OF run True flags(1)]
  have "verdictOn fl st r a = None \<or> lateEffect st (gc_key r) \<or> nothing_yet st (gc_key r) a (verdictOn fl st r a)"
    if "r \<in> set (getCalls st)" "gc_answer r = Some (t, a)" "t < clock st" for r t a
    using CheckReadCorrect_sound [OF ok that flags(2,3)] by blast
  then show ?thesis unfolding verdictOn_def nothing_yet_def Let_def using endSet_Inr [OF ok] by (intro conjI ballI allI impI)
next
  case False
  then show ?thesis by (simp add: CheckReadCorrect_def endSet_def CompleteWrite_def Let_def)
qed

definition overwriteAll :: "(string \<times> stateValue) list \<Rightarrow> (string \<times> stateValue) list \<Rightarrow> (string \<times> stateValue) list" where
  "overwriteAll vals old = fold (\<lambda>(_, val). AList.update (sv_value val) val) vals old"

lemma CompleteWrite_alone:
  assumes "checkCorrectness fl" "rc c key = 1" "ver = version c key"
    and "CompleteWrite fl now key val None ver maybe definitely c = Inr c'"
  shows "version c' key = ver + 1 \<and> rc c' key = 0 \<and> fst ` set (cc_values c' key) = {val} \<and>
    overwrittenValues c' key = overwriteAll (cc_values c key) (overwrittenValues c key)"
proof -
  have "c' = c\<lparr>overwrittenValues := (overwrittenValues c)(key := overwriteAll (cc_values c key) (overwrittenValues c key)),
      cc_values := (cc_values c)(key := [(val, \<lparr>sv_value = val, writtenAt = now, maybeExpiredBy = maybe,
        definitelyExpiredBy = definitely + ttlCheckBuffer fl, sv_err = None, overwrittenAt = None\<rparr>)]),
      rc := (rc c)(key := rc c key - 1), version := (version c)(key := version c key + 1)\<rparr>"
    using assms(4) unfolding CompleteWrite_def Let_def overwriteAll_def
    by (simp add: assms(1-3) split: if_split_asm)
  with assms show ?thesis by simp
qed

lemma overwriteAll_None:
  "\<forall>(v, sv) \<in> set vals. sv_value sv = v \<Longrightarrow>
     map_of (overwriteAll vals old) v = None \<longleftrightarrow> map_of vals v = None \<and> map_of old v = None"
proof (induction vals arbitrary: old)
  case (Cons x vals)
  obtain u sv where x: "x = (u, sv)" by (cases x)
  have "overwriteAll (x # vals) old = overwriteAll vals (AList.update u sv old)"
    using Cons.prems by (simp add: x overwriteAll_def)
  with Cons.IH [of "AList.update u sv old"] Cons.prems show ?case by (simp add: x)
qed (simp add: overwriteAll_def)

lemma overwriteAll_snd: "snd ` set (overwriteAll vals old) \<subseteq> snd ` set vals \<union> snd ` set old"
proof (induction vals arbitrary: old)
  case (Cons x vals)
  obtain u sv where x: "x = (u, sv)" by (cases x)
  have "snd ` set (overwriteAll (x # vals) old) \<subseteq> snd ` set vals \<union> snd ` set (AList.update (sv_value sv) sv old)"
    using Cons.IH by (simp add: x overwriteAll_def)
  also have "\<dots> \<subseteq> snd ` set vals \<union> insert sv (snd ` set old)"
    using set_AList_update [of "sv_value sv" sv old] by force
  finally show ?case by (simp add: x)
qed (simp add: overwriteAll_def)

text \<open>C27: the checker catches a stale or invented value. After a write that succeeded and met no other write to its key, a read that
  starts later, meets no write either and returns any other value is reported: as overwritten if the value was written before, as never
  written otherwise. The message for an overwritten value always speaks of 9223372036854 ms, because the time at which
  a value is overwritten is never recorded.\<close>

theorem checker_reports_stale:
  assumes "checkCorrectness fl" "rc c key = 0" "BeginWrite fl key c = (ver, c1)"
    and "CompleteWrite fl t1 key value None ver maybe definitely c1 = Inr c2"
    and "value' \<noteq> value" "\<forall>(v, sv) \<in> set (cc_values c key). sv_value sv = v"
    and "\<forall>sv \<in> snd ` set (cc_values c key) \<union> snd ` set (overwrittenValues c key). overwrittenAt sv = None"
  shows "BeginRead fl key c2 = (ver + 1, False) \<and>
    fst (CheckReadCorrect fl t2 key value' True start (ver + 1) False c2) =
      Some (if map_of (cc_values c key) value' \<noteq> None \<or> map_of (overwrittenValues c key) value' \<noteq> None
            then WasOverwritten value' 9223372036854 else NeverWritten)"
proof -
  from assms(1,3) have c1: "ver = version c key" "c1 = c\<lparr>rc := (rc c)(key := rc c key + 1)\<rparr>"
    by (simp_all add: BeginWrite_def Let_def)
  from CompleteWrite_alone [OF assms(1) _ _ assms(4)] assms(2)
  have c2: "version c2 key = ver + 1" "rc c2 key = 0"
    "overwrittenValues c2 key = overwriteAll (cc_values c key) (overwrittenValues c key)"
    and "fst ` set (cc_values c2 key) = {value}"
    unfolding c1 by simp_all
  then have new: "map_of (cc_values c2 key) value' = None" using assms(5) by (auto simp: map_of_eq_None_iff)
  have old: "map_of (overwrittenValues c2 key) value' = None \<longleftrightarrow>
      map_of (cc_values c key) value' = None \<and> map_of (overwrittenValues c key) value' = None"
    unfolding c2(3) by (rule overwriteAll_None [OF assms(6)])
  show ?thesis
  proof (cases "map_of (overwrittenValues c2 key) value'")
    case None
    with old have "\<not> (map_of (cc_values c key) value' \<noteq> None \<or> map_of (overwrittenValues c key) value' \<noteq> None)" by simp
    with None c2(1,2) new assms(1) show ?thesis by (simp add: BeginRead_def CheckReadCorrect_def Let_def)
  next
    case (Some sv)
    then have "sv \<in> snd ` set (overwrittenValues c2 key)" by (metis map_of_SomeD image_eqI snd_conv)
    then have "sv \<in> snd ` set (cc_values c key) \<union> snd ` set (overwrittenValues c key)"
      unfolding c2(3) by (rule subsetD [OF overwriteAll_snd])
    then have "overwrittenAt sv = None" by (rule bspec [OF assms(7)])
    moreover have "map_of (cc_values c key) value' \<noteq> None \<or> map_of (overwrittenValues c key) value' \<noteq> None"
      using old Some by auto
    ultimately show ?thesis using Some c2(1,2) new assms(1)
      by (simp add: BeginRead_def CheckReadCorrect_def Let_def since_def milliseconds_def)
  qed
qed

text \<open>A false alarm after a first write that failed. If the only write to a key so far failed without taking effect, a later
  read that rightly finds nothing is reported as wrong until the value would have expired: the values of failed writes count as
  possible for a read that finds a value, but a read that finds none must come after the expiry of one of them.\<close>

theorem checker_false_alarm:
  assumes "checkCorrectness fl" "t2 \<le> maybe" "BeginWrite fl key MakeConsistencyChecker = (ver, c1)"
    and "CompleteWrite fl t1 key value (Some e) ver maybe definitely c1 = Inr c2"
  shows "\<exists>sv. BeginRead fl key c2 = (ver + 1, False) \<and>
    fst (CheckReadCorrect fl t2 key '''' False start (ver + 1) False c2) = Some (NoValueFound [sv]) \<and> sv_err sv = Some e"
  using assms
  by (auto simp: BeginWrite_def CompleteWrite_def Let_def MakeConsistencyChecker_def BeginRead_def CheckReadCorrect_def)

text \<open>A wrong answer that the limiter of the error log turns down is not counted, and may even be logged as a success.\<close>

theorem wrong_answer_logged_ok:
  assumes "CheckReadCorrect fl (clock st) (gc_key (getCalls st ! i)) val wasFound (gc_start (getCalls st ! i))
      (gc_version (getCalls st ! i)) (gc_writesPending (getCalls st ! i)) (cc st) = (Some e, c')"
  shows "\<exists>st'. endGet fl False True i (Inr (val, wasFound)) st = (Some GetOK, st') \<and> inconsistencies st' = inconsistencies st \<and>
    gets st' = gets st + 1 \<and> cc st' = c'"
  using assms by (simp add: endGet_def Let_def)

definition sample_flags :: checker_flags where
  "sample_flags = \<lparr>checkCorrectness = True, checkTtl = True, ttlCheckBuffer = 10000000\<rparr>"

lemma sample_stress_run:
  obtains st r where "(stress_step sample_flags 2000000000)\<^sup>*\<^sup>* (makeStressTester 0) st" "r \<in> set (getCalls st)"
    "gc_answer r = Some (0, Some ''v'')" "clock st = 1" "\<not> lateEffect st (gc_key r)"
proof -
  let ?step = "stress_step sample_flags 2000000000"
  let ?s1 = "beginSet sample_flags ''k'' ''v'' (makeStressTester 0)"
  let ?s2 = "applySet 0 ?s1"
  have 1: "?step (makeStressTester 0) ?s1"
    by (rule set_begin) (simp add: freshValue_def makeStressTester_def MakeConsistencyChecker_def)
  have c1: "setCalls ?s1 = [\<lparr>sc_key = ''k'', sc_value = ''v'', sc_version = 0, sc_start = 0, sc_applied = None\<rparr>]"
    by (simp add: beginSet_def BeginWrite_def sample_flags_def makeStressTester_def MakeConsistencyChecker_def)
  have 2: "?step ?s1 ?s2" by (rule set_apply) (simp_all add: c1)
  have c2: "clock ?s2 = 0" "getCalls ?s2 = []" "register ?s2 ''k'' = Some (''v'', 0)" "length (setCalls ?s2) = 1"
    "sc_applied (setCalls ?s2 ! 0) = Some 0" "lateEffect ?s2 = (\<lambda>_. False)"
    by (simp_all add: applySet_def c1) (simp_all add: beginSet_def BeginWrite_def sample_flags_def makeStressTester_def)
  have "tester_ok 2000000000 ?s2"
    using 1 2 by (intro stress_run_ok [where fl = sample_flags and now = 0]) (auto simp: sample_flags_def)
  then obtain s3 where s3: "endSet sample_flags 2000000000 0 0 None ?s2 = Inr s3"
    using endSet_Inr [of 2000000000 ?s2 0 sample_flags 0 None] c2 by auto
  have "keepFailed (setCalls ?s2 ! 0) s3 = s3" by (simp add: keepFailed_def c2)
  with set_end [OF _ _ s3] have 3: "?step ?s2 s3" by (simp add: c2 mayEnd_def)
  from s3 have c3: "clock s3 = 0" "getCalls s3 = []" "register s3 ''k'' = Some (''v'', 0)" "lateEffect s3 = (\<lambda>_. False)"
    using c2 by (auto simp: endSet_def Let_def bind_eq_Inr)
  let ?s4 = "beginGet sample_flags ''k'' s3"
  let ?s5 = "applyGet 2000000000 0 ?s4"
  have 4: "?step s3 ?s4" by (rule get_begin)
  have c4: "clock ?s4 = 0" "register ?s4 ''k'' = Some (''v'', 0)" "length (getCalls ?s4) = 1"
    "gc_key (getCalls ?s4 ! 0) = ''k''" "gc_answer (getCalls ?s4 ! 0) = None" "lateEffect ?s4 = (\<lambda>_. False)"
    using c3 by (simp_all add: beginGet_def BeginRead_def sample_flags_def)
  have 5: "?step ?s4 ?s5" by (rule get_apply) (simp_all add: c4)
  have c5: "clock ?s5 = 0" "length (getCalls ?s5) = 1" "lateEffect ?s5 = (\<lambda>_. False)" "gc_answer (getCalls ?s5 ! 0) = Some (0, Some ''v'')"
    using c4 by (simp_all add: applyGet_def Let_def milliseconds_def)
  have 6: "?step ?s5 (?s5\<lparr>clock := 1\<rparr>)" by (rule tick) (simp add: c5)
  have "?step\<^sup>*\<^sup>* (makeStressTester 0) (?s5\<lparr>clock := 1\<rparr>)"
    using 1 2 3 4 5 6 by (meson converse_rtranclp_into_rtranclp rtranclp.rtrancl_refl)
  then show thesis
    by (rule that [of _ "getCalls ?s5 ! 0"]) (use c5 in simp_all)
qed

theorem checker_no_false_alarm_witness:
  "\<exists>st r. (stress_step sample_flags 2000000000)\<^sup>*\<^sup>* (makeStressTester 0) st \<and> r \<in> set (getCalls st) \<and>
     fst (CheckReadCorrect sample_flags (clock st) (gc_key r) ''v'' True (gc_start r) (gc_version r) (gc_writesPending r) (cc st)) = None"
proof -
  obtain st r where st: "(stress_step sample_flags 2000000000)\<^sup>*\<^sup>* (makeStressTester 0) st" "r \<in> set (getCalls st)"
    "gc_answer r = Some (0, Some ''v'')" "clock st = 1" "\<not> lateEffect st (gc_key r)" by (rule sample_stress_run)
  have "0 \<le> ttlCheckBuffer sample_flags" by (simp add: sample_flags_def)
  from bspec [OF conjunct1 [OF checker_no_false_alarm [OF st(1) this]] st(2)] st(3,4)
  have "fst (CheckReadCorrect sample_flags (clock st) (gc_key r) ''v'' True (gc_start r) (gc_version r) (gc_writesPending r) (cc st)) = None \<or> lateEffect st (gc_key r)"
    by (simp add: answerOf_def Let_def)
  with st show ?thesis by blast
qed

theorem checker_reports_stale_witness:
  "\<exists>c2. CompleteWrite sample_flags 1 ''k'' ''v'' None 0 5 5 (snd (BeginWrite sample_flags ''k'' MakeConsistencyChecker)) = Inr c2 \<and>
     fst (CheckReadCorrect sample_flags 3 ''k'' ''u'' True 2 1 False c2) = Some NeverWritten"
proof -
  obtain c2 where c2: "CompleteWrite sample_flags 1 ''k'' ''v'' None 0 5 5 (snd (BeginWrite sample_flags ''k'' MakeConsistencyChecker)) = Inr c2"
    by (simp add: CompleteWrite_def BeginWrite_def sample_flags_def MakeConsistencyChecker_def Let_def)
  have b: "BeginWrite sample_flags ''k'' MakeConsistencyChecker = (0, snd (BeginWrite sample_flags ''k'' MakeConsistencyChecker))"
    by (simp add: BeginWrite_def sample_flags_def MakeConsistencyChecker_def Let_def)
  from checker_reports_stale [OF _ _ b c2, of "''u''" 3 2] c2 show ?thesis
    by (auto simp: sample_flags_def MakeConsistencyChecker_def)
qed

theorem checker_false_alarm_witness:
  "\<exists>c2 sv. CompleteWrite sample_flags 1 ''k'' ''v'' (Some Unavailable) 0 5 5
       (snd (BeginWrite sample_flags ''k'' MakeConsistencyChecker)) = Inr c2 \<and>
     fst (CheckReadCorrect sample_flags 3 ''k'' '''' False 2 1 False c2) = Some (NoValueFound [sv])"
proof -
  obtain c2 where c2: "CompleteWrite sample_flags 1 ''k'' ''v'' (Some Unavailable) 0 5 5
      (snd (BeginWrite sample_flags ''k'' MakeConsistencyChecker)) = Inr c2"
    by (simp add: CompleteWrite_def BeginWrite_def sample_flags_def MakeConsistencyChecker_def Let_def)
  have b: "BeginWrite sample_flags ''k'' MakeConsistencyChecker = (0, snd (BeginWrite sample_flags ''k'' MakeConsistencyChecker))"
    by (simp add: BeginWrite_def sample_flags_def MakeConsistencyChecker_def Let_def)
  from checker_false_alarm [OF _ _ b c2, of 3 2] c2 show ?thesis by (auto simp: sample_flags_def)
qed

section \<open>Keys and values\<close>

text \<open>\<open>rng\<close> is the sequence of numbers \<open>rng.Int()\<close> returns, none of them negative.\<close>

definition randomString :: "(nat \<Rightarrow> nat) \<Rightarrow> nat \<Rightarrow> string" where
  "randomString rng len = map (\<lambda>i. ''abcdefghijklmnopqrstuvwxyz'' ! (rng i mod 26)) [0..<len]"

definition randomKeys :: "(nat \<Rightarrow> nat) \<Rightarrow> nat \<Rightarrow> nat \<Rightarrow> string list" where
  "randomKeys rng n len = map (\<lambda>i. randomString (\<lambda>j. rng (i * len + j)) len) [0..<n]"

definition pickKey :: "nat \<Rightarrow> string list \<Rightarrow> string go" where
  "pickKey r keys = go_bind (go_rem_nonneg r (int (length keys))) (slice_index keys)"

lemma randomString_ok: "length (randomString rng len) = len" "set (randomString rng len) \<subseteq> set ''abcdefghijklmnopqrstuvwxyz''"
proof -
  show "length (randomString rng len) = len" by (simp add: randomString_def)
  have "''abcdefghijklmnopqrstuvwxyz'' ! (rng i mod 26) \<in> set ''abcdefghijklmnopqrstuvwxyz''" for i
    by (rule nth_mem) simp
  then show "set (randomString rng len) \<subseteq> set ''abcdefghijklmnopqrstuvwxyz''"
    unfolding randomString_def by (simp only: set_map) blast
qed

lemma pickKey_ok: "keys \<noteq> [] \<Longrightarrow> \<exists>k \<in> set keys. pickKey r keys = Inr k"
  by (auto simp: pickKey_def go_rem_nonneg_def slice_index_def nat_mod_distrib)

lemma pickKey_empty: "pickKey r [] = Inl DivideByZero"
  by (simp add: pickKey_def go_rem_nonneg_def)

end
