(* ===== verification/Kv_Stress.thy ===== *)
theory Kv_Stress
  imports Kv_Checker
begin

text \<open>
  The report at the end of \<open>main\<close> in \<open>lab4/cmd/stress/tester.go\<close>. Here the store behind the tester is arbitrary: a request may end with any error or any answer at any time.
\<close>

section \<open>The report\<close>

record stress_report =
  getsOK :: "64 word"
  allGets :: "64 word"
  setsOK :: "64 word"
  allSets :: "64 word"
  correct :: "64 word"
  checks :: "64 word"
  totalRequests :: "64 word"

text \<open>The counts of the four lines printed; the percentages are quotients of them in floating point.\<close>

definition report :: "stressTester \<Rightarrow> stress_report" where
  "report st =
     \<lparr>getsOK = gets st - getErrs st, allGets = gets st, setsOK = sets st - setErrs st, allSets = sets st,
      correct = ChecksRun (cc st) - inconsistencies st, checks = ChecksRun (cc st), totalRequests = gets st + sets st\<rparr>"

datatype stress_event =
    SetBegins string string
  | SetEnds nat int "code option"
  | GetBegins string
  | GetEnds bool bool nat "code + (string \<times> bool)"
  | Tick int

fun stress_exec :: "checker_flags \<Rightarrow> int \<Rightarrow> stress_event \<Rightarrow> stressTester \<Rightarrow> stressTester go" where
  "stress_exec fl ttl (SetBegins key val) st = Inr (beginSet fl key val st)"
| "stress_exec fl ttl (SetEnds i endTime err) st = (if i < length (setCalls st) then endSet fl ttl i endTime err st else Inl IndexOutOfRange)"
| "stress_exec fl ttl (GetBegins key) st = Inr (beginGet fl key st)"
| "stress_exec fl ttl (GetEnds errAllow okAllow i res) st = (if i < length (getCalls st) then Inr (snd (endGet fl errAllow okAllow i res st)) else Inl IndexOutOfRange)"
| "stress_exec fl ttl (Tick t) st = Inr (st\<lparr>clock := t\<rparr>)"

fun stress_run :: "checker_flags \<Rightarrow> int \<Rightarrow> stress_event list \<Rightarrow> stressTester \<Rightarrow> stressTester go" where
  "stress_run fl ttl [] st = Inr st"
| "stress_run fl ttl (ev # evs) st = go_bind (stress_exec fl ttl ev st) (stress_run fl ttl evs)"

fun endedGet :: "stress_event \<Rightarrow> bool" where
  "endedGet (GetEnds errAllow okAllow i res) \<longleftrightarrow> True"
| "endedGet _ \<longleftrightarrow> False"

fun answeredGet :: "stress_event \<Rightarrow> bool" where
  "answeredGet (GetEnds errAllow okAllow i (Inr a)) \<longleftrightarrow> True"
| "answeredGet _ \<longleftrightarrow> False"

fun endedSet :: "stress_event \<Rightarrow> bool" where
  "endedSet (SetEnds i endTime err) \<longleftrightarrow> True"
| "endedSet _ \<longleftrightarrow> False"

fun acceptedSet :: "stress_event \<Rightarrow> bool" where
  "acceptedSet (SetEnds i endTime None) \<longleftrightarrow> True"
| "acceptedSet _ \<longleftrightarrow> False"

definition number :: "('a \<Rightarrow> bool) \<Rightarrow> 'a list \<Rightarrow> nat" where
  "number P xs = length (filter P xs)"

lemma number_simps [simp]: "number P [] = 0" "number P (x # xs) = (if P x then 1 else 0) + number P xs"
  by (simp_all add: number_def)

text \<open>What the counters hold after the events \<open>evs\<close>, and how many answers were checked and found wrong.\<close>

definition counted :: "stressTester \<Rightarrow> nat \<Rightarrow> nat \<Rightarrow> nat \<Rightarrow> nat \<Rightarrow> nat \<Rightarrow> nat \<Rightarrow> bool" where
  "counted st g ok s acc c d \<longleftrightarrow> gets st = of_nat g \<and> gets st - getErrs st = of_nat ok \<and> sets st = of_nat s \<and> sets st - setErrs st = of_nat acc \<and>
     ChecksRun (cc st) = of_nat c \<and> inconsistencies st = of_nat d"

lemma check_counts:
  assumes "CheckReadCorrect fl now key val found start ver pend k = (err, k')"
  shows "ChecksRun k' = ChecksRun k \<and> err = None \<or> ChecksRun k' = ChecksRun k + 1"
  using assms by (auto simp: CheckReadCorrect_def Let_def split: if_splits)

lemma exec_counts:
  assumes "stress_exec fl ttl ev st = Inr st'" "counted st g ok s acc c d" "d \<le> c"
  shows "\<exists>c' d'. counted st' (g + (if endedGet ev then 1 else 0)) (ok + (if answeredGet ev then 1 else 0)) (s + (if endedSet ev then 1 else 0))
    (acc + (if acceptedSet ev then 1 else 0)) (c + c') (d + d') \<and> d' \<le> c' \<and> c' \<le> (if answeredGet ev then 1 else 0)"
proof (cases ev)
  case (SetEnds i endTime err)
  then show ?thesis using assms
    by (intro exI [of _ 0], cases err) (auto simp: counted_def endSet_def Let_def CompleteWrite_def algebra_simps split: if_splits)
next
  case (GetEnds errAllow okAllow i res)
  show ?thesis
  proof (cases res)
    case (Inl e)
    then show ?thesis using assms GetEnds by (intro exI [of _ 0]) (auto simp: counted_def endGet_def Let_def algebra_simps split: if_splits)
  next
    case (Inr a)
    let ?c = "getCalls st ! i"
    obtain val found where a: "a = (val, found)" by (cases a)
    obtain err k' where k': "CheckReadCorrect fl (clock st) (gc_key ?c) val found (gc_start ?c) (gc_version ?c) (gc_writesPending ?c) (cc st) = (err, k')"
      by (cases "CheckReadCorrect fl (clock st) (gc_key ?c) val found (gc_start ?c) (gc_version ?c) (gc_writesPending ?c) (cc st)")
    have st': "st' = snd (endGet fl errAllow okAllow i (Inr (val, found)) st)" using assms(1) GetEnds Inr a by (simp split: if_splits)
    from check_counts [OF k'] show ?thesis
    proof (elim disjE conjE)
      assume "ChecksRun k' = ChecksRun (cc st)" "err = None"
      then show ?thesis using assms(2) GetEnds Inr a k'
        by (intro exI [of _ 0]) (auto simp: st' counted_def endGet_def Let_def algebra_simps)
    next
      assume "ChecksRun k' = ChecksRun (cc st) + 1"
      then show ?thesis using assms(2) GetEnds Inr a k'
        by (intro exI [of _ 1] exI [of _ "if err \<noteq> None \<and> errAllow then 1 else 0"])
          (auto simp: st' counted_def endGet_def Let_def algebra_simps split: option.splits)
    qed
  qed
next
  case (SetBegins key val)
  then show ?thesis using assms by (intro exI [of _ 0]) (auto simp: counted_def beginSet_def BeginWrite_def Let_def split: if_splits)
next
  case (GetBegins key)
  then show ?thesis using assms by (intro exI [of _ 0]) (auto simp: counted_def beginGet_def BeginRead_def Let_def split: if_splits)
next
  case (Tick t)
  then show ?thesis using assms by (intro exI [of _ 0]) (auto simp: counted_def)
qed

lemma run_counts:
  "stress_run fl ttl evs st = Inr st' \<Longrightarrow> counted st g ok s acc c d \<Longrightarrow> d \<le> c \<Longrightarrow> c \<le> ok \<Longrightarrow>
     \<exists>c' d'. counted st' (g + number endedGet evs) (ok + number answeredGet evs) (s + number endedSet evs) (acc + number acceptedSet evs) c' d' \<and> d' \<le> c' \<and> c' \<le> ok + number answeredGet evs"
proof (induction evs arbitrary: st g ok s acc c d)
  case (Cons ev evs)
  then obtain st1 where st1: "stress_exec fl ttl ev st = Inr st1" "stress_run fl ttl evs st1 = Inr st'" by (auto simp: go_bind_def split: sum.splits)
  obtain c1 d1 where 1: "counted st1 (g + (if endedGet ev then 1 else 0)) (ok + (if answeredGet ev then 1 else 0)) (s + (if endedSet ev then 1 else 0))
      (acc + (if acceptedSet ev then 1 else 0)) (c + c1) (d + d1)" "d1 \<le> c1" "c1 \<le> (if answeredGet ev then 1 else 0)"
    using exec_counts [OF st1(1) Cons.prems(2,3)] by blast
  from Cons.IH [OF st1(2) 1(1)] 1(2,3) Cons.prems(3,4) show ?case by (simp add: add.assoc)
qed auto

text \<open>The report adds up. Whatever the store behind the tester answers, in any order of requests, the numbers printed are the numbers of requests that ended and of those that succeeded, no subtraction wraps around, and the answers counted as
  correct are among those that were checked, which are among the answered reads; all this as long as fewer than \<open>2 ^ 64\<close> things happen.\<close>

theorem report_adds_up:
  assumes "stress_run fl ttl evs (makeStressTester now) = Inr st" "length evs < 2 ^ 64"
  shows "unat (allGets (report st)) = number endedGet evs \<and> unat (getsOK (report st)) = number answeredGet evs \<and>
    unat (allSets (report st)) = number endedSet evs \<and> unat (setsOK (report st)) = number acceptedSet evs \<and>
    unat (totalRequests (report st)) = number endedGet evs + number endedSet evs \<and>
    unat (correct (report st)) + unat (inconsistencies st) = unat (checks (report st)) \<and> unat (checks (report st)) \<le> number answeredGet evs"
proof -
  have i: "counted (makeStressTester now) 0 0 0 0 0 0" by (simp add: counted_def makeStressTester_def MakeConsistencyChecker_def)
  obtain c d where c: "counted st (number endedGet evs) (number answeredGet evs) (number endedSet evs) (number acceptedSet evs) c d" "d \<le> c" "c \<le> number answeredGet evs"
    using run_counts [OF assms(1) i] by auto
  have u: "unat (of_nat k :: 64 word) = k" if "k \<le> length evs" for k
    using that assms(2) by (simp add: unat_of_nat)
  have n: "number P evs \<le> length evs" for P :: "stress_event \<Rightarrow> bool" by (simp add: number_def)
  have gs: "number endedGet evs + number endedSet evs \<le> length evs"
  proof (induction evs)
    case (Cons ev evs)
    then show ?case by (cases ev) simp_all
  qed simp
  have t: "gets st + sets st = of_nat (number endedGet evs + number endedSet evs)" "ChecksRun (cc st) - inconsistencies st = of_nat (c - d)"
    using c by (simp_all add: counted_def of_nat_diff)
  have k: "c \<le> length evs" "d \<le> length evs" "c - d \<le> length evs" using c(2,3) n [of answeredGet] by simp_all
  have e: "gets st = of_nat (number endedGet evs)" "gets st - getErrs st = of_nat (number answeredGet evs)" "sets st = of_nat (number endedSet evs)"
      "sets st - setErrs st = of_nat (number acceptedSet evs)" "ChecksRun (cc st) = of_nat c" "inconsistencies st = of_nat d"
    using c(1) unfolding counted_def by blast+
  have "allGets (report st) = of_nat (number endedGet evs)" "getsOK (report st) = of_nat (number answeredGet evs)" "allSets (report st) = of_nat (number endedSet evs)"
      "setsOK (report st) = of_nat (number acceptedSet evs)" "totalRequests (report st) = of_nat (number endedGet evs + number endedSet evs)"
      "correct (report st) = of_nat (c - d)" "checks (report st) = of_nat c"
    unfolding report_def stress_report.simps by (rule e t)+
  note r = this [THEN arg_cong [of _ _ unat], unfolded u [OF n] u [OF gs] u [OF k(1)] u [OF k(3)]]
  show ?thesis unfolding r e(6) u [OF k(2)] using c(2,3) by simp
qed

theorem report_adds_up_witness:
  "\<exists>st. stress_run sample_flags 1000000 [SetBegins ''k'' ''v'', SetEnds 0 5 None, GetBegins ''k'', GetBegins ''k'', GetEnds True True 0 (Inr (''v'', True)), GetEnds False True 0 (Inl Unavailable)]
       (makeStressTester 0) = Inr st \<and> unat (allGets (report st)) = 2 \<and> unat (getsOK (report st)) = 1 \<and> unat (setsOK (report st)) = 1"
proof -
  let ?evs = "[SetBegins ''k'' ''v'', SetEnds 0 5 None, GetBegins ''k'', GetBegins ''k'', GetEnds True True 0 (Inr (''v'', True)), GetEnds False True 0 (Inl Unavailable)]"
  obtain st where st: "stress_run sample_flags 1000000 ?evs (makeStressTester 0) = Inr st"
    by (simp add: beginSet_def BeginWrite_def endSet_def CompleteWrite_def beginGet_def BeginRead_def endGet_def CheckReadCorrect_def makeStressTester_def
      MakeConsistencyChecker_def sample_flags_def remove_nth_def Let_def)
  from report_adds_up [OF st] st show ?thesis by simp
qed

end
