(* ===== verification/Lab0_Queue.thy ===== *)
theory Lab0_Queue
  imports Lab_Prelude
begin

text \<open>
  The queues of \<open>lab0/queue.go\<close>. Every method runs under the mutex of its queue, so a method is one step and
  an execution of several goroutines is a sequence of operations. \<open>zero\<close> is the zero value of the element type.
\<close>

section \<open>The queues\<close>

record 'a Queue =
  elements :: "'a list"

definition NewQueue :: "'a Queue" where
  "NewQueue = \<lparr>elements = []\<rparr>"

definition Push :: "'a \<Rightarrow> 'a Queue \<Rightarrow> 'a Queue" where
  "Push item q = q\<lparr>elements := elements q @ [item]\<rparr>"

definition Pop :: "'a \<Rightarrow> 'a Queue \<Rightarrow> (('a \<times> bool) \<times> 'a Queue) go" where
  "Pop zero q =
     (if length (elements q) = 0 then Inr ((zero, False), q)
      else go_bind (slice_index (elements q) 0) (\<lambda>item.
           go_bind (slice_from (elements q) 1) (\<lambda>rest.
           Inr ((item, True), q\<lparr>elements := rest\<rparr>))))"

record 'a ConcurrentQueue =
  cq_queue :: "'a Queue"

definition NewConcurrentQueue :: "'a ConcurrentQueue" where
  "NewConcurrentQueue = \<lparr>cq_queue = \<lparr>elements = []\<rparr>\<rparr>"

definition cPush :: "'a \<Rightarrow> 'a ConcurrentQueue \<Rightarrow> 'a ConcurrentQueue" where
  "cPush t q = q\<lparr>cq_queue := Push t (cq_queue q)\<rparr>"

definition cPop :: "'a \<Rightarrow> 'a ConcurrentQueue \<Rightarrow> (('a \<times> bool) \<times> 'a ConcurrentQueue) go" where
  "cPop zero q =
     (if length (elements (cq_queue q)) = 0 then Inr ((zero, False), q)
      else go_bind (Pop zero (cq_queue q)) (\<lambda>(r, q'). Inr (r, q\<lparr>cq_queue := q'\<rparr>)))"

section \<open>The contract of a FIFO queue\<close>

datatype 'a queue_op = PushOp 'a | PopOp

fun pushed :: "'a queue_op list \<Rightarrow> 'a list" where
  "pushed [] = []"
| "pushed (PushOp x # ops) = x # pushed ops"
| "pushed (PopOp # ops) = pushed ops"

text \<open>The results of the pops of a sequence of operations, and the queue at the end.\<close>

fun runQueue ::
    "('a \<Rightarrow> 'q \<Rightarrow> 'q) \<Rightarrow> ('q \<Rightarrow> (('a \<times> bool) \<times> 'q) go) \<Rightarrow> 'a queue_op list \<Rightarrow> 'q \<Rightarrow> (('a \<times> bool) list \<times> 'q) go" where
  "runQueue psh pp [] q = Inr ([], q)"
| "runQueue psh pp (PushOp x # ops) q = runQueue psh pp ops (psh x q)"
| "runQueue psh pp (PopOp # ops) q =
     go_bind (pp q) (\<lambda>(r, q1). go_bind (runQueue psh pp ops q1) (\<lambda>(rs, q2). Inr (r # rs, q2)))"

text \<open>The reference: what the pops return if the queue is a list.\<close>

fun refQueue :: "'a \<Rightarrow> 'a queue_op list \<Rightarrow> 'a list \<Rightarrow> ('a \<times> bool) list \<times> 'a list" where
  "refQueue zero [] xs = ([], xs)"
| "refQueue zero (PushOp x # ops) xs = refQueue zero ops (xs @ [x])"
| "refQueue zero (PopOp # ops) xs =
     (case xs of
        [] \<Rightarrow> (let (rs, ys) = refQueue zero ops [] in ((zero, False) # rs, ys))
      | x # xs' \<Rightarrow> (let (rs, ys) = refQueue zero ops xs' in ((x, True) # rs, ys)))"

definition popped :: "('a \<times> bool) list \<Rightarrow> 'a list" where
  "popped rs = map fst (filter snd rs)"

lemma refQueue_fifo: "refQueue zero ops xs = (rs, ys) \<Longrightarrow> popped rs @ ys = xs @ pushed ops"
  by (induction zero ops xs arbitrary: rs ys rule: refQueue.induct)
    (auto simp: popped_def split: list.splits prod.splits)

locale fifo =
  fixes psh :: "'a \<Rightarrow> 'q \<Rightarrow> 'q"
    and pp :: "'q \<Rightarrow> (('a \<times> bool) \<times> 'q) go"
    and abs :: "'q \<Rightarrow> 'a list"
    and zero :: 'a
  assumes abs_push: "abs (psh x q) = abs q @ [x]"
    and pop_empty: "abs q = [] \<Longrightarrow> \<exists>q'. pp q = Inr ((zero, False), q') \<and> abs q' = []"
    and pop_Cons: "abs q = x # xs \<Longrightarrow> \<exists>q'. pp q = Inr ((x, True), q') \<and> abs q' = xs"
begin

lemma run_refines:
  "\<exists>rs q'. runQueue psh pp ops q = Inr (rs, q') \<and> refQueue zero ops (abs q) = (rs, abs q')"
proof (induction ops arbitrary: q)
  case (Cons a ops)
  show ?case
  proof (cases a)
    case (PushOp x)
    with Cons [of "psh x q"] show ?thesis by (simp add: abs_push)
  next
    case PopOp
    show ?thesis
    proof (cases "abs q")
      case Nil
      then obtain q' where "pp q = Inr ((zero, False), q')" "abs q' = []" using pop_empty by blast
      with Cons [of q'] PopOp Nil show ?thesis by auto
    next
      case (Cons x xs)
      then obtain q' where "pp q = Inr ((x, True), q')" "abs q' = xs" using pop_Cons by blast
      with Cons.IH [of q'] PopOp Cons show ?thesis by auto
    qed
  qed
qed simp

end

interpretation q: fifo Push "Pop zero" elements zero for zero
  by unfold_locales (simp_all add: Push_def Pop_def slice_index_def slice_from_def)

interpretation cq: fifo cPush "cPop zero" "\<lambda>q. elements (cq_queue q)" zero for zero
  by unfold_locales (simp_all add: cPush_def cPop_def Push_def Pop_def slice_index_def slice_from_def)

text \<open>C35: the concurrent queue is a FIFO queue. Any sequence of operations, in particular every interleaving of the operations of several
  goroutines, runs to its end without a panic; its pops return what they return on a list, with the zero value and \<open>false\<close> exactly
  on the empty queue; and the values popped, followed by those still in the queue, are the values pushed, in the order of the
  pushes.\<close>

theorem concurrent_queue_fifo:
  "\<exists>rs q. runQueue cPush (cPop zero) ops NewConcurrentQueue = Inr (rs, q) \<and>
     refQueue zero ops [] = (rs, elements (cq_queue q)) \<and> popped rs @ elements (cq_queue q) = pushed ops"
proof -
  obtain rs q where r: "runQueue cPush (cPop zero) ops NewConcurrentQueue = Inr (rs, q)"
    "refQueue zero ops [] = (rs, elements (cq_queue q))"
    using cq.run_refines [of zero ops NewConcurrentQueue] by (auto simp: NewConcurrentQueue_def)
  with refQueue_fifo [OF r(2)] show ?thesis by simp
qed

text \<open>The two queues cannot be told apart: every sequence of operations gives the same results on both.\<close>

theorem queues_equivalent:
  "\<exists>rs q cq. runQueue Push (Pop zero) ops NewQueue = Inr (rs, q) \<and>
     runQueue cPush (cPop zero) ops NewConcurrentQueue = Inr (rs, cq) \<and> elements q = elements (cq_queue cq)"
  using q.run_refines [of zero ops NewQueue] cq.run_refines [of zero ops NewConcurrentQueue]
  by (auto simp: NewQueue_def NewConcurrentQueue_def)

end
