(* ===== verification/Lab0_Semaphore.thy ===== *)
theory Lab0_Semaphore
  imports Lab_Prelude
begin

text \<open>
  The semaphore of \<open>lab0/semaphore.go\<close>.

  The counter is atomic and the channel \<open>signal\<close> unbuffered, so \<open>Post\<close> has two steps, the addition and the non-blocking send, and
  \<open>Wait\<close> has two, the subtraction and the \<open>select\<close>; a goroutine in \<open>select\<close> leaves it when a sender meets it or its context is done.
  The state holds the counter and how many goroutines are at which place; \<open>granted\<close>, \<open>cancelled\<close> and \<open>posts\<close> count the calls of \<open>Wait\<close>
  that have returned \<open>nil\<close> or an error, and the calls of \<open>Post\<close> that have begun.
\<close>

section \<open>Steps\<close>

record Semaphore =
  sem_v :: int
  posting :: nat      \<comment> \<open>calls of \<open>Post\<close> before their \<open>select\<close>\<close>
  entering :: nat     \<comment> \<open>calls of \<open>Wait\<close> that found nothing left, before their \<open>select\<close>\<close>
  blocked :: nat      \<comment> \<open>calls of \<open>Wait\<close> in \<open>select\<close>\<close>
  granted :: nat
  cancelled :: nat
  posts :: nat

definition NewSemaphore :: Semaphore where
  "NewSemaphore = \<lparr>sem_v = 0, posting = 0, entering = 0, blocked = 0, granted = 0, cancelled = 0, posts = 0\<rparr>"

definition postAdd :: "Semaphore \<Rightarrow> Semaphore" where
  "postAdd s = s\<lparr>sem_v := sem_v s + 1, posting := posting s + 1, posts := posts s + 1\<rparr>"

definition postSelect :: "Semaphore \<Rightarrow> Semaphore" where
  "postSelect s =
     (let s1 = s\<lparr>posting := posting s - 1\<rparr> in
      if 0 < blocked s1 then s1\<lparr>blocked := blocked s1 - 1, granted := granted s1 + 1\<rparr> else s1)"

definition waitAdd :: "Semaphore \<Rightarrow> Semaphore" where
  "waitAdd s =
     (let s1 = s\<lparr>sem_v := sem_v s - 1\<rparr> in
      if sem_v s1 < 0 then s1\<lparr>entering := entering s1 + 1\<rparr> else s1\<lparr>granted := granted s1 + 1\<rparr>)"

definition waitSelect :: "Semaphore \<Rightarrow> Semaphore" where
  "waitSelect s = s\<lparr>entering := entering s - 1, blocked := blocked s + 1\<rparr>"

definition waitDone :: "Semaphore \<Rightarrow> Semaphore" where
  "waitDone s = s\<lparr>blocked := blocked s - 1, cancelled := cancelled s + 1\<rparr>"

text \<open>A whole call, not interrupted by another: \<open>Wait\<close> may be left waiting. With a context that is already done it returns the error instead of waiting, because no other call can
  send to it; it does not look at the context if there are resources left.\<close>

definition Post :: "Semaphore \<Rightarrow> Semaphore" where
  "Post s = postSelect (postAdd s)"

definition Wait :: "bool \<Rightarrow> Semaphore \<Rightarrow> Semaphore" where
  "Wait ctxDone s =
     (let s1 = waitAdd s in
      if entering s < entering s1 then let s2 = waitSelect s1 in if ctxDone then waitDone s2 else s2 else s1)"

datatype sem_event = PostAdd | PostSelect | WaitAdd | WaitSelect | WaitDone

fun sem_exec :: "sem_event \<Rightarrow> Semaphore \<Rightarrow> Semaphore option" where
  "sem_exec PostAdd s = Some (postAdd s)"
| "sem_exec PostSelect s = (if 0 < posting s then Some (postSelect s) else None)"
| "sem_exec WaitAdd s = Some (waitAdd s)"
| "sem_exec WaitSelect s = (if 0 < entering s then Some (waitSelect s) else None)"
| "sem_exec WaitDone s = (if 0 < blocked s then Some (waitDone s) else None)"

fun sem_run :: "sem_event list \<Rightarrow> Semaphore \<Rightarrow> Semaphore option" where
  "sem_run [] s = Some s"
| "sem_run (e # es) s = (case sem_exec e s of None \<Rightarrow> None | Some s1 \<Rightarrow> sem_run es s1)"

section \<open>Calls that do not overlap\<close>

text \<open>The reference: a counting semaphore as a number of resources left and a number of waiters, and, as a departure from it, a number of resources owed. A waiter that gives up because its
  context is done leaves a debt of one, which a later \<open>Post\<close> pays when nobody waits. With no debt this is a counting semaphore.\<close>

record counting =
  available :: nat
  waiting :: nat
  owed :: nat

definition cPost :: "counting \<Rightarrow> counting" where
  "cPost c =
     (if 0 < waiting c then c\<lparr>waiting := waiting c - 1\<rparr>
      else if 0 < owed c then c\<lparr>owed := owed c - 1\<rparr>
      else c\<lparr>available := available c + 1\<rparr>)"

definition cWait :: "counting \<Rightarrow> counting" where
  "cWait c = (if 0 < available c then c\<lparr>available := available c - 1\<rparr> else c\<lparr>waiting := waiting c + 1\<rparr>)"

definition cGiveUp :: "counting \<Rightarrow> counting" where
  "cGiveUp c = (if 0 < waiting c then c\<lparr>waiting := waiting c - 1, owed := owed c + 1\<rparr> else c)"

definition cWaitDone :: "counting \<Rightarrow> counting" where
  "cWaitDone c = (if 0 < available c then c\<lparr>available := available c - 1\<rparr> else c\<lparr>owed := owed c + 1\<rparr>)"

definition abs_sem :: "Semaphore \<Rightarrow> counting" where
  "abs_sem s = \<lparr>available = nat (sem_v s), waiting = blocked s, owed = nat (- sem_v s - int (blocked s))\<rparr>"

text \<open>Between calls: \<open>w\<close> calls of \<open>Wait\<close> have been made. What is owed is the debt of calls that gave up.\<close>

definition quiet :: "nat \<Rightarrow> Semaphore \<Rightarrow> bool" where
  "quiet w s \<longleftrightarrow> posting s = 0 \<and> entering s = 0 \<and> sem_v s = int (posts s) - int w \<and> w = granted s + blocked s + cancelled s \<and>
     int (blocked s) \<le> max 0 (- sem_v s) \<and> - sem_v s \<le> int (blocked s) + int (cancelled s)"

lemma quiet_Post: "quiet w s \<Longrightarrow> quiet w (Post s) \<and> abs_sem (Post s) = cPost (abs_sem s) \<and> posts (Post s) = posts s + 1"
  by (auto simp: quiet_def Post_def postAdd_def postSelect_def Let_def abs_sem_def cPost_def nat_eq_iff)

lemma quiet_Wait: "quiet w s \<Longrightarrow> quiet (w + 1) (Wait False s) \<and> abs_sem (Wait False s) = cWait (abs_sem s) \<and> posts (Wait False s) = posts s"
  by (auto simp: quiet_def Wait_def waitAdd_def waitSelect_def Let_def abs_sem_def cWait_def nat_eq_iff)

lemma quiet_WaitDone: "quiet w s \<Longrightarrow> quiet (w + 1) (Wait True s) \<and> abs_sem (Wait True s) = cWaitDone (abs_sem s) \<and> posts (Wait True s) = posts s"
  by (auto simp: quiet_def Wait_def waitAdd_def waitSelect_def waitDone_def Let_def abs_sem_def cWaitDone_def nat_eq_iff)

lemma quiet_giveUp:
  "quiet w s \<Longrightarrow> 0 < blocked s \<Longrightarrow> quiet w (waitDone s) \<and> abs_sem (waitDone s) = cGiveUp (abs_sem s) \<and> posts (waitDone s) = posts s"
  by (auto simp: quiet_def waitDone_def abs_sem_def cGiveUp_def nat_eq_iff)

text \<open>Calls one after the other. \<open>CallWait ctxDone\<close> is a call with a context that is already done or not; \<open>ContextDone\<close> is the context of a blocked call becoming done.\<close>

datatype sem_call = CallPost | CallWait bool | ContextDone

fun do_call :: "sem_call \<Rightarrow> Semaphore \<Rightarrow> Semaphore" where
  "do_call CallPost s = Post s"
| "do_call (CallWait ctxDone) s = Wait ctxDone s"
| "do_call ContextDone s = (if 0 < blocked s then waitDone s else s)"

fun counting_call :: "sem_call \<Rightarrow> counting \<Rightarrow> counting" where
  "counting_call CallPost c = cPost c"
| "counting_call (CallWait ctxDone) c = (if ctxDone then cWaitDone c else cWait c)"
| "counting_call ContextDone c = cGiveUp c"

definition isWait :: "sem_call \<Rightarrow> bool" where
  "isWait c = (case c of CallWait _ \<Rightarrow> True | _ \<Rightarrow> False)"

lemma quiet_call:
  "quiet w s \<Longrightarrow> quiet (w + (if isWait c then 1 else 0)) (do_call c s) \<and> abs_sem (do_call c s) = counting_call c (abs_sem s) \<and>
     posts (do_call c s) = posts s + (if c = CallPost then 1 else 0)"
proof (cases c)
  case (CallWait ctxDone)
  then show "quiet w s \<Longrightarrow> ?thesis" by (cases ctxDone) (auto simp: isWait_def dest: quiet_Wait quiet_WaitDone)
next
  case ContextDone
  then show "quiet w s \<Longrightarrow> ?thesis" using quiet_giveUp [of w s] by (cases "0 < blocked s") (simp_all add: isWait_def, simp add: abs_sem_def cGiveUp_def)
qed (auto simp: isWait_def dest: quiet_Post)

lemma quiet_calls:
  "quiet w s \<Longrightarrow> quiet (w + length (filter isWait cs)) (fold do_call cs s) \<and> abs_sem (fold do_call cs s) = fold counting_call cs (abs_sem s) \<and>
     posts (fold do_call cs s) = posts s + length (filter ((=) CallPost) cs)"
proof (induction cs arbitrary: s w)
  case (Cons c cs)
  from quiet_call [OF Cons.prems, of c] Cons.IH [of "w + (if isWait c then 1 else 0)" "do_call c s"] show ?case by auto
qed simp

text \<open>C36: the semaphore when no two calls overlap, with contexts that may be done before a call of \<open>Wait\<close> or while it is blocked. It behaves as a counting semaphore with debts: a call of \<open>Wait\<close> that ends with the error of its context
  leaves a debt, and the \<open>Post\<close> that pays it is lost. Each call of \<open>Wait\<close> has returned \<open>nil\<close>, has returned an error, or is blocked. As long as no call of \<open>Wait\<close> has returned an
  error, nothing is owed and it is the counting semaphore its comments describe: the number of calls of \<open>Wait\<close> that have returned is the smaller of the numbers of calls of \<open>Post\<close> and \<open>Wait\<close>, and the
  others are blocked.\<close>

theorem semaphore_sequential:
  fixes cs :: "sem_call list"
  defines "s \<equiv> fold do_call cs NewSemaphore" and "p \<equiv> length (filter ((=) CallPost) cs)" and "w \<equiv> length (filter isWait cs)"
  shows "abs_sem s = fold counting_call cs \<lparr>available = 0, waiting = 0, owed = 0\<rparr> \<and> granted s + cancelled s + blocked s = w \<and>
    (cancelled s = 0 \<longrightarrow> owed (abs_sem s) = 0 \<and> granted s = min p w \<and> blocked s = w - p)"
proof -
  have "quiet 0 NewSemaphore" by (simp add: quiet_def NewSemaphore_def)
  from quiet_calls [OF this, of cs]
  have "quiet w s" "abs_sem s = fold counting_call cs (abs_sem NewSemaphore)" "posts s = p"
    by (simp_all add: s_def p_def w_def NewSemaphore_def)
  then show ?thesis by (auto simp: quiet_def abs_sem_def NewSemaphore_def)
qed

theorem semaphore_sequential_witness:
  "let s = fold do_call [CallWait False, CallPost, CallPost, CallWait True] NewSemaphore in cancelled s = 0 \<and> granted s = 2 \<and> blocked s = 0"
  using semaphore_sequential [of "[CallWait False, CallPost, CallPost, CallWait True]"]
  by (simp add: Let_def isWait_def NewSemaphore_def Post_def Wait_def postAdd_def postSelect_def waitAdd_def waitSelect_def waitDone_def)

section \<open>Calls that overlap\<close>

text \<open>In every execution a call of \<open>Post\<close> lets at most two calls of \<open>Wait\<close> return: one that finds the counter positive and one that takes
  the signal.\<close>

definition sem_inv :: "Semaphore \<Rightarrow> bool" where
  "sem_inv s \<longleftrightarrow> (\<exists>direct signalled. granted s = direct + signalled \<and> signalled + posting s \<le> posts s \<and>
     int direct \<le> int (posts s) - sem_v s \<and> direct \<le> posts s)"

lemma sem_exec_inv: "sem_exec e s = Some s' \<Longrightarrow> sem_inv s \<Longrightarrow> sem_inv s'"
proof (cases e)
  case PostAdd
  assume "sem_exec e s = Some s'" "sem_inv s"
  with PostAdd show ?thesis unfolding sem_inv_def
    by (auto simp: postAdd_def) (metis le_SucI)
next
  case PostSelect
  assume e: "sem_exec e s = Some s'" and "sem_inv s"
  then obtain d g where dg: "granted s = d + g" "g + posting s \<le> posts s" "int d \<le> int (posts s) - sem_v s" "d \<le> posts s"
    by (auto simp: sem_inv_def)
  from e PostSelect have p: "0 < posting s" "s' = postSelect s" by (auto split: if_splits)
  show ?thesis unfolding sem_inv_def
    by (rule exI [of _ d], rule exI [of _ "granted s' - d"]) (use dg p in \<open>auto simp: postSelect_def Let_def\<close>)
next
  case WaitAdd
  assume e: "sem_exec e s = Some s'" and "sem_inv s"
  then obtain d g where dg: "granted s = d + g" "g + posting s \<le> posts s" "int d \<le> int (posts s) - sem_v s" "d \<le> posts s"
    by (auto simp: sem_inv_def)
  show ?thesis unfolding sem_inv_def
    by (rule exI [of _ "granted s' - g"], rule exI [of _ g]) (use dg e WaitAdd in \<open>auto simp: waitAdd_def Let_def split: if_splits\<close>)
qed (fastforce simp: sem_inv_def waitSelect_def waitDone_def split: if_splits)+

lemma sem_run_inv: "sem_run es s = Some s' \<Longrightarrow> sem_inv s \<Longrightarrow> sem_inv s'"
  by (induction es arbitrary: s) (auto split: option.splits dest: sem_exec_inv)

text \<open>C37: a single \<open>Post\<close> can let two calls of \<open>Wait\<close> return: the first finds the counter positive between the addition and the send of
  \<open>Post\<close>, the second blocks and takes the signal. More than two per \<open>Post\<close> never return.\<close>

theorem semaphore_over_grant:
  "(\<exists>s. sem_run [PostAdd, WaitAdd, WaitAdd, WaitSelect, PostSelect] NewSemaphore = Some s \<and> posts s = 1 \<and> granted s = 2) \<and>
   (\<forall>es s. sem_run es NewSemaphore = Some s \<longrightarrow> granted s \<le> 2 * posts s)"
proof
  show "\<exists>s. sem_run [PostAdd, WaitAdd, WaitAdd, WaitSelect, PostSelect] NewSemaphore = Some s \<and> posts s = 1 \<and> granted s = 2"
    by (simp add: NewSemaphore_def postAdd_def waitAdd_def waitSelect_def postSelect_def Let_def)
  have "sem_inv NewSemaphore" by (simp add: sem_inv_def NewSemaphore_def)
  then show "\<forall>es s. sem_run es NewSemaphore = Some s \<longrightarrow> granted s \<le> 2 * posts s"
    using sem_run_inv by (fastforce simp: sem_inv_def)
qed

lemma sem_exec_starved:
  "sem_exec e s = Some s' \<Longrightarrow> e \<noteq> PostAdd \<Longrightarrow> posting s = 0 \<Longrightarrow> sem_v s \<le> 0 \<Longrightarrow>
     posting s' = 0 \<and> sem_v s' \<le> 0 \<and> granted s' = granted s"
  by (cases e) (auto simp: waitAdd_def waitSelect_def waitDone_def Let_def split: if_splits)

lemma sem_run_starved:
  "sem_run es s = Some s' \<Longrightarrow> PostAdd \<notin> set es \<Longrightarrow> posting s = 0 \<Longrightarrow> sem_v s \<le> 0 \<Longrightarrow> granted s' = granted s"
proof (induction es arbitrary: s)
  case (Cons e es)
  then obtain s1 where s1: "sem_exec e s = Some s1" "sem_run es s1 = Some s'" by (auto split: option.splits)
  from sem_exec_starved [OF s1(1)] Cons.prems Cons.IH [OF s1(2)] show ?case by auto
qed simp

text \<open>A resource can be lost. If \<open>Post\<close> looks for a waiter while \<open>Wait\<close> has taken the counter below zero but is not yet in its
  \<open>select\<close>, or if an earlier \<open>Wait\<close> gave up because its context was done, then after one \<open>Post\<close> and no successful \<open>Wait\<close> a caller of \<open>Wait\<close> is
  blocked, and no call of \<open>Wait\<close> returns successfully until there is another \<open>Post\<close>.\<close>

theorem semaphore_starves:
  assumes "es = [WaitAdd, PostAdd, PostSelect, WaitSelect] \<or>
    es = [WaitAdd, WaitSelect, WaitDone, PostAdd, PostSelect, WaitAdd, WaitSelect]"
  shows "\<exists>s. sem_run es NewSemaphore = Some s \<and> posts s = 1 \<and> granted s = 0 \<and> blocked s = 1 \<and>
    (\<forall>es' s'. PostAdd \<notin> set es' \<longrightarrow> sem_run es' s = Some s' \<longrightarrow> granted s' = 0)"
proof -
  obtain s where s: "sem_run es NewSemaphore = Some s" "posts s = 1" "granted s = 0" "blocked s = 1" "posting s = 0" "sem_v s \<le> 0"
    using assms by (auto simp: NewSemaphore_def postAdd_def waitAdd_def waitSelect_def postSelect_def waitDone_def Let_def)
  with sem_run_starved show ?thesis by metis
qed

theorem semaphore_starves_witness:
  "\<exists>s. sem_run [WaitAdd, PostAdd, PostSelect, WaitSelect] NewSemaphore = Some s \<and> posts s = 1 \<and> granted s = 0 \<and> blocked s = 1"
  using semaphore_starves [of "[WaitAdd, PostAdd, PostSelect, WaitSelect]"] by blast

theorem semaphore_over_grant_witness:
  "\<exists>s. sem_run [PostAdd, WaitAdd, PostSelect] NewSemaphore = Some s \<and> granted s = 1 \<and> granted s \<le> 2 * posts s"
proof -
  obtain s where s: "sem_run [PostAdd, WaitAdd, PostSelect] NewSemaphore = Some s" "granted s = 1"
    by (simp add: NewSemaphore_def postAdd_def waitAdd_def postSelect_def Let_def)
  with semaphore_over_grant show ?thesis by blast
qed

end
