(* ===== verification/Lab0_Merge.thy ===== *)
theory Lab0_Merge
  imports Lab_Prelude "HOL-Library.Sublist"
begin

text \<open>
  Merging, \<open>lab0/merge_channels.go\<close> and \<open>lab0/parallel_fetcher.go\<close>.

  \<open>MergeChannels\<close> and \<open>MergeFetches\<close> run the same goroutine twice: take the next item of a source, send it to \<open>out\<close>, and stop at the end of the
  source. A source is a state with a function \<open>next\<close>; for a channel it is the list of values still to be received before the
  channel is closed, for a \<open>Fetcher\<close> its state with the method \<open>Fetch\<close>.
\<close>

section \<open>Two goroutines and an output channel\<close>

record ('s, 'v) worker =
  source :: 's
  held :: "'v option"       \<comment> \<open>taken from the source and not yet sent\<close>
  wgDone :: bool            \<comment> \<open>\<open>wg.Done()\<close> was called\<close>

record ('s, 'v) merge =
  workerA :: "('s, 'v) worker"
  workerB :: "('s, 'v) worker"
  merged :: "'v list"       \<comment> \<open>the values sent to \<open>out\<close>\<close>
  outClosed :: bool

definition MergeChannels :: "'s \<Rightarrow> 's \<Rightarrow> ('s, 'v) merge" where
  "MergeChannels a b =
     \<lparr>workerA = \<lparr>source = a, held = None, wgDone = False\<rparr>, workerB = \<lparr>source = b, held = None, wgDone = False\<rparr>,
      merged = [], outClosed = False\<rparr>"

text \<open>One step of a goroutine: \<open>None\<close> if it cannot move, otherwise the worker afterwards and what it has sent.\<close>

definition workerStep :: "('s \<Rightarrow> ('v \<times> 's) option) \<Rightarrow> ('s, 'v) worker \<Rightarrow> (('s, 'v) worker \<times> 'v list) option" where
  "workerStep next w =
     (if wgDone w then None
      else case held w of
        Some x \<Rightarrow> Some (w\<lparr>held := None\<rparr>, [x])
      | None \<Rightarrow>
          (case next (source w) of
             Some (x, s') \<Rightarrow> Some (w\<lparr>source := s', held := Some x\<rparr>, [])
           | None \<Rightarrow> Some (w\<lparr>wgDone := True\<rparr>, [])))"

datatype merge_event = StepA | StepB | CloseOut

fun merge_exec :: "('s \<Rightarrow> ('v \<times> 's) option) \<Rightarrow> merge_event \<Rightarrow> ('s, 'v) merge \<Rightarrow> ('s, 'v) merge option" where
  "merge_exec next StepA m =
     (case workerStep next (workerA m) of None \<Rightarrow> None | Some (w, sent) \<Rightarrow> Some (m\<lparr>workerA := w, merged := merged m @ sent\<rparr>))"
| "merge_exec next StepB m =
     (case workerStep next (workerB m) of None \<Rightarrow> None | Some (w, sent) \<Rightarrow> Some (m\<lparr>workerB := w, merged := merged m @ sent\<rparr>))"
| "merge_exec next CloseOut m =
     (if wgDone (workerA m) \<and> wgDone (workerB m) \<and> \<not> outClosed m then Some (m\<lparr>outClosed := True\<rparr>) else None)"

fun merge_run :: "('s \<Rightarrow> ('v \<times> 's) option) \<Rightarrow> merge_event list \<Rightarrow> ('s, 'v) merge \<Rightarrow> ('s, 'v) merge option" where
  "merge_run next [] m = Some m"
| "merge_run next (e # es) m = (case merge_exec next e m of None \<Rightarrow> None | Some m1 \<Rightarrow> merge_run next es m1)"

text \<open>The two kinds of sources.\<close>

fun chanNext :: "'v list \<Rightarrow> ('v \<times> 'v list) option" where
  "chanNext [] = None"
| "chanNext (x # xs) = Some (x, xs)"

definition fetchNext :: "('f \<Rightarrow> (string \<times> bool) \<times> 'f) \<Rightarrow> 'f \<Rightarrow> (string \<times> 'f) option" where
  "fetchNext Fetch f = (case Fetch f of ((data, ok), f') \<Rightarrow> if ok then Some (data, f') else None)"

section \<open>Sources that end\<close>

fun produces :: "('s \<Rightarrow> ('v \<times> 's) option) \<Rightarrow> 's \<Rightarrow> 'v list \<Rightarrow> bool" where
  "produces next s [] \<longleftrightarrow> next s = None"
| "produces next s (x # xs) \<longleftrightarrow> (\<exists>s'. next s = Some (x, s') \<and> produces next s' xs)"

lemma produces_chan: "produces chanNext xs xs"
  by (induction xs) auto

lemma produces_next:
  "produces next s xs \<Longrightarrow>
     (case xs of [] \<Rightarrow> next s = None | x # xs' \<Rightarrow> (\<exists>s'. next s = Some (x, s') \<and> produces next s' xs'))"
  by (cases xs) auto

definition toCome :: "('s \<Rightarrow> ('v \<times> 's) option) \<Rightarrow> ('s, 'v) worker \<Rightarrow> 'v list \<Rightarrow> bool" where
  "toCome next w xs \<longleftrightarrow>
     (case held w of
        Some x \<Rightarrow> (\<exists>xs'. xs = x # xs' \<and> produces next (source w) xs') \<and> \<not> wgDone w
      | None \<Rightarrow> produces next (source w) xs \<and> (wgDone w \<longrightarrow> xs = []))"

text \<open>The work a worker still has to do bounds the steps it can take.\<close>

definition workLeft :: "('s, 'v) worker \<Rightarrow> 'v list \<Rightarrow> nat" where
  "workLeft w xs = (if wgDone w then 0 else 2 * length xs + (if held w = None then 1 else 0))"

lemma workerStep_toCome:
  assumes "toCome next w xs" "workerStep next w = Some (w', sent)"
  obtains xs' where "toCome next w' xs'" "xs = sent @ xs'" "workLeft w' xs' < workLeft w xs"
proof (cases "held w")
  case (Some x)
  with assms obtain xs' where "xs = x # xs'" "produces next (source w) xs'" "\<not> wgDone w" by (auto simp: toCome_def)
  with that [of xs'] assms Some show thesis by (auto simp: workerStep_def toCome_def workLeft_def)
next
  case None
  with assms have p: "produces next (source w) xs" "\<not> wgDone w" by (auto simp: toCome_def workerStep_def)
  show thesis
  proof (cases xs)
    case Nil
    with p None assms that [of xs] show thesis by (auto simp: workerStep_def toCome_def workLeft_def)
  next
    case (Cons x ys)
    with p None assms that [of xs] show thesis by (auto simp: workerStep_def toCome_def workLeft_def)
  qed
qed

lemma workerStep_enabled: "\<not> wgDone w \<Longrightarrow> workerStep next w \<noteq> None"
  by (auto simp: workerStep_def split: option.splits)

lemma append_in_shuffles: "ys @ cs \<in> shuffles cs ys"
  by (induction ys) (auto intro: Cons_in_shuffles_rightI)

lemma shuffles_append_left: "zs \<in> shuffles as bs \<Longrightarrow> zs @ cs \<in> shuffles (as @ cs) bs"
proof (induction "as" bs arbitrary: zs rule: shuffles.induct)
  case (1 ys)
  then have "zs = ys" by simp
  then show ?case by (simp add: append_in_shuffles)
next
  case (2 xs)
  then show ?case by auto
next
  case (3 x xs y ys)
  from 3(3) consider zs' where "zs = x # zs'" "zs' \<in> shuffles xs (y # ys)" | zs' where "zs = y # zs'" "zs' \<in> shuffles (x # xs) ys"
    by auto
  then show ?case
  proof cases
    case 1
    with 3(1) show ?thesis by (auto intro: Cons_in_shuffles_leftI)
  next
    case 2
    with 3(2) show ?thesis by (auto intro: Cons_in_shuffles_rightI)
  qed
qed

lemma shuffles_append_right: "zs \<in> shuffles as bs \<Longrightarrow> zs @ cs \<in> shuffles as (bs @ cs)"
  using shuffles_append_left [of zs bs "as" cs] by (simp add: shuffles_commutes)

definition merge_inv :: "('s \<Rightarrow> ('v \<times> 's) option) \<Rightarrow> 'v list \<Rightarrow> 'v list \<Rightarrow> nat \<Rightarrow> ('s, 'v) merge \<Rightarrow> bool" where
  "merge_inv next xs ys n m \<longleftrightarrow>
     (\<exists>as bs xs' ys'. xs = as @ xs' \<and> ys = bs @ ys' \<and> toCome next (workerA m) xs' \<and> toCome next (workerB m) ys' \<and>
       merged m \<in> shuffles as bs \<and> (outClosed m \<longrightarrow> wgDone (workerA m) \<and> wgDone (workerB m)) \<and>
       n + workLeft (workerA m) xs' + workLeft (workerB m) ys' + (if outClosed m then 0 else 1) \<le> 2 * (length xs + length ys) + 3)"

lemma merge_inv_step:
  assumes inv: "merge_inv next xs ys n m" and e: "merge_exec next e m = Some m'"
  shows "merge_inv next xs ys (Suc n) m'"
proof -
  from inv obtain as bs xs' ys' where i: "xs = as @ xs'" "ys = bs @ ys'" "toCome next (workerA m) xs'" "toCome next (workerB m) ys'"
    "merged m \<in> shuffles as bs" "outClosed m \<longrightarrow> wgDone (workerA m) \<and> wgDone (workerB m)"
    "n + workLeft (workerA m) xs' + workLeft (workerB m) ys' + (if outClosed m then 0 else 1) \<le> 2 * (length xs + length ys) + 3"
    by (auto simp: merge_inv_def)
  show ?thesis
  proof (cases e)
    case StepA
    with e obtain w sent where w: "workerStep next (workerA m) = Some (w, sent)" "m' = m\<lparr>workerA := w, merged := merged m @ sent\<rparr>"
      by (auto split: option.splits)
    obtain xs2 where x: "toCome next w xs2" "xs' = sent @ xs2" "workLeft w xs2 < workLeft (workerA m) xs'"
      by (rule workerStep_toCome [OF i(3) w(1)])
    have nd: "\<not> outClosed m" using i(6) w(1) by (auto simp: workerStep_def)
    show ?thesis unfolding merge_inv_def
      by (rule exI [of _ "as @ sent"], rule exI [of _ bs], rule exI [of _ xs2], rule exI [of _ ys'])
        (use i x w nd in \<open>simp add: shuffles_append_left\<close>)
  next
    case StepB
    with e obtain w sent where w: "workerStep next (workerB m) = Some (w, sent)" "m' = m\<lparr>workerB := w, merged := merged m @ sent\<rparr>"
      by (auto split: option.splits)
    obtain ys2 where y: "toCome next w ys2" "ys' = sent @ ys2" "workLeft w ys2 < workLeft (workerB m) ys'"
      by (rule workerStep_toCome [OF i(4) w(1)])
    have nd: "\<not> outClosed m" using i(6) w(1) by (auto simp: workerStep_def)
    show ?thesis unfolding merge_inv_def
      by (rule exI [of _ "as"], rule exI [of _ "bs @ sent"], rule exI [of _ xs'], rule exI [of _ ys2])
        (use i y w nd in \<open>simp add: shuffles_append_right\<close>)
  next
    case CloseOut
    with e have d: "wgDone (workerA m)" "wgDone (workerB m)" "\<not> outClosed m" "m' = m\<lparr>outClosed := True\<rparr>" by (auto split: if_splits)
    show ?thesis unfolding merge_inv_def
      by (rule exI [of _ "as"], rule exI [of _ bs], rule exI [of _ xs'], rule exI [of _ ys']) (use i d in simp)
  qed
qed

lemma merge_inv_init:
  assumes "produces next a xs" "produces next b ys"
  shows "merge_inv next xs ys 0 (MergeChannels a b)"
  unfolding merge_inv_def
  by (rule exI [of _ "[]"], rule exI [of _ "[]"], rule exI [of _ xs], rule exI [of _ ys])
    (use assms in \<open>simp add: MergeChannels_def toCome_def workLeft_def\<close>)

lemma merge_run_inv:
  "merge_run next es m = Some m' \<Longrightarrow> merge_inv next xs ys n m \<Longrightarrow> merge_inv next xs ys (n + length es) m'"
proof (induction es arbitrary: n m)
  case (Cons e es)
  then obtain m1 where m1: "merge_exec next e m = Some m1" "merge_run next es m1 = Some m'" by (auto split: option.splits)
  from Cons.IH [OF m1(2) merge_inv_step [OF Cons.prems(2) m1(1)]] show ?case by simp
qed simp

lemma merge_enabled: "\<not> outClosed m \<Longrightarrow> \<exists>e m'. merge_exec next e m = Some m'"
proof -
  assume n: "\<not> outClosed m"
  consider "\<not> wgDone (workerA m)" | "\<not> wgDone (workerB m)" | "wgDone (workerA m)" "wgDone (workerB m)" by blast
  then show ?thesis
  proof cases
    case 1
    from workerStep_enabled [OF this, of "next"] obtain w sent where "workerStep next (workerA m) = Some (w, sent)" by auto
    then show ?thesis by (intro exI [of _ StepA]) simp
  next
    case 2
    from workerStep_enabled [OF this, of "next"] obtain w sent where "workerStep next (workerB m) = Some (w, sent)" by auto
    then show ?thesis by (intro exI [of _ StepB]) simp
  next
    case 3
    with n show ?thesis by (intro exI [of _ CloseOut]) simp
  qed
qed

text \<open>What a merge of two sources that end does, however its goroutines are scheduled.\<close>

lemma merge_correct:
  assumes "produces next a xs" "produces next b ys" "merge_run next es (MergeChannels a b) = Some m"
  shows "length es \<le> 2 * (length xs + length ys) + 3"
    and "\<exists>as bs. prefix as xs \<and> prefix bs ys \<and> merged m \<in> shuffles as bs"
    and "outClosed m \<Longrightarrow> merged m \<in> shuffles xs ys"
    and "\<not> outClosed m \<Longrightarrow> \<exists>e m'. merge_exec next e m = Some m'"
proof -
  from merge_run_inv [OF assms(3) merge_inv_init [OF assms(1,2)]] obtain as bs xs' ys' where i: "xs = as @ xs'" "ys = bs @ ys'"
    "toCome next (workerA m) xs'" "toCome next (workerB m) ys'"
    "merged m \<in> shuffles as bs" "outClosed m \<longrightarrow> wgDone (workerA m) \<and> wgDone (workerB m)"
    "length es + workLeft (workerA m) xs' + workLeft (workerB m) ys' + (if outClosed m then 0 else 1) \<le> 2 * (length xs + length ys) + 3"
    by (auto simp: merge_inv_def)
  then show "length es \<le> 2 * (length xs + length ys) + 3" by linarith
  show "\<exists>as bs. prefix as xs \<and> prefix bs ys \<and> merged m \<in> shuffles as bs" using i by (auto simp: prefix_def)
  show "merged m \<in> shuffles xs ys" if "outClosed m"
    using i that by (auto simp: toCome_def split: option.splits)
  show "\<not> outClosed m \<Longrightarrow> \<exists>e m'. merge_exec next e m = Some m'" by (rule merge_enabled)
qed

text \<open>C38: \<open>MergeChannels\<close> terminates and loses, duplicates and reorders nothing. For channels on which the values \<open>xs\<close> and \<open>ys\<close> are sent before
  they are closed, every schedule of the goroutines ends after at most \<open>2 * (length xs + length ys) + 3\<close> steps, a step
  is possible as long as \<open>out\<close> is not closed, what has been sent to \<open>out\<close> at any moment is an interleaving of prefixes of \<open>xs\<close> and \<open>ys\<close>, and when
  \<open>out\<close> is closed it is an interleaving of all of both.\<close>

theorem MergeChannels_correct:
  assumes "merge_run chanNext es (MergeChannels xs ys) = Some m"
  shows "length es \<le> 2 * (length xs + length ys) + 3 \<and>
    (\<exists>as bs. prefix as xs \<and> prefix bs ys \<and> merged m \<in> shuffles as bs) \<and>
    (if outClosed m then merged m \<in> shuffles xs ys else \<exists>e m'. merge_exec chanNext e m = Some m')"
  using merge_correct [OF produces_chan produces_chan assms] by simp

theorem MergeChannels_correct_witness:
  "\<exists>m. merge_run chanNext [StepA, StepB, StepB, StepA, StepB, StepA, StepA, StepA, CloseOut] (MergeChannels [1, 2] [3 :: nat]) = Some m \<and>
     outClosed m \<and> merged m \<in> shuffles [1, 2] [3]"
proof -
  obtain m where m: "merge_run chanNext [StepA, StepB, StepB, StepA, StepB, StepA, StepA, StepA, CloseOut] (MergeChannels [1, 2] [3 :: nat])
      = Some m" "outClosed m"
    by (simp add: MergeChannels_def workerStep_def)
  with MergeChannels_correct [OF m(1)] show ?thesis by simp
qed

text \<open>\<open>MergeFetches\<close> does the same with two fetchers. \<open>Fetch\<close> is called until it first returns \<open>false\<close> and not again.\<close>

definition MergeFetches :: "'f \<Rightarrow> 'f \<Rightarrow> ('f, string) merge" where
  "MergeFetches a b = MergeChannels a b"

theorem MergeFetches_correct:
  assumes "produces (fetchNext Fetch) a xs" "produces (fetchNext Fetch) b ys"
    and "merge_run (fetchNext Fetch) es (MergeFetches a b) = Some m"
  shows "length es \<le> 2 * (length xs + length ys) + 3 \<and>
    (\<exists>as bs. prefix as xs \<and> prefix bs ys \<and> merged m \<in> shuffles as bs) \<and>
    (if outClosed m then merged m \<in> shuffles xs ys else \<exists>e m'. merge_exec (fetchNext Fetch) e m = Some m')"
  using merge_correct [OF assms(1,2), of es m] assms(3) by (simp add: MergeFetches_def)

section \<open>Merging until a context is done\<close>

text \<open>\<open>MergeChannelsOrCancel\<close> is a loop in one goroutine. A channel is what has been received from it, what waits to be received, and whether
  it is closed. The loop is either at its top, where it looks at the context, or in the \<open>select\<close>, which takes a channel that has a value or
  is closed. The reader of \<open>out\<close> is always ready.\<close>

datatype ctx_error = Canceled | DeadlineExceeded

record 'v chan =
  received :: "'v list"
  queued :: "'v list"
  chClosed :: bool

record 'v orCancel =
  oc_a :: "'v chan"
  oc_b :: "'v chan"
  oc_ctx :: "ctx_error option"
  done_a :: bool
  done_b :: bool
  inSelect :: bool
  oc_out :: "'v list"
  oc_result :: "ctx_error option option"    \<comment> \<open>\<open>out\<close> is closed and the function has returned\<close>

definition MergeChannelsOrCancel :: "'v orCancel" where
  "MergeChannelsOrCancel =
     \<lparr>oc_a = \<lparr>received = [], queued = [], chClosed = False\<rparr>, oc_b = \<lparr>received = [], queued = [], chClosed = False\<rparr>,
      oc_ctx = None, done_a = False, done_b = False, inSelect = False, oc_out = [], oc_result = None\<rparr>"

text \<open>The result of \<open>x, ok := <-c\<close>; \<open>None\<close> if the receiver has to wait.\<close>

definition recv :: "'v chan \<Rightarrow> ('v option \<times> 'v chan) option" where
  "recv c =
     (case queued c of
        x # xs \<Rightarrow> Some (Some x, c\<lparr>received := received c @ [x], queued := xs\<rparr>)
      | [] \<Rightarrow> if chClosed c then Some (None, c) else None)"

definition loopTop :: "'v orCancel \<Rightarrow> 'v orCancel option" where
  "loopTop st =
     (if inSelect st \<or> oc_result st \<noteq> None then None
      else case oc_ctx st of
        Some err \<Rightarrow> Some (st\<lparr>oc_result := Some (Some err)\<rparr>)
      | None \<Rightarrow>
          if done_a st \<and> done_b st then Some (st\<lparr>oc_result := Some None\<rparr>)
          else Some (st\<lparr>inSelect := True\<rparr>))"

definition selectA :: "'v orCancel \<Rightarrow> 'v orCancel option" where
  "selectA st =
     (if \<not> inSelect st then None
      else case recv (oc_a st) of
        None \<Rightarrow> None
      | Some (None, a) \<Rightarrow> Some (st\<lparr>inSelect := False, oc_a := a, done_a := True\<rparr>)
      | Some (Some x, a) \<Rightarrow> Some (st\<lparr>inSelect := False, oc_a := a, oc_out := oc_out st @ [x]\<rparr>))"

definition selectB :: "'v orCancel \<Rightarrow> 'v orCancel option" where
  "selectB st =
     (if \<not> inSelect st then None
      else case recv (oc_b st) of
        None \<Rightarrow> None
      | Some (None, b) \<Rightarrow> Some (st\<lparr>inSelect := False, oc_b := b, done_b := True\<rparr>)
      | Some (Some x, b) \<Rightarrow> Some (st\<lparr>inSelect := False, oc_b := b, oc_out := oc_out st @ [x]\<rparr>))"

text \<open>The environment sends on the channels, closes them, and ends the context.\<close>

datatype 'v oc_event = LoopTop | SelectA | SelectB | SendA 'v | SendB 'v | CloseA | CloseB | Cancel ctx_error

definition chSend :: "'v \<Rightarrow> 'v chan \<Rightarrow> 'v chan option" where
  "chSend x c = (if chClosed c then None else Some (c\<lparr>queued := queued c @ [x]\<rparr>))"

fun oc_exec :: "'v oc_event \<Rightarrow> 'v orCancel \<Rightarrow> 'v orCancel option" where
  "oc_exec LoopTop st = loopTop st"
| "oc_exec SelectA st = selectA st"
| "oc_exec SelectB st = selectB st"
| "oc_exec (SendA x) st = map_option (\<lambda>a. st\<lparr>oc_a := a\<rparr>) (chSend x (oc_a st))"
| "oc_exec (SendB x) st = map_option (\<lambda>b. st\<lparr>oc_b := b\<rparr>) (chSend x (oc_b st))"
| "oc_exec CloseA st = Some (st\<lparr>oc_a := (oc_a st)\<lparr>chClosed := True\<rparr>\<rparr>)"
| "oc_exec CloseB st = Some (st\<lparr>oc_b := (oc_b st)\<lparr>chClosed := True\<rparr>\<rparr>)"
| "oc_exec (Cancel e) st = Some (if oc_ctx st = None then st\<lparr>oc_ctx := Some e\<rparr> else st)"

fun oc_run :: "'v oc_event list \<Rightarrow> 'v orCancel \<Rightarrow> 'v orCancel option" where
  "oc_run [] st = Some st"
| "oc_run (e # es) st = (case oc_exec e st of None \<Rightarrow> None | Some st1 \<Rightarrow> oc_run es st1)"

definition oc_inv :: "'v orCancel \<Rightarrow> bool" where
  "oc_inv st \<longleftrightarrow> oc_out st \<in> shuffles (received (oc_a st)) (received (oc_b st)) \<and>
     (done_a st \<longrightarrow> chClosed (oc_a st) \<and> queued (oc_a st) = []) \<and> (done_b st \<longrightarrow> chClosed (oc_b st) \<and> queued (oc_b st) = []) \<and>
     (oc_result st \<noteq> None \<longrightarrow> \<not> inSelect st) \<and>
     (oc_result st = Some None \<longrightarrow> done_a st \<and> done_b st) \<and> (\<forall>e. oc_result st = Some (Some e) \<longrightarrow> oc_ctx st = Some e)"

lemma recv_Some:
  assumes "recv c = Some (r, c')"
  obtains "r = None" "c' = c" "chClosed c" "queued c = []"
  | x xs where "r = Some x" "queued c = x # xs" "c' = c\<lparr>received := received c @ [x], queued := xs\<rparr>"
  using assms by (auto simp: recv_def split: list.splits if_splits)

lemma oc_inv_selectA:
  assumes "selectA st = Some st'" "oc_inv st"
  shows "oc_inv st'"
proof -
  from assms(1) obtain r a where r: "inSelect st" "recv (oc_a st) = Some (r, a)" by (auto simp: selectA_def split: if_splits option.splits)
  from r(2) show ?thesis
  proof (cases rule: recv_Some)
    case 1
    with r assms show ?thesis by (auto simp: selectA_def oc_inv_def)
  next
    case (2 x xs)
    with r assms show ?thesis by (auto simp: selectA_def oc_inv_def shuffles_append_left)
  qed
qed

lemma oc_inv_selectB:
  assumes "selectB st = Some st'" "oc_inv st"
  shows "oc_inv st'"
proof -
  from assms(1) obtain r b where r: "inSelect st" "recv (oc_b st) = Some (r, b)" by (auto simp: selectB_def split: if_splits option.splits)
  from r(2) show ?thesis
  proof (cases rule: recv_Some)
    case 1
    with r assms show ?thesis by (auto simp: selectB_def oc_inv_def)
  next
    case (2 x xs)
    with r assms show ?thesis by (auto simp: selectB_def oc_inv_def shuffles_append_right)
  qed
qed

lemma oc_inv_loopTop:
  assumes "loopTop st = Some st'" "oc_inv st"
  shows "oc_inv st'"
proof (cases "oc_ctx st")
  case None
  with assms show ?thesis by (cases "done_a st \<and> done_b st") (auto simp: loopTop_def oc_inv_def split: if_split_asm)
next
  case (Some err)
  with assms show ?thesis by (auto simp: loopTop_def oc_inv_def split: if_split_asm)
qed

lemma oc_inv_Cancel: "oc_inv st \<Longrightarrow> oc_ctx st = None \<Longrightarrow> oc_inv (st\<lparr>oc_ctx := Some e\<rparr>)"
  by (auto simp: oc_inv_def split: option.splits)

lemma oc_exec_inv:
  assumes "oc_exec e st = Some st'" "oc_inv st"
  shows "oc_inv st'"
proof (cases e)
  case (SendA x)
  with assms show ?thesis by (auto simp: chSend_def oc_inv_def split: if_split_asm)
next
  case (SendB x)
  with assms show ?thesis by (auto simp: chSend_def oc_inv_def split: if_split_asm)
next
  case CloseA
  with assms show ?thesis by (auto simp: oc_inv_def)
next
  case CloseB
  with assms show ?thesis by (auto simp: oc_inv_def)
next
  case (Cancel err)
  with assms show ?thesis by (auto simp: oc_inv_Cancel split: if_split_asm)
next
  case LoopTop
  with assms(1) show ?thesis by (intro oc_inv_loopTop [OF _ assms(2)]) simp
next
  case SelectA
  with assms(1) show ?thesis by (intro oc_inv_selectA [OF _ assms(2)]) simp
next
  case SelectB
  with assms(1) show ?thesis by (intro oc_inv_selectB [OF _ assms(2)]) simp
qed

lemma oc_run_inv: "oc_run es st = Some st' \<Longrightarrow> oc_inv st \<Longrightarrow> oc_inv st'"
proof (induction es arbitrary: st)
  case (Cons e es)
  then obtain st1 where st1: "oc_exec e st = Some st1" "oc_run es st1 = Some st'" by (auto split: option.splits)
  from Cons.IH [OF st1(2) oc_exec_inv [OF st1(1) Cons.prems(2)]] show ?case .
qed simp

text \<open>After the context is done the loop can finish at most the receive it is in.\<close>

definition oc_budget :: "'v orCancel \<Rightarrow> nat" where
  "oc_budget st = length (oc_out st) + (if inSelect st then 1 else 0)"

lemma oc_exec_budget: "oc_exec e st = Some st' \<Longrightarrow> oc_ctx st = Some err \<Longrightarrow> oc_ctx st' = Some err \<and> oc_budget st' \<le> oc_budget st"
  by (cases e) (auto simp: oc_budget_def loopTop_def selectA_def selectB_def chSend_def split: if_splits option.splits)

lemma oc_run_budget: "oc_run es st = Some st' \<Longrightarrow> oc_ctx st = Some err \<Longrightarrow> oc_budget st' \<le> oc_budget st"
proof (induction es arbitrary: st)
  case (Cons e es)
  then obtain st1 where st1: "oc_exec e st = Some st1" "oc_run es st1 = Some st'" by (auto split: option.splits)
  from oc_exec_budget [OF st1(1) Cons.prems(2)] Cons.IH [OF st1(2)] show ?case by auto
qed simp

text \<open>C39: what \<open>MergeChannelsOrCancel\<close> has sent to \<open>out\<close> is at every moment an interleaving of what it has received. It returns \<open>nil\<close> only when
  both channels are closed and everything in them has been received, and an error only if it is the error of the context; and once
  the context is done it sends at most one more value, however long it is left running.\<close>

theorem MergeChannelsOrCancel_correct:
  assumes "oc_run es MergeChannelsOrCancel = Some st"
  shows "oc_out st \<in> shuffles (received (oc_a st)) (received (oc_b st)) \<and>
    (oc_result st = Some None \<longrightarrow> chClosed (oc_a st) \<and> queued (oc_a st) = [] \<and> chClosed (oc_b st) \<and> queued (oc_b st) = []) \<and>
    (\<forall>err. oc_result st = Some (Some err) \<longrightarrow> oc_ctx st = Some err) \<and>
    (oc_ctx st \<noteq> None \<longrightarrow> (\<forall>es' st'. oc_run es' st = Some st' \<longrightarrow> length (oc_out st') \<le> length (oc_out st) + 1))"
proof -
  have "oc_inv MergeChannelsOrCancel" by (simp add: oc_inv_def MergeChannelsOrCancel_def)
  with oc_run_inv [OF assms] have i: "oc_inv st" .
  moreover have "length (oc_out st') \<le> length (oc_out st) + 1" if "oc_ctx st \<noteq> None" "oc_run es' st = Some st'" for es' st'
    using oc_run_budget [OF that(2)] that(1) by (fastforce simp: oc_budget_def split: if_splits)
  ultimately show ?thesis by (auto simp: oc_inv_def)
qed

theorem MergeChannelsOrCancel_correct_witness:
  "\<exists>st. oc_run [SendA (1 :: nat), SendB 2, LoopTop, SelectB, CloseA, LoopTop, SelectA, Cancel Canceled, LoopTop] MergeChannelsOrCancel = Some st \<and>
     oc_result st = Some (Some Canceled) \<and> oc_out st \<in> shuffles (received (oc_a st)) (received (oc_b st))"
proof -
  obtain st where st: "oc_run [SendA (1 :: nat), SendB 2, LoopTop, SelectB, CloseA, LoopTop, SelectA, Cancel Canceled, LoopTop]
      MergeChannelsOrCancel = Some st" "oc_result st = Some (Some Canceled)"
    by (simp add: MergeChannelsOrCancel_def chSend_def loopTop_def selectA_def selectB_def recv_def)
  with MergeChannelsOrCancel_correct [OF st(1)] show ?thesis by blast
qed

text \<open>A done context does not wake the \<open>select\<close>. If the context is done while the loop waits for two channels that are open and empty, the
  loop cannot move, although the context is done, until something is sent or closed.\<close>

theorem cancel_not_noticed:
  "\<exists>st. oc_run [LoopTop, Cancel err] MergeChannelsOrCancel = Some st \<and> oc_ctx st = Some err \<and> oc_result st = None \<and>
     oc_exec LoopTop st = None \<and> oc_exec SelectA st = None \<and> oc_exec SelectB st = None"
  by (simp add: MergeChannelsOrCancel_def loopTop_def selectA_def selectB_def recv_def)

section \<open>The parallel fetcher\<close>

text \<open>\<open>semaphore.Weighted\<close> is a library: a record of its operations, \<open>Acquire\<close> and \<open>Release\<close> for weight 1. \<open>Acquire\<close> returns, fails with an error, or makes its caller
  wait. What the code relies on is its documentation: a new semaphore has the given size and nothing of it is in use; \<open>Acquire\<close> takes one unit, waits only while
  all are in use, and leaves the semaphore unchanged if it fails; \<open>Release\<close> gives one unit back.\<close>

datatype 's acquired = Acquired 's | AcquireError | MustWait

record 's weighted =
  NewWeighted :: "int \<Rightarrow> 's"
  Acquire :: "'s \<Rightarrow> 's acquired"
  Release :: "'s \<Rightarrow> 's"

definition weighted_ok :: "'s weighted \<Rightarrow> ('s \<Rightarrow> nat) \<Rightarrow> ('s \<Rightarrow> int) \<Rightarrow> bool" where
  "weighted_ok lib inUse capacity \<longleftrightarrow>
     (\<forall>n. inUse (NewWeighted lib n) = 0 \<and> capacity (NewWeighted lib n) = n) \<and>
     (\<forall>s. case Acquire lib s of
        Acquired s' \<Rightarrow> int (inUse s) < capacity s \<and> inUse s' = inUse s + 1 \<and> capacity s' = capacity s
      | AcquireError \<Rightarrow> True
      | MustWait \<Rightarrow> capacity s \<le> int (inUse s)) \<and>
     (\<forall>s. 0 < inUse s \<longrightarrow> inUse (Release lib s) = inUse s - 1 \<and> capacity (Release lib s) = capacity s)"

text \<open>Besides its two fields the state holds the calls of \<open>Fetch\<close> that are under way and what the calls have returned.\<close>

record ('f, 's) ParallelFetcher =
  pf_fetcher :: 'f
  pf_sem :: 's
  fetching :: nat                             \<comment> \<open>calls inside \<open>fetcher.Fetch()\<close>\<close>
  returning :: "(string \<times> bool) list"         \<comment> \<open>what the calls return that are before the deferred \<open>Release\<close>\<close>
  results :: "(string \<times> bool) list"           \<comment> \<open>what calls have returned\<close>

definition NewParallelFetcher :: "'s weighted \<Rightarrow> 'f \<Rightarrow> int \<Rightarrow> ('f, 's) ParallelFetcher" where
  "NewParallelFetcher lib fetcher maxConcurrencyLimit =
     \<lparr>pf_fetcher = fetcher, pf_sem = NewWeighted lib maxConcurrencyLimit, fetching = 0, returning = [], results = []\<rparr>"

text \<open>The steps of calls of \<open>Fetch\<close>: up to the \<open>Acquire\<close> that returns, the return of the underlying fetcher, and the deferred \<open>Release\<close> with the return.\<close>

datatype pf_event = FetchBegin | FetchReturn | FetchRelease nat

fun pf_exec ::
    "'s weighted \<Rightarrow> ('f \<Rightarrow> (string \<times> bool) \<times> 'f) \<Rightarrow> pf_event \<Rightarrow> ('f, 's) ParallelFetcher \<Rightarrow> ('f, 's) ParallelFetcher option" where
  "pf_exec lib Fetch FetchBegin pf =
     (case Acquire lib (pf_sem pf) of
        MustWait \<Rightarrow> None
      | AcquireError \<Rightarrow> Some (pf\<lparr>results := results pf @ [('''', False)]\<rparr>)
      | Acquired sem \<Rightarrow> Some (pf\<lparr>pf_sem := sem, fetching := fetching pf + 1\<rparr>))"
| "pf_exec lib Fetch FetchReturn pf =
     (if 0 < fetching pf
      then case Fetch (pf_fetcher pf) of (dataOk, fetcher) \<Rightarrow>
             Some (pf\<lparr>pf_fetcher := fetcher, fetching := fetching pf - 1, returning := returning pf @ [dataOk]\<rparr>)
      else None)"
| "pf_exec lib Fetch (FetchRelease i) pf =
     (if i < length (returning pf)
      then Some (pf\<lparr>pf_sem := Release lib (pf_sem pf), returning := take i (returning pf) @ drop (Suc i) (returning pf),
             results := results pf @ [returning pf ! i]\<rparr>)
      else None)"

fun pf_run ::
    "'s weighted \<Rightarrow> ('f \<Rightarrow> (string \<times> bool) \<times> 'f) \<Rightarrow> pf_event list \<Rightarrow> ('f, 's) ParallelFetcher \<Rightarrow> ('f, 's) ParallelFetcher option" where
  "pf_run lib Fetch [] pf = Some pf"
| "pf_run lib Fetch (e # es) pf =
     (case pf_exec lib Fetch e pf of None \<Rightarrow> None | Some pf1 \<Rightarrow> pf_run lib Fetch es pf1)"

text \<open>What the underlying fetcher answers to its first \<open>k\<close> calls, and its state afterwards.\<close>

fun fetchMany :: "('f \<Rightarrow> (string \<times> bool) \<times> 'f) \<Rightarrow> nat \<Rightarrow> 'f \<Rightarrow> (string \<times> bool) list \<times> 'f" where
  "fetchMany Fetch 0 f = ([], f)"
| "fetchMany Fetch (Suc k) f = (case fetchMany Fetch k f of (rs, f1) \<Rightarrow> case Fetch f1 of (r, f2) \<Rightarrow> (rs @ [r], f2))"

text \<open>\<open>k\<close> calls of the fetcher have returned, and \<open>e\<close> calls of \<open>Acquire\<close> failed.\<close>

definition pf_ok ::
    "('s \<Rightarrow> nat) \<Rightarrow> ('s \<Rightarrow> int) \<Rightarrow> int \<Rightarrow> ('f \<Rightarrow> (string \<times> bool) \<times> 'f) \<Rightarrow> 'f \<Rightarrow> nat \<Rightarrow> nat \<Rightarrow> ('f, 's) ParallelFetcher \<Rightarrow> bool" where
  "pf_ok inUse capacity limit Fetch f0 k e pf \<longleftrightarrow>
     inUse (pf_sem pf) = fetching pf + length (returning pf) \<and> int (inUse (pf_sem pf)) \<le> max 0 limit \<and> capacity (pf_sem pf) = limit \<and>
     pf_fetcher pf = snd (fetchMany Fetch k f0) \<and>
     mset (results pf) + mset (returning pf) = mset (fst (fetchMany Fetch k f0)) + replicate_mset e ('''', False)"

lemma weighted_acquire:
  assumes "weighted_ok lib inUse capacity"
  shows "case Acquire lib s of
      Acquired s' \<Rightarrow> int (inUse s) < capacity s \<and> inUse s' = inUse s + 1 \<and> capacity s' = capacity s
    | AcquireError \<Rightarrow> True
    | MustWait \<Rightarrow> capacity s \<le> int (inUse s)"
  using assms unfolding weighted_ok_def by (elim conjE) (erule spec)

lemma pf_ok_begin:
  assumes "weighted_ok lib inUse capacity" "pf_exec lib Fetch FetchBegin pf = Some pf'" "pf_ok inUse capacity limit Fetch f0 k e pf"
  shows "\<exists>e'. pf_ok inUse capacity limit Fetch f0 k e' pf' \<and> ((\<forall>s. Acquire lib s \<noteq> AcquireError) \<longrightarrow> e' = e)"
proof (cases "Acquire lib (pf_sem pf)")
  case (Acquired s)
  then have "int (inUse (pf_sem pf)) < capacity (pf_sem pf)" "inUse s = inUse (pf_sem pf) + 1" "capacity s = capacity (pf_sem pf)"
    using weighted_acquire [OF assms(1), of "pf_sem pf"] by simp_all
  with Acquired assms(2,3) show ?thesis by (intro exI [of _ e]) (auto simp: pf_ok_def)
next
  case AcquireError
  with assms(2,3) show ?thesis by (intro exI [of _ "Suc e"]) (auto simp: pf_ok_def)
qed (use assms(2) in simp)

lemma pf_ok_return:
  assumes "pf_exec lib Fetch FetchReturn pf = Some pf'" "pf_ok inUse capacity limit Fetch f0 k e pf"
  shows "pf_ok inUse capacity limit Fetch f0 (Suc k) e pf'"
  using assms by (auto simp: pf_ok_def split: if_splits prod.splits)

lemma mset_remove: "i < length xs \<Longrightarrow> add_mset (xs ! i) (mset (take i xs) + mset (drop (Suc i) xs)) = mset xs"
  by (metis add_mset_add_single id_take_nth_drop mset.simps(2) mset_append union_mset_add_mset_right)

lemma pf_ok_release:
  assumes "weighted_ok lib inUse capacity" "pf_exec lib Fetch (FetchRelease i) pf = Some pf'" "pf_ok inUse capacity limit Fetch f0 k e pf"
  shows "pf_ok inUse capacity limit Fetch f0 k e pf'"
proof -
  have i: "i < length (returning pf)" and pf': "pf' = pf\<lparr>pf_sem := Release lib (pf_sem pf),
      returning := take i (returning pf) @ drop (Suc i) (returning pf), results := results pf @ [returning pf ! i]\<rparr>"
    using assms(2) by (auto split: if_splits)
  have "0 < inUse (pf_sem pf)" using i assms(3) by (auto simp: pf_ok_def)
  then have r: "inUse (Release lib (pf_sem pf)) = inUse (pf_sem pf) - 1" "capacity (Release lib (pf_sem pf)) = capacity (pf_sem pf)"
    using assms(1) by (simp_all add: weighted_ok_def)
  have m: "mset (results pf') + mset (returning pf') = mset (results pf) + mset (returning pf)"
    unfolding pf' using mset_remove [OF i] by simp
  show ?thesis unfolding pf_ok_def m using assms(3) r i by (auto simp: pf_ok_def pf')
qed

lemma pf_ok_run:
  assumes "weighted_ok lib inUse capacity"
  shows "pf_run lib Fetch es pf = Some pf' \<Longrightarrow> pf_ok inUse capacity limit Fetch f0 k e pf \<Longrightarrow>
    \<exists>e'. pf_ok inUse capacity limit Fetch f0 (k + length (filter ((=) FetchReturn) es)) e' pf' \<and> ((\<forall>s. Acquire lib s \<noteq> AcquireError) \<longrightarrow> e' = e)"
proof (induction es arbitrary: pf k e)
  case (Cons ev es)
  then obtain pf1 where pf1: "pf_exec lib Fetch ev pf = Some pf1" "pf_run lib Fetch es pf1 = Some pf'" by (auto split: option.splits)
  obtain e1 where e1: "pf_ok inUse capacity limit Fetch f0 (k + (if ev = FetchReturn then 1 else 0)) e1 pf1" "(\<forall>s. Acquire lib s \<noteq> AcquireError) \<longrightarrow> e1 = e"
  proof (cases ev)
    case FetchBegin
    then show ?thesis using that pf_ok_begin [OF assms pf1(1) [unfolded FetchBegin] Cons.prems(2)] by auto
  next
    case FetchReturn
    then show ?thesis using that [of e] pf_ok_return [OF pf1(1) [unfolded FetchReturn] Cons.prems(2)] by simp
  next
    case (FetchRelease i)
    then show ?thesis using that [of e] pf_ok_release [OF assms pf1(1) [unfolded FetchRelease] Cons.prems(2)] by simp
  qed
  from Cons.IH [OF pf1(2) e1(1)] e1(2) show ?case by auto
qed auto

text \<open>C40: the parallel fetcher with the limit \<open>maxConcurrencyLimit\<close>, on a \<open>semaphore.Weighted\<close> that does what its documentation says. At any moment no more than \<open>maxConcurrencyLimit\<close> calls are inside
  the underlying fetcher, or none if the limit is negative; a call of \<open>Fetch\<close> can go on whenever fewer calls than the limit are between their \<open>Acquire\<close> and their \<open>Release\<close>. Each
  answer of the underlying fetcher is returned by exactly one call of \<open>Fetch\<close>, or is about to be, and the only other result is the empty one of a call whose \<open>Acquire\<close> failed.\<close>

theorem fetch_limit:
  assumes "weighted_ok lib inUse capacity" "pf_run lib Fetch es (NewParallelFetcher lib fetcher maxConcurrencyLimit) = Some pf"
  shows "int (fetching pf + length (returning pf)) \<le> max 0 maxConcurrencyLimit \<and>
    (int (fetching pf + length (returning pf)) < maxConcurrencyLimit \<longrightarrow> (\<exists>pf'. pf_exec lib Fetch FetchBegin pf = Some pf')) \<and>
    (\<exists>e. mset (results pf) + mset (returning pf) =
        mset (fst (fetchMany Fetch (length (filter ((=) FetchReturn) es)) fetcher)) + replicate_mset e ('''', False) \<and>
      ((\<forall>s. Acquire lib s \<noteq> AcquireError) \<longrightarrow> e = 0))"
proof -
  have "pf_ok inUse capacity maxConcurrencyLimit Fetch fetcher 0 0 (NewParallelFetcher lib fetcher maxConcurrencyLimit)"
    using assms(1) by (simp add: pf_ok_def NewParallelFetcher_def weighted_ok_def)
  from pf_ok_run [OF assms(1,2) this] obtain e where
    e: "pf_ok inUse capacity maxConcurrencyLimit Fetch fetcher (length (filter ((=) FetchReturn) es)) e pf" "(\<forall>s. Acquire lib s \<noteq> AcquireError) \<longrightarrow> e = 0"
    by auto
  have "\<exists>pf'. pf_exec lib Fetch FetchBegin pf = Some pf'" if "int (fetching pf + length (returning pf)) < maxConcurrencyLimit"
  proof (cases "Acquire lib (pf_sem pf)")
    case MustWait
    then have "capacity (pf_sem pf) \<le> int (inUse (pf_sem pf))" using weighted_acquire [OF assms(1), of "pf_sem pf"] by simp
    then show ?thesis using e(1) that by (auto simp: pf_ok_def)
  qed simp_all
  with e show ?thesis by (auto simp: pf_ok_def)
qed

text \<open>A semaphore as a pair of the size and what is in use, and a fetcher of two strings.\<close>

definition sampleWeighted :: "(int \<times> nat) weighted" where
  "sampleWeighted = \<lparr>NewWeighted = (\<lambda>n. (n, 0)),
     Acquire = (\<lambda>(size, used). if int used < size then Acquired (size, used + 1) else MustWait), Release = (\<lambda>(size, used). (size, used - 1))\<rparr>"

definition sampleFetch :: "string list \<Rightarrow> (string \<times> bool) \<times> string list" where
  "sampleFetch f = (case f of [] \<Rightarrow> (('''', False), []) | x # xs \<Rightarrow> ((x, True), xs))"

lemma sampleWeighted_ok: "weighted_ok sampleWeighted snd fst"
  by (auto simp: weighted_ok_def sampleWeighted_def split: if_splits)

theorem fetch_limit_witness:
  "\<exists>pf. pf_run sampleWeighted sampleFetch [FetchBegin, FetchBegin, FetchReturn, FetchRelease 0, FetchBegin]
     (NewParallelFetcher sampleWeighted [''a'', ''b''] 2) = Some pf \<and> fetching pf = 2 \<and> mset (results pf) = {#(''a'', True)#} \<and>
     int (fetching pf + length (returning pf)) \<le> 2"
proof -
  let ?es = "[FetchBegin, FetchBegin, FetchReturn, FetchRelease 0, FetchBegin]"
  obtain pf where pf: "pf_run sampleWeighted sampleFetch ?es (NewParallelFetcher sampleWeighted [''a'', ''b''] 2) = Some pf" "fetching pf = 2" "returning pf = []"
    by (simp add: NewParallelFetcher_def sampleWeighted_def sampleFetch_def)
  have "Acquire sampleWeighted s \<noteq> AcquireError" for s by (cases s) (simp add: sampleWeighted_def)
  with fetch_limit [OF sampleWeighted_ok pf(1)] pf show ?thesis by (auto simp: sampleFetch_def)
qed

end
