(* ===== verification/Lab1_Services.thy ===== *)
theory Lab1_Services
  imports Lab_Prelude "HOL-Library.State_Monad" "HOL-Library.Monad_Syntax"
begin

text \<open>
  The services below the recommendation service: failure injection (\<open>lab1/failure_injection/failure_injection.go\<close>), the user service
  (\<open>lab1/user_service/server_lib/server_lib.go\<close>) and the video service (\<open>lab1/video_service/server_lib/server_lib.go\<close>).

  \<open>math/rand\<close> is a state monad: \<open>intn n\<close> is \<open>rand.Intn(n)\<close>, of which the proofs use that it returns a number below \<open>n\<close>; a seed is
  the initial state. \<open>gofakeit\<close> is a library with a random source of its own; what it returns for an item is a parameter. Ids are natural
  numbers, coefficients are 64-bit words.
\<close>

section \<open>Failure injection\<close>

record InjectionConfig =
  SleepNs :: int
  FailureRate :: int
  ResponseOmissionRate :: int

definition SetInjectionConfig :: "int \<Rightarrow> int \<Rightarrow> int \<Rightarrow> InjectionConfig" where
  "SetInjectionConfig sleepNs failureRate responseOmissionRate =
     \<lparr>SleepNs = sleepNs, FailureRate = failureRate, ResponseOmissionRate = responseOmissionRate\<rparr>"

definition MakeFailureInjector :: InjectionConfig where
  "MakeFailureInjector = \<lparr>SleepNs = 0, FailureRate = 0, ResponseOmissionRate = 0\<rparr>"

definition ClearInjectionConfig :: InjectionConfig where
  "ClearInjectionConfig = SetInjectionConfig 0 0 0"

text \<open>\<open>rnd\<close> is the random number behind \<open>rand.Int63n\<close>, which panics on a negative argument.\<close>

definition oneIn :: "nat \<Rightarrow> int \<Rightarrow> bool go" where
  "oneIn rnd n =
     (if n = 0 then Inr False
      else if n < 0 then Inl (BadArgument ''invalid argument to Int63n'')
      else Inr (int rnd mod n = 0))"

definition MaybeInject :: "nat \<Rightarrow> nat \<Rightarrow> InjectionConfig \<Rightarrow> bool go" where
  "MaybeInject rnd1 rnd2 config =
     go_bind (oneIn rnd1 (FailureRate config)) (\<lambda>shouldError.
     go_bind (oneIn rnd2 (ResponseOmissionRate config)) (\<lambda>shouldOmitResponse.
     if shouldOmitResponse then Inl Blocks else Inr shouldError))"

section \<open>The user service\<close>

record UserInfo =
  ui_UserId :: nat
  Email :: string
  ProfileUrl :: string
  Username :: string
  UserCoefficients :: "(int \<times> 64 word) list"
  SubscribedTo :: "nat list"
  LikedVideos :: "nat list"

record UserServiceOptions =
  us_Seed :: int
  us_SleepNs :: int
  us_FailureRate :: int
  us_ResponseOmissionRate :: int
  us_MaxBatchSize :: int

definition DefaultUserServiceOptions :: UserServiceOptions where
  "DefaultUserServiceOptions =
     \<lparr>us_Seed = 42, us_SleepNs = 0, us_FailureRate = 0, us_ResponseOmissionRate = 0, us_MaxBatchSize = 50\<rparr>"

definition USER_ID_OFFSET :: nat where
  "USER_ID_OFFSET = 200000"

definition VIDEO_ID_OFFSET :: nat where
  "VIDEO_ID_OFFSET = 1000"

text \<open>A loop of the source that runs \<open>n\<close> times.\<close>

fun repeatM :: "nat \<Rightarrow> ('a \<Rightarrow> ('r, 'a) state) \<Rightarrow> 'a \<Rightarrow> ('r, 'a) state" where
  "repeatM 0 f a = State_Monad.return a"
| "repeatM (Suc n) f a = State_Monad.bind (f a) (repeatM n f)"

text \<open>\<open>Coeffs[int32(rand.Intn(20))] = uint64(rand.Intn(500))\<close>, evaluated from left to right.\<close>

definition addCoeff :: "(nat \<Rightarrow> ('r, nat) state) \<Rightarrow> (int \<times> 64 word) list \<Rightarrow> ('r, (int \<times> 64 word) list) state" where
  "addCoeff intn cs = do {
     k \<leftarrow> intn 20;
     v \<leftarrow> intn 500;
     State_Monad.return (AList.update (int k) (of_nat v) cs)
   }"

definition addSubscription :: "(nat \<Rightarrow> ('r, nat) state) \<Rightarrow> nat \<Rightarrow> nat \<Rightarrow> nat list \<Rightarrow> ('r, nat list) state" where
  "addSubscription intn userId maxUsers subs = do {
     n \<leftarrow> intn maxUsers;
     State_Monad.return (let subscribed = n + USER_ID_OFFSET in if subscribed \<noteq> userId then subs @ [subscribed] else subs)
   }"

definition addLike :: "(nat \<Rightarrow> ('r, nat) state) \<Rightarrow> nat \<Rightarrow> nat list \<Rightarrow> ('r, nat list) state" where
  "addLike intn maxVideos likes = do {
     n \<leftarrow> intn maxVideos;
     State_Monad.return (likes @ [n + VIDEO_ID_OFFSET])
   }"

definition makeRandomUser ::
    "(nat \<Rightarrow> ('r, nat) state) \<Rightarrow> (nat \<Rightarrow> string) \<Rightarrow> (nat \<Rightarrow> string) \<Rightarrow> nat \<Rightarrow> nat \<Rightarrow> nat \<Rightarrow> ('r, UserInfo) state" where
  "makeRandomUser intn email username userId maxUsers maxVideos = do {
     c \<leftarrow> intn 10;
     coeffs \<leftarrow> repeatM (c + 10) (addCoeff intn) [];
     s \<leftarrow> intn 50;
     subs \<leftarrow> repeatM (s + 10) (addSubscription intn userId maxUsers) [];
     l \<leftarrow> intn 20;
     likes \<leftarrow> repeatM (l + 5) (addLike intn maxVideos) [];
     State_Monad.return \<lparr>ui_UserId = userId, Email = email userId,
       ProfileUrl = ''https://user-service.localhost/profile/'' @ show_nat userId, Username = username userId,
       UserCoefficients = coeffs, SubscribedTo = subs, LikedVideos = likes\<rparr>
   }"

fun addUsers ::
    "(nat \<Rightarrow> ('r, nat) state) \<Rightarrow> (nat \<Rightarrow> string) \<Rightarrow> (nat \<Rightarrow> string) \<Rightarrow> nat \<Rightarrow> nat \<Rightarrow> nat list \<Rightarrow>
     (nat \<rightharpoonup> UserInfo) \<Rightarrow> ('r, nat \<rightharpoonup> UserInfo) state" where
  "addUsers intn email username userCount videoCount [] users = State_Monad.return users"
| "addUsers intn email username userCount videoCount (userId # ids) users = do {
     u \<leftarrow> makeRandomUser intn email username userId userCount videoCount;
     addUsers intn email username userCount videoCount ids (users(userId \<mapsto> u))
   }"

definition makeRandomUsers ::
    "(nat \<Rightarrow> ('r, nat) state) \<Rightarrow> (nat \<Rightarrow> string) \<Rightarrow> (nat \<Rightarrow> string) \<Rightarrow> ('r, nat \<rightharpoonup> UserInfo) state" where
  "makeRandomUsers intn email username = do {
     v \<leftarrow> intn 500;
     u \<leftarrow> intn 5000;
     let userCount = u + 5000;
     addUsers intn email username userCount (v + 100) [USER_ID_OFFSET ..< USER_ID_OFFSET + userCount] Map.empty
   }"

text \<open>\<open>GetUser\<close> looks up all ids and fails on the first that is unknown.\<close>

fun lookupAll :: "(nat \<rightharpoonup> 'v) \<Rightarrow> nat list \<Rightarrow> code + 'v list" where
  "lookupAll db [] = Inr []"
| "lookupAll db (i # ids) =
     (case db i of
        None \<Rightarrow> Inl NotFound
      | Some info \<Rightarrow> (case lookupAll db ids of Inl e \<Rightarrow> Inl e | Inr infos \<Rightarrow> Inr (info # infos)))"

record UserServiceServer =
  us_options :: UserServiceOptions
  us_fi :: InjectionConfig
  us_users :: "nat \<rightharpoonup> UserInfo"

definition MakeUserServiceServer ::
    "(int \<Rightarrow> 'r) \<Rightarrow> (nat \<Rightarrow> ('r, nat) state) \<Rightarrow> (nat \<Rightarrow> string) \<Rightarrow> (nat \<Rightarrow> string) \<Rightarrow> UserServiceOptions \<Rightarrow> UserServiceServer" where
  "MakeUserServiceServer seed intn email username options =
     \<lparr>us_options = options,
      us_fi = SetInjectionConfig (us_SleepNs options) (us_FailureRate options) (us_ResponseOmissionRate options),
      us_users = fst (run_state (makeRandomUsers intn email username) (seed (us_Seed options)))\<rparr>"

definition GetUser :: "nat \<Rightarrow> nat \<Rightarrow> UserServiceServer \<Rightarrow> nat list \<Rightarrow> (code + UserInfo list) go" where
  "GetUser rnd1 rnd2 server userIds =
     go_bind (MaybeInject rnd1 rnd2 (us_fi server)) (\<lambda>shouldError.
     Inr (if shouldError then Inl Internal
          else if length userIds = 0 then Inl InvalidArgument
          else if int (length userIds) > us_MaxBatchSize (us_options server) then Inl InvalidArgument
          else lookupAll (us_users server) userIds))"

definition setUserInjectionConfig :: "InjectionConfig \<Rightarrow> UserServiceServer \<Rightarrow> UserServiceServer" where
  "setUserInjectionConfig config server = server\<lparr>us_fi := config\<rparr>"

section \<open>The video service\<close>

record VideoInfo =
  vi_VideoId :: nat
  Title :: string
  Url :: string
  Author :: string
  VideoCoefficients :: "(int \<times> 64 word) list"

record VideoServiceOptions =
  vs_Seed :: int
  TtlSeconds :: int
  vs_SleepNs :: int
  vs_FailureRate :: int
  vs_ResponseOmissionRate :: int
  vs_MaxBatchSize :: int

definition DefaultVideoServiceOptions :: VideoServiceOptions where
  "DefaultVideoServiceOptions =
     \<lparr>vs_Seed = 42, TtlSeconds = 60, vs_SleepNs = 0, vs_FailureRate = 0, vs_ResponseOmissionRate = 0, vs_MaxBatchSize = 50\<rparr>"

text \<open>What \<open>gofakeit\<close> returns for the video with a given id.\<close>

record faker =
  AdjectiveDescriptive :: "nat \<Rightarrow> string"
  Vegetable :: "nat \<Rightarrow> string"
  Animal :: "nat \<Rightarrow> string"
  NounUncountable :: "nat \<Rightarrow> string"
  AppName :: "nat \<Rightarrow> string"
  HackerVerb :: "nat \<Rightarrow> string"
  AdverbPlace :: "nat \<Rightarrow> string"
  FakeName :: "nat \<Rightarrow> string"

definition videoTitle :: "faker \<Rightarrow> nat \<Rightarrow> nat \<Rightarrow> string" where
  "videoTitle fk titleCase i =
     (if titleCase = 0 then AdjectiveDescriptive fk i @ '' '' @ Vegetable fk i
      else if titleCase = 1 then
        ''The '' @ AdjectiveDescriptive fk i @ '' '' @ Animal fk i @ [CHR 0x27, CHR ''s'', CHR '' ''] @ NounUncountable fk i
      else if titleCase = 2 then AppName fk i @ '': '' @ HackerVerb fk i
      else AdjectiveDescriptive fk i @ '' '' @ AdverbPlace fk i)"

definition makeRandomVideo :: "(nat \<Rightarrow> ('r, nat) state) \<Rightarrow> faker \<Rightarrow> nat \<Rightarrow> ('r, VideoInfo) state" where
  "makeRandomVideo intn fk videoId = do {
     titleCase \<leftarrow> intn 4;
     c \<leftarrow> intn 10;
     coeffs \<leftarrow> repeatM (c + 10) (addCoeff intn) [];
     State_Monad.return \<lparr>vi_VideoId = videoId, Title = videoTitle fk titleCase videoId,
       Url = ''https://video-data.localhost/blob/'' @ show_nat videoId, Author = FakeName fk videoId, VideoCoefficients = coeffs\<rparr>
   }"

fun dedupLoop :: "nat list \<Rightarrow> nat list \<Rightarrow> nat list \<Rightarrow> nat list" where
  "dedupLoop seen deduped [] = deduped"
| "dedupLoop seen deduped (i # ids) =
     (if i \<in> set seen then dedupLoop seen deduped ids else dedupLoop (i # seen) (deduped @ [i]) ids)"

definition deduplicateIds :: "nat list \<Rightarrow> nat list" where
  "deduplicateIds ids = dedupLoop [] [] ids"

fun addVideos ::
    "(nat \<Rightarrow> ('r, nat) state) \<Rightarrow> faker \<Rightarrow> nat list \<Rightarrow> (nat \<rightharpoonup> VideoInfo) \<Rightarrow> ('r, nat \<rightharpoonup> VideoInfo) state" where
  "addVideos intn fk [] videos = State_Monad.return videos"
| "addVideos intn fk (videoId # ids) videos = do {
     v \<leftarrow> makeRandomVideo intn fk videoId;
     addVideos intn fk ids (videos(videoId \<mapsto> v))
   }"

definition makeRandomVideos :: "(nat \<Rightarrow> ('r, nat) state) \<Rightarrow> faker \<Rightarrow> ('r, (nat \<rightharpoonup> VideoInfo) \<times> nat list) state" where
  "makeRandomVideos intn fk = do {
     v \<leftarrow> intn 500;
     let videoCount = v + 100;
     videos \<leftarrow> addVideos intn fk [VIDEO_ID_OFFSET ..< VIDEO_ID_OFFSET + videoCount] Map.empty;
     t \<leftarrow> intn 10;
     topVideos \<leftarrow> repeatM (t + 10) (addLike intn videoCount) [];
     State_Monad.return (videos, deduplicateIds topVideos)
   }"

record VideoServiceServer =
  vs_options :: VideoServiceOptions
  vs_fi :: InjectionConfig
  vs_videos :: "nat \<rightharpoonup> VideoInfo"
  topVideos :: "nat list"

definition MakeVideoServiceServer ::
    "(int \<Rightarrow> 'r) \<Rightarrow> (nat \<Rightarrow> ('r, nat) state) \<Rightarrow> faker \<Rightarrow> VideoServiceOptions \<Rightarrow> VideoServiceServer" where
  "MakeVideoServiceServer seed intn fk options =
     (let (videos, top) = fst (run_state (makeRandomVideos intn fk) (seed (vs_Seed options))) in
      \<lparr>vs_options = options,
       vs_fi = SetInjectionConfig (vs_SleepNs options) (vs_FailureRate options) (vs_ResponseOmissionRate options),
       vs_videos = videos, topVideos = top\<rparr>)"

definition GetVideo :: "nat \<Rightarrow> nat \<Rightarrow> VideoServiceServer \<Rightarrow> nat list \<Rightarrow> (code + VideoInfo list) go" where
  "GetVideo rnd1 rnd2 server videoIds =
     go_bind (MaybeInject rnd1 rnd2 (vs_fi server)) (\<lambda>shouldError.
     Inr (if shouldError then Inl Internal
          else if length videoIds = 0 then Inl InvalidArgument
          else if int (length videoIds) > vs_MaxBatchSize (vs_options server) then Inl InvalidArgument
          else if length (deduplicateIds videoIds) \<noteq> length videoIds then Inl InvalidArgument
          else lookupAll (vs_videos server) videoIds))"

record GetTrendingVideosResponse =
  gt_Videos :: "nat list"
  ExpirationTimeS :: int

text \<open>\<open>unixNow\<close> is \<open>time.Now().Unix()\<close>, in seconds.\<close>

definition GetTrendingVideos :: "nat \<Rightarrow> nat \<Rightarrow> int \<Rightarrow> VideoServiceServer \<Rightarrow> (code + GetTrendingVideosResponse) go" where
  "GetTrendingVideos rnd1 rnd2 unixNow server =
     go_bind (MaybeInject rnd1 rnd2 (vs_fi server)) (\<lambda>shouldError.
     Inr (if shouldError then Inl Internal
          else Inr \<lparr>gt_Videos = topVideos server, ExpirationTimeS = unixNow + TtlSeconds (vs_options server)\<rparr>))"

definition setVideoInjectionConfig :: "InjectionConfig \<Rightarrow> VideoServiceServer \<Rightarrow> VideoServiceServer" where
  "setVideoInjectionConfig config server = server\<lparr>vs_fi := config\<rparr>"

section \<open>What the services answer\<close>

lemma no_injection: "FailureRate config = 0 \<Longrightarrow> ResponseOmissionRate config = 0 \<Longrightarrow> MaybeInject r1 r2 config = Inr False"
  by (simp add: MaybeInject_def oneIn_def)

lemma lookupAll_Inr: "set ids \<subseteq> dom db \<Longrightarrow> lookupAll db ids = Inr (map (the \<circ> db) ids)"
  by (induction ids) (auto split: option.split)

lemma lookupAll_iff: "(\<exists>vs. lookupAll db ids = Inr vs) \<longleftrightarrow> set ids \<subseteq> dom db"
  by (induction ids) (auto split: option.splits sum.splits)

lemma lookupAll_NotFound: "\<not> set ids \<subseteq> dom db \<Longrightarrow> lookupAll db ids = Inl NotFound"
proof (induction ids)
  case (Cons i ids)
  show ?case
  proof (cases "db i")
    case (Some v)
    with Cons have "lookupAll db ids = Inl NotFound" by auto
    with Some show ?thesis by simp
  qed simp
qed simp

lemma dedupLoop_props:
  "set seen = set deduped \<Longrightarrow> distinct deduped \<Longrightarrow>
     distinct (dedupLoop seen deduped ids) \<and> set (dedupLoop seen deduped ids) = set deduped \<union> set ids \<and>
     length (dedupLoop seen deduped ids) \<le> length deduped + length ids"
  by (induction seen deduped ids rule: dedupLoop.induct) auto

lemma dedupLoop_distinct:
  "set seen = set deduped \<Longrightarrow> distinct (deduped @ ids) \<Longrightarrow> dedupLoop seen deduped ids = deduped @ ids"
  by (induction seen deduped ids rule: dedupLoop.induct) auto

lemma dedup [simp]: "distinct (deduplicateIds ids)" "set (deduplicateIds ids) = set ids"
  using dedupLoop_props [of "[]" "[]" ids] by (simp_all add: deduplicateIds_def)

lemma dedup_length: "length (deduplicateIds ids) = length ids \<longleftrightarrow> distinct ids"
proof
  assume "length (deduplicateIds ids) = length ids"
  then have "card (set ids) = length ids" using distinct_card [of "deduplicateIds ids"] by simp
  then show "distinct ids" by (rule card_distinct)
qed (simp add: deduplicateIds_def dedupLoop_distinct)

lemma GetUser_ok:
  assumes "FailureRate (us_fi server) = 0" "ResponseOmissionRate (us_fi server) = 0"
    "ids \<noteq> []" "int (length ids) \<le> us_MaxBatchSize (us_options server)" "set ids \<subseteq> dom (us_users server)"
  shows "GetUser r1 r2 server ids = Inr (Inr (map (the \<circ> us_users server) ids))"
  using assms by (simp add: GetUser_def no_injection lookupAll_Inr)

lemma GetVideo_ok:
  assumes "FailureRate (vs_fi server) = 0" "ResponseOmissionRate (vs_fi server) = 0" "distinct ids"
    "ids \<noteq> []" "int (length ids) \<le> vs_MaxBatchSize (vs_options server)" "set ids \<subseteq> dom (vs_videos server)"
  shows "GetVideo r1 r2 server ids = Inr (Inr (map (the \<circ> vs_videos server) ids))"
  using assms by (simp add: GetVideo_def no_injection lookupAll_Inr dedup_length)

text \<open>The answers of the video service. Without failures injected \<open>GetVideo\<close> succeeds exactly on batches that are not empty, not larger than the
  limit, without duplicates, and name only known videos; it then returns the videos in the order of the request. A batch that breaks one of the first
  three rules is an invalid argument, one that breaks only the last is not found. With a failure rate of 1 every call is an
  internal error, with an omission rate of 1 it never answers.\<close>

theorem GetVideo_answers:
  "(FailureRate (vs_fi server) = 0 \<and> ResponseOmissionRate (vs_fi server) = 0 \<longrightarrow>
     GetVideo r1 r2 server ids = Inr
       (if ids = [] \<or> vs_MaxBatchSize (vs_options server) < int (length ids) \<or> \<not> distinct ids then Inl InvalidArgument
        else if \<not> set ids \<subseteq> dom (vs_videos server) then Inl NotFound
        else Inr (map (the \<circ> vs_videos server) ids))) \<and>
   (FailureRate (vs_fi server) = 1 \<and> ResponseOmissionRate (vs_fi server) = 0 \<longrightarrow> GetVideo r1 r2 server ids = Inr (Inl Internal)) \<and>
   (0 \<le> FailureRate (vs_fi server) \<and> ResponseOmissionRate (vs_fi server) = 1 \<longrightarrow> GetVideo r1 r2 server ids = Inl Blocks)"
  by (auto simp: GetVideo_def no_injection lookupAll_Inr lookupAll_NotFound dedup_length MaybeInject_def oneIn_def)

section \<open>The data the services are started with\<close>

text \<open>What holds of the result of a random computation, whatever the state of the random source.\<close>

definition yields :: "('a \<Rightarrow> bool) \<Rightarrow> ('r, 'a) state \<Rightarrow> bool" where
  "yields P m \<longleftrightarrow> (\<forall>r. P (fst (run_state m r)))"

lemma run_bind: "run_state (State_Monad.bind m f) r = run_state (f (fst (run_state m r))) (snd (run_state m r))"
  by (simp add: State_Monad.bind_def split: prod.split)

lemma yields_return [simp]: "yields P (State_Monad.return a) \<longleftrightarrow> P a"
  by (simp add: yields_def State_Monad.return_def)

lemma yields_bind:
  assumes "yields Q m" "\<And>a. Q a \<Longrightarrow> yields P (f a)"
  shows "yields P (State_Monad.bind m f)"
  unfolding yields_def run_bind
proof
  fix r
  from assms(1) have "Q (fst (run_state m r))" by (simp add: yields_def)
  from assms(2) [OF this] show "P (fst (run_state (f (fst (run_state m r))) (snd (run_state m r))))" by (simp add: yields_def)
qed

lemma yields_True: "yields (\<lambda>_. True) m"
  by (simp add: yields_def)

lemma yields_mono: "yields P m \<Longrightarrow> (\<And>a. P a \<Longrightarrow> Q a) \<Longrightarrow> yields Q m"
  by (simp add: yields_def)

lemma yields_repeatM:
  assumes "\<And>i a. P i a \<Longrightarrow> yields (P (Suc i)) (f a)"
  shows "P i a \<Longrightarrow> yields (P (i + n)) (repeatM n f a)"
proof (induction n arbitrary: i a)
  case (Suc n)
  have "yields (P (Suc i + n)) (repeatM (Suc n) f a)"
    unfolding repeatM.simps by (rule yields_bind [OF assms [OF Suc.prems] Suc.IH])
  then show ?case by simp
qed simp

text \<open>The one thing the proofs use of \<open>rand.Intn\<close>.\<close>

definition intn_ok :: "(nat \<Rightarrow> ('r, nat) state) \<Rightarrow> bool" where
  "intn_ok intn \<longleftrightarrow> (\<forall>n. 0 < n \<longrightarrow> yields (\<lambda>k. k < n) (intn n))"

lemma intn_less: "intn_ok intn \<Longrightarrow> 0 < n \<Longrightarrow> yields (\<lambda>k. k < n) (intn n)"
  by (simp add: intn_ok_def)

lemma yields_likes:
  assumes "intn_ok intn" "0 < maxVideos"
  shows "yields (\<lambda>xs. length xs = n \<and> set xs \<subseteq> {VIDEO_ID_OFFSET ..< VIDEO_ID_OFFSET + maxVideos}) (repeatM n (addLike intn maxVideos) [])"
proof -
  have "yields (\<lambda>xs. length xs = Suc i \<and> set xs \<subseteq> {VIDEO_ID_OFFSET ..< VIDEO_ID_OFFSET + maxVideos}) (addLike intn maxVideos a)"
    if "length a = i \<and> set a \<subseteq> {VIDEO_ID_OFFSET ..< VIDEO_ID_OFFSET + maxVideos}" for i a
    unfolding addLike_def by (rule yields_bind [OF intn_less [OF assms]]) (use that in auto)
  from yields_repeatM [where P = "\<lambda>i xs. length xs = i \<and> set xs \<subseteq> {VIDEO_ID_OFFSET ..< VIDEO_ID_OFFSET + maxVideos}" and i = 0 and a = "[]", OF this]
  show ?thesis by simp
qed

lemma yields_subs:
  assumes "intn_ok intn" "0 < maxUsers"
  shows "yields (\<lambda>xs. length xs \<le> n \<and> set xs \<subseteq> {USER_ID_OFFSET ..< USER_ID_OFFSET + maxUsers} - {userId})
    (repeatM n (addSubscription intn userId maxUsers) [])"
proof -
  have "yields (\<lambda>xs. length xs \<le> Suc i \<and> set xs \<subseteq> {USER_ID_OFFSET ..< USER_ID_OFFSET + maxUsers} - {userId}) (addSubscription intn userId maxUsers a)"
    if "length a \<le> i \<and> set a \<subseteq> {USER_ID_OFFSET ..< USER_ID_OFFSET + maxUsers} - {userId}" for i a
    unfolding addSubscription_def by (rule yields_bind [OF intn_less [OF assms]]) (use that in \<open>auto simp: Let_def\<close>)
  from yields_repeatM [where P = "\<lambda>i xs. length xs \<le> i \<and> set xs \<subseteq> {USER_ID_OFFSET ..< USER_ID_OFFSET + maxUsers} - {userId}"
      and i = 0 and a = "[]", OF this]
  show ?thesis by simp
qed

definition user_ok :: "nat \<Rightarrow> nat \<Rightarrow> nat \<Rightarrow> UserInfo \<Rightarrow> bool" where
  "user_ok userCount videoCount i u \<longleftrightarrow> ui_UserId u = i \<and> length (SubscribedTo u) \<le> 59 \<and>
     set (SubscribedTo u) \<subseteq> {USER_ID_OFFSET ..< USER_ID_OFFSET + userCount} - {i} \<and>
     5 \<le> length (LikedVideos u) \<and> length (LikedVideos u) \<le> 24 \<and>
     set (LikedVideos u) \<subseteq> {VIDEO_ID_OFFSET ..< VIDEO_ID_OFFSET + videoCount}"

lemma yields_user:
  assumes "intn_ok intn" "0 < userCount" "0 < videoCount"
  shows "yields (user_ok userCount videoCount i) (makeRandomUser intn email username i userCount videoCount)"
proof -
  have less: "yields (\<lambda>k. k < 50) (intn 50)" "yields (\<lambda>k. k < 20) (intn 20)" by (simp_all add: intn_less [OF assms(1)])
  show ?thesis unfolding makeRandomUser_def
    by (rule yields_bind [OF yields_True], rule yields_bind [OF yields_True], rule yields_bind [OF less(1)],
        rule yields_bind [OF yields_subs [OF assms(1,2), where userId = i]], rule yields_bind [OF less(2)],
        rule yields_bind [OF yields_likes [OF assms(1,3)]])
      (auto simp: user_ok_def)
qed

lemma yields_addUsers:
  assumes "intn_ok intn" "0 < userCount" "0 < videoCount"
  shows "\<forall>i u. users i = Some u \<longrightarrow> user_ok userCount videoCount i u \<Longrightarrow>
    yields (\<lambda>db. dom db = dom users \<union> set ids \<and> (\<forall>i u. db i = Some u \<longrightarrow> user_ok userCount videoCount i u))
      (addUsers intn email username userCount videoCount ids users)"
proof (induction ids arbitrary: users)
  case (Cons i ids)
  show ?case
    by (simp, rule yields_bind [OF yields_user [OF assms]], rule yields_mono [OF Cons.IH]) (use Cons.prems in \<open>auto split: if_splits\<close>)
qed auto

lemma yields_addVideos: "yields (\<lambda>db. dom db = dom videos \<union> set ids) (addVideos intn fk ids videos)"
proof (induction ids arbitrary: videos)
  case (Cons i ids)
  show ?case
    by (simp, rule yields_bind [where Q = "\<lambda>_. True"], simp add: yields_def, rule yields_mono [OF Cons.IH]) auto
qed auto

lemma run_yields: "yields P m \<Longrightarrow> P (fst (run_state m r))"
  by (simp add: yields_def)

lemma users_data:
  fixes r :: 'r
  assumes "intn_ok intn"
  defines "v \<equiv> fst (run_state (intn 500) r) + 100"
  shows "\<exists>n. 5000 \<le> n \<and> n < 10000 \<and>
    dom (fst (run_state (makeRandomUsers intn email username) r)) = {USER_ID_OFFSET ..< USER_ID_OFFSET + n} \<and>
    (\<forall>i u. fst (run_state (makeRandomUsers intn email username) r) i = Some u \<longrightarrow> user_ok n v i u)"
proof -
  have less: "yields (\<lambda>k. k < 5000) (intn 5000)" by (simp add: intn_less [OF assms(1)])
  have "yields (\<lambda>db. \<exists>n. 5000 \<le> n \<and> n < 10000 \<and> dom db = {USER_ID_OFFSET ..< USER_ID_OFFSET + n} \<and>
      (\<forall>i u. db i = Some u \<longrightarrow> user_ok n (k + 100) i u))
    (State_Monad.bind (intn 5000) (\<lambda>u. let userCount = u + 5000 in
      addUsers intn email username userCount (k + 100) [USER_ID_OFFSET ..< USER_ID_OFFSET + userCount] Map.empty))" for k
  proof (rule yields_bind [OF less])
    fix u :: nat
    assume u: "u < 5000"
    show "yields (\<lambda>db. \<exists>n. 5000 \<le> n \<and> n < 10000 \<and> dom db = {USER_ID_OFFSET ..< USER_ID_OFFSET + n} \<and>
        (\<forall>i u. db i = Some u \<longrightarrow> user_ok n (k + 100) i u)) (let userCount = u + 5000 in
      addUsers intn email username userCount (k + 100) [USER_ID_OFFSET ..< USER_ID_OFFSET + userCount] Map.empty)"
      unfolding Let_def
      by (rule yields_mono [OF yields_addUsers [OF assms(1), of "u + 5000" "k + 100"]]) (use u in \<open>auto intro!: exI [of _ "u + 5000"]\<close>)
  qed
  from run_yields [OF this [of "fst (run_state (intn 500) r)"], of "snd (run_state (intn 500) r)"] show ?thesis
    unfolding makeRandomUsers_def run_bind [of "intn 500"] v_def .
qed

lemma dedup_Nil: "deduplicateIds ids = [] \<longleftrightarrow> ids = []"
  using dedup(2) [of ids] by (cases ids) (auto simp del: dedup(2))

lemma videos_data:
  fixes r :: 'r
  assumes "intn_ok intn"
  defines "v \<equiv> fst (run_state (intn 500) r) + 100"
  shows "case fst (run_state (makeRandomVideos intn fk) r) of (videos, tops) \<Rightarrow>
    dom videos = {VIDEO_ID_OFFSET ..< VIDEO_ID_OFFSET + v} \<and> set tops \<subseteq> dom videos \<and> distinct tops \<and> tops \<noteq> []"
proof -
  have "yields (\<lambda>(videos, tops). dom videos = {VIDEO_ID_OFFSET ..< VIDEO_ID_OFFSET + (k + 100)} \<and> set tops \<subseteq> dom videos \<and> distinct tops \<and> tops \<noteq> [])
    (let videoCount = k + 100 in
      State_Monad.bind (addVideos intn fk [VIDEO_ID_OFFSET ..< VIDEO_ID_OFFSET + videoCount] Map.empty) (\<lambda>videos.
      State_Monad.bind (intn 10) (\<lambda>t.
      State_Monad.bind (repeatM (t + 10) (addLike intn videoCount) []) (\<lambda>tops.
      State_Monad.return (videos, deduplicateIds tops)))))" for k
    unfolding Let_def
    by (rule yields_bind [OF yields_addVideos], rule yields_bind [OF yields_True], rule yields_bind [OF yields_likes [OF assms(1)]])
      (auto simp: dedup_Nil)
  from run_yields [OF this [of "fst (run_state (intn 500) r)"], of "snd (run_state (intn 500) r)"] show ?thesis
    unfolding makeRandomVideos_def run_bind [of "intn 500"] v_def by simp
qed

lemma same_seed:
  fixes seed :: "int \<Rightarrow> 'r" and email username :: "nat \<Rightarrow> string" and fk :: faker
  assumes "intn_ok intn" "us_Seed uo = vs_Seed vo"
  defines "us \<equiv> MakeUserServiceServer seed intn email username uo" and "vs \<equiv> MakeVideoServiceServer seed intn fk vo"
  shows "(\<forall>i u. us_users us i = Some u \<longrightarrow> ui_UserId u = i \<and> set (SubscribedTo u) \<subseteq> dom (us_users us) - {i} \<and>
      set (LikedVideos u) \<subseteq> dom (vs_videos vs) \<and> length (LikedVideos u) \<in> {5..24}) \<and>
    set (topVideos vs) \<subseteq> dom (vs_videos vs) \<and> distinct (topVideos vs) \<and> topVideos vs \<noteq> []"
proof -
  let ?r = "seed (vs_Seed vo)"
  from users_data [where r = ?r and email = email and username = username, OF assms(1)] obtain n where u:
    "dom (us_users us) = {USER_ID_OFFSET ..< USER_ID_OFFSET + n}"
    "\<And>i u. us_users us i = Some u \<Longrightarrow> user_ok n (fst (run_state (intn 500) ?r) + 100) i u"
    unfolding us_def MakeUserServiceServer_def assms(2) by auto
  from videos_data [where r = ?r and fk = fk, OF assms(1)] have v:
    "dom (vs_videos vs) = {VIDEO_ID_OFFSET ..< VIDEO_ID_OFFSET + (fst (run_state (intn 500) ?r) + 100)}"
    "set (topVideos vs) \<subseteq> dom (vs_videos vs)" "distinct (topVideos vs)" "topVideos vs \<noteq> []"
    by (auto simp: vs_def MakeVideoServiceServer_def split: prod.splits)
  show ?thesis using v u(2) unfolding user_ok_def u(1) by auto
qed

text \<open>C33: user and video service started with the same seed hold data that fit together, whatever the seed: every user subscribes only to other
  users that exist, likes only videos that exist, between 5 and 24 of them, and the trending videos exist and are different. Both
  services draw the number of videos first, so they agree on it.\<close>

theorem same_seed_data:
  fixes seed :: "int \<Rightarrow> 'r" and email username :: "nat \<Rightarrow> string" and fk :: faker
  assumes "intn_ok intn" "us_Seed uo = vs_Seed vo"
  defines "us \<equiv> MakeUserServiceServer seed intn email username uo" and "vs \<equiv> MakeVideoServiceServer seed intn fk vo"
  shows "(\<forall>i u. us_users us i = Some u \<longrightarrow> ui_UserId u = i \<and> set (SubscribedTo u) \<subseteq> dom (us_users us) - {i} \<and>
      set (LikedVideos u) \<subseteq> dom (vs_videos vs) \<and> length (LikedVideos u) \<in> {5..24}) \<and>
    set (topVideos vs) \<subseteq> dom (vs_videos vs) \<and> distinct (topVideos vs) \<and> topVideos vs \<noteq> []"
  unfolding us_def vs_def by (rule same_seed [OF assms(1,2)])

text \<open>A random source that counts up.\<close>

definition countUp :: "nat \<Rightarrow> (nat, nat) state" where
  "countUp n = State (\<lambda>r. (r mod n, Suc r))"

lemma countUp_ok: "intn_ok countUp"
  by (simp add: intn_ok_def yields_def countUp_def)

definition plainFaker :: faker where
  "plainFaker = \<lparr>AdjectiveDescriptive = \<lambda>_. ''a'', Vegetable = \<lambda>_. ''b'', Animal = \<lambda>_. ''c'', NounUncountable = \<lambda>_. ''d'',
     AppName = \<lambda>_. ''e'', HackerVerb = \<lambda>_. ''f'', AdverbPlace = \<lambda>_. ''g'', FakeName = \<lambda>_. ''h''\<rparr>"

theorem same_seed_data_witness:
  "set (topVideos (MakeVideoServiceServer nat countUp plainFaker DefaultVideoServiceOptions))
     \<subseteq> dom (vs_videos (MakeVideoServiceServer nat countUp plainFaker DefaultVideoServiceOptions))"
  using same_seed_data [OF countUp_ok, of DefaultUserServiceOptions DefaultVideoServiceOptions nat show_nat show_nat plainFaker]
  by (simp add: DefaultUserServiceOptions_def DefaultVideoServiceOptions_def)

definition sample_video_service :: VideoServiceServer where
  "sample_video_service = \<lparr>vs_options = DefaultVideoServiceOptions, vs_fi = MakeFailureInjector, vs_videos = Map.empty, topVideos = []\<rparr>"

theorem GetVideo_answers_witness:
  "GetVideo 3 4 sample_video_service [7, 7] = Inr (Inl InvalidArgument) \<and> GetVideo 3 4 sample_video_service [7] = Inr (Inl NotFound)"
  using GetVideo_answers [of sample_video_service 3 4 "[7, 7]"] GetVideo_answers [of sample_video_service 3 4 "[7]"]
  by (simp add: sample_video_service_def MakeFailureInjector_def DefaultVideoServiceOptions_def)

end
