(* ===== verification/Lab1_Bcrypt.thy ===== *)
theory Lab1_Bcrypt
  imports Lab_Prelude
begin

text \<open>
  \<open>lab1/det_bcrypt/det_bcrypt.go\<close>: bcrypt with a fixed salt. Bytes are characters. The Blowfish cipher is a library and a parameter: a record of
  its three operations. \<open>b64Encode\<close> and \<open>b64Decode\<close> are \<open>Encode\<close> and \<open>Decode\<close> of \<open>encoding/base64\<close> with
  the alphabet of the package and padding.
\<close>

section \<open>Base 64\<close>

definition alphabet :: string where
  "alphabet = ''./ABCDEFGHIJKLMNOPQRSTUVWXYZabcdefghijklmnopqrstuvwxyz0123456789''"

definition b64Char :: "nat \<Rightarrow> char" where
  "b64Char n = alphabet ! n"

fun indexOf :: "char \<Rightarrow> string \<Rightarrow> nat option" where
  "indexOf ch [] = None"
| "indexOf ch (x # xs) = (if x = ch then Some 0 else map_option Suc (indexOf ch xs))"

definition b64Val :: "char \<Rightarrow> nat option" where
  "b64Val ch = indexOf ch alphabet"

abbreviation byte :: "char \<Rightarrow> nat" where
  "byte \<equiv> of_char"

fun b64Encode :: "string \<Rightarrow> string" where
  "b64Encode [] = []"
| "b64Encode [a] = [b64Char (byte a div 4), b64Char (byte a mod 4 * 16), CHR ''='', CHR ''='']"
| "b64Encode [a, b] =
     [b64Char (byte a div 4), b64Char (byte a mod 4 * 16 + byte b div 16), b64Char (byte b mod 16 * 4), CHR ''='']"
| "b64Encode (a # b # c # s) =
     b64Char (byte a div 4) # b64Char (byte a mod 4 * 16 + byte b div 16) # b64Char (byte b mod 16 * 4 + byte c div 64) #
     b64Char (byte c mod 64) # b64Encode s"

text \<open>The decoder skips line ends, takes four characters at a time, and accepts padding only at the end.\<close>

fun b64Quads :: "string \<Rightarrow> string option" where
  "b64Quads [] = Some []"
| "b64Quads (p # q # r # s # rest) =
     (case (b64Val p, b64Val q) of
        (Some u, Some v) \<Rightarrow>
          (if r = CHR ''='' then
             (if s = CHR ''='' \<and> rest = [] then Some [char_of (u * 4 + v div 16)] else None)
           else case b64Val r of
             None \<Rightarrow> None
           | Some w \<Rightarrow>
               (if s = CHR ''='' then
                  (if rest = [] then Some [char_of (u * 4 + v div 16), char_of (v mod 16 * 16 + w div 4)] else None)
                else case b64Val s of
                  None \<Rightarrow> None
                | Some x \<Rightarrow>
                    map_option (\<lambda>t. char_of (u * 4 + v div 16) # char_of (v mod 16 * 16 + w div 4) # char_of (w mod 4 * 64 + x) # t)
                      (b64Quads rest)))
      | _ \<Rightarrow> None)"
| "b64Quads _ = None"

definition b64Decode :: "string \<Rightarrow> string option" where
  "b64Decode s = b64Quads (filter (\<lambda>ch. ch \<noteq> CHR 0x0A \<and> ch \<noteq> CHR 0x0D) s)"

text \<open>The loop \<open>for dst[n-1] == '='\<close>.\<close>

fun stripPad :: "string \<Rightarrow> nat \<Rightarrow> string go" where
  "stripPad dst n =
     go_bind (slice_index dst (int n - 1)) (\<lambda>ch.
       if ch = CHR ''='' \<and> 0 < n then stripPad dst (n - 1) else slice_to dst (int n))"

declare stripPad.simps [simp del]

definition base64Encode :: "string \<Rightarrow> string go" where
  "base64Encode src = (let dst = b64Encode src in stripPad dst (length dst))"

definition base64Decode :: "string \<Rightarrow> string option" where
  "base64Decode src = b64Decode (src @ replicate (4 - length src mod 4) (CHR ''=''))"

lemma length_alphabet: "length alphabet = 64"
  by (simp add: alphabet_def)

lemma indexOf_nth: "distinct xs \<Longrightarrow> n < length xs \<Longrightarrow> indexOf (xs ! n) xs = Some n"
  by (induction xs arbitrary: n) (auto simp: nth_Cons split: nat.split)

lemma distinct_alphabet: "distinct alphabet"
  by (simp add: alphabet_def)

lemma b64Val_Char [simp]: "n < 64 \<Longrightarrow> b64Val (b64Char n) = Some n"
  by (simp add: b64Val_def b64Char_def indexOf_nth distinct_alphabet length_alphabet)

lemma b64Char_in: "n < 64 \<Longrightarrow> b64Char n \<in> set alphabet"
  by (simp add: b64Char_def length_alphabet)

lemma alphabet_plain: "CHR ''='' \<notin> set alphabet" "CHR 0x0A \<notin> set alphabet" "CHR 0x0D \<notin> set alphabet"
  by (simp_all add: alphabet_def)

lemma b64Char_plain [simp]:
  assumes "n < 64"
  shows "b64Char n \<noteq> CHR ''=''" "b64Char n \<noteq> CHR 0x0A" "b64Char n \<noteq> CHR 0x0D"
  using b64Char_in [OF assms] alphabet_plain by auto

lemma byte_less [simp]: "byte ch < 256"
  by (metis of_char_mod_256 mod_less_divisor zero_less_numeral)

text \<open>The four characters of three bytes.\<close>

lemma sextets:
  fixes a b c :: nat
  assumes "a < 256" "b < 256" "c < 256"
  shows "a div 4 < 64" "a mod 4 * 16 < 64" "a mod 4 * 16 + b div 16 < 64" "b mod 16 * 4 < 64" "b mod 16 * 4 + c div 64 < 64" "c mod 64 < 64"
    "a div 4 * 4 + a mod 4 * 16 div 16 = a" "a div 4 * 4 + (a mod 4 * 16 + b div 16) div 16 = a"
    "(a mod 4 * 16 + b div 16) mod 16 * 16 + b mod 16 * 4 div 4 = b"
    "(a mod 4 * 16 + b div 16) mod 16 * 16 + (b mod 16 * 4 + c div 64) div 4 = b"
    "(b mod 16 * 4 + c div 64) mod 4 * 64 + c mod 64 = c"
proof -
  define a1 a2 b1 b2 c1 c2 where d: "a1 = a div 4" "a2 = a mod 4" "b1 = b div 16" "b2 = b mod 16" "c1 = c div 64" "c2 = c mod 64"
  have l: "a1 < 64" "a2 < 4" "b1 < 16" "b2 < 16" "c1 < 4" "c2 < 64" "a = a1 * 4 + a2" "b = b1 * 16 + b2" "c = c1 * 64 + c2"
    using assms by (auto simp: d less_mult_imp_div_less)
  have q: "(a2 * 16 + b1) div 16 = a2" "(a2 * 16 + b1) mod 16 = b1" "(b2 * 4 + c1) div 4 = b2" "(b2 * 4 + c1) mod 4 = c1"
    using l(3,5) by simp_all
  show "a div 4 < 64" "a mod 4 * 16 < 64" "a mod 4 * 16 + b div 16 < 64" "b mod 16 * 4 < 64" "b mod 16 * 4 + c div 64 < 64" "c mod 64 < 64"
    "a div 4 * 4 + a mod 4 * 16 div 16 = a" "a div 4 * 4 + (a mod 4 * 16 + b div 16) div 16 = a"
    "(a mod 4 * 16 + b div 16) mod 16 * 16 + b mod 16 * 4 div 4 = b"
    "(a mod 4 * 16 + b div 16) mod 16 * 16 + (b mod 16 * 4 + c div 64) div 4 = b"
    "(b mod 16 * 4 + c div 64) mod 4 * 64 + c mod 64 = c"
    unfolding d [symmetric] q using l by linarith+
qed

lemmas sextets_byte = sextets [OF byte_less byte_less byte_less]

lemma byte_small [simp]:
  "byte ch div 16 div 16 = 0" "byte ch div 16 mod 16 = byte ch div 16" "byte ch div 64 div 4 = 0" "byte ch div 64 mod 4 = byte ch div 64"
proof -
  have "byte ch div 16 < 16" "byte ch div 64 < 4" by (simp_all add: less_mult_imp_div_less)
  then show "byte ch div 16 div 16 = 0" "byte ch div 16 mod 16 = byte ch div 16" "byte ch div 64 div 4 = 0" "byte ch div 64 mod 4 = byte ch div 64"
    by simp_all
qed

lemma b64Quads_Encode: "b64Quads (b64Encode s) = Some s"
  by (induction s rule: b64Encode.induct) (simp_all add: sextets_byte)

lemma b64Quads_too_many: "length s mod 3 = 0 \<Longrightarrow> b64Quads (b64Encode s @ ''===='') = None"
proof (induction s rule: b64Encode.induct)
  case 1
  have "b64Val (CHR ''='') = None" by (simp add: b64Val_def alphabet_def)
  then show ?case by simp
next
  case (4 a b c s)
  then have "length s mod 3 = 0" by simp
  with 4 show ?case by (simp add: sextets_byte)
qed simp_all

lemma b64Encode_core:
  "s \<noteq> [] \<Longrightarrow> \<exists>e. b64Encode s = e @ replicate ((3 - length s mod 3) mod 3) (CHR ''='') \<and> e \<noteq> [] \<and> set e \<subseteq> set alphabet \<and>
     length e = length s + (length s + 2) div 3"
proof (induction s rule: b64Encode.induct)
  case (4 a b c s)
  show ?case
  proof (cases "s = []")
    case True
    then show ?thesis by (simp add: b64Char_in sextets_byte)
  next
    case False
    with 4 obtain e where e: "b64Encode s = e @ replicate ((3 - length s mod 3) mod 3) (CHR ''='')" "e \<noteq> []" "set e \<subseteq> set alphabet"
      "length e = length s + (length s + 2) div 3" by blast
    let ?q = "[b64Char (byte a div 4), b64Char (byte a mod 4 * 16 + byte b div 16), b64Char (byte b mod 16 * 4 + byte c div 64),
      b64Char (byte c mod 64)]"
    have "length (a # b # c # s) mod 3 = length s mod 3" by simp
    moreover have "length (?q @ e) = length (a # b # c # s) + (length (a # b # c # s) + 2) div 3"
      using e(4) by simp
    ultimately show ?thesis
      by (intro exI [of _ "?q @ e"] conjI) (use e in \<open>simp_all add: b64Char_in sextets_byte\<close>)
  qed
qed (simp_all add: b64Char_in sextets_byte numeral_2_eq_2)

lemma stripPad_core:
  assumes "e \<noteq> []" "last e \<noteq> CHR ''=''"
  shows "stripPad (e @ replicate k (CHR ''='')) (length e + k) = Inr e"
proof -
  have "stripPad (e @ replicate (j + k) (CHR ''='')) (length e + k) = Inr e" for j
  proof (induction k arbitrary: j)
    case 0
    have "slice_index (e @ replicate j (CHR ''='')) (int (length e) - 1) = Inr (last e)"
      using assms(1) by (cases e rule: rev_cases) (simp_all add: slice_index_def nth_append)
    then show ?case using assms by (subst stripPad.simps) (simp add: slice_to_def)
  next
    case (Suc k)
    have "slice_index (e @ replicate (j + Suc k) (CHR ''='')) (int (length e + Suc k) - 1) = Inr (CHR ''='')"
      by (simp add: slice_index_def nth_append nat_add_distrib del: replicate_Suc add_Suc_right)
    with Suc [of "Suc j"] show ?case by (subst stripPad.simps) simp
  qed
  from this [of 0] show ?thesis by simp
qed

lemma base64Encode_core:
  assumes "s \<noteq> []"
  obtains e where "base64Encode s = Inr e" "b64Encode s = e @ replicate ((3 - length s mod 3) mod 3) (CHR ''='')"
    "set e \<subseteq> set alphabet" "length e = length s + (length s + 2) div 3"
proof -
  obtain e where e: "b64Encode s = e @ replicate ((3 - length s mod 3) mod 3) (CHR ''='')" "e \<noteq> []" "set e \<subseteq> set alphabet"
      "length e = length s + (length s + 2) div 3" using b64Encode_core [OF assms] by blast
  have "last e \<noteq> CHR ''=''" using e(2,3) alphabet_plain(1) by (metis last_in_set subsetD)
  from stripPad_core [OF e(2) this] have "base64Encode s = Inr e" unfolding base64Encode_def Let_def e(1) by simp
  with e that show thesis by blast
qed

lemma filter_plain: "set e \<subseteq> set alphabet \<Longrightarrow> filter (\<lambda>ch. ch \<noteq> CHR 0x0A \<and> ch \<noteq> CHR 0x0D) (e @ replicate k (CHR ''='')) = e @ replicate k (CHR ''='')"
  using alphabet_plain(2,3) by (subst filter_id_conv) auto

lemma four_pads: "replicate 4 (CHR ''='') = ''====''"
  by (simp add: numeral_eq_Suc)

lemma encoded_length:
  fixes n :: nat
  shows "n mod 3 = 0 \<Longrightarrow> (n + (n + 2) div 3) mod 4 = 0"
    and "n mod 3 \<noteq> 0 \<Longrightarrow> 4 - (n + (n + 2) div 3) mod 4 = (3 - n mod 3) mod 3"
proof -
  obtain m r where n: "n = r + m * 3" "r < 3" by (metis mod_div_mult_eq mod_less_divisor zero_less_numeral)
  have "n + (n + 2) div 3 = m * 4 + (r + (r + 2) div 3)" "n mod 3 = r"
  proof -
    have "(n + 2) div 3 = ((r + 2) + m * 3) div 3" by (simp add: n)
    also have "\<dots> = m + (r + 2) div 3" by (rule div_mult_self1) simp
    finally show "n + (n + 2) div 3 = m * 4 + (r + (r + 2) div 3)" using n by simp
  qed (use n in simp)
  moreover have "r = 0 \<or> r = 1 \<or> r = 2" using n(2) by auto
  ultimately show "n mod 3 = 0 \<Longrightarrow> (n + (n + 2) div 3) mod 4 = 0"
    "n mod 3 \<noteq> 0 \<Longrightarrow> 4 - (n + (n + 2) div 3) mod 4 = (3 - n mod 3) mod 3" by auto
qed

lemma base64_decode_encode:
  assumes "base64Encode s = Inr e"
  shows "base64Decode e = (if length s mod 3 = 0 then None else Some s)"
proof -
  have "s \<noteq> []" using assms by (auto simp: base64Encode_def stripPad.simps slice_index_def)
  then have e: "b64Encode s = e @ replicate ((3 - length s mod 3) mod 3) (CHR ''='')"
      "set e \<subseteq> set alphabet" "length e = length s + (length s + 2) div 3" using assms base64Encode_core [of s] by auto
  have d: "base64Decode e = b64Quads (e @ replicate (4 - length e mod 4) (CHR ''=''))"
    unfolding base64Decode_def b64Decode_def filter_plain [OF e(2)] ..
  show ?thesis
  proof (cases "length s mod 3 = 0")
    case True
    then have "length e mod 4 = 0" unfolding e(3) by (rule encoded_length(1))
    then have "base64Decode e = b64Quads (e @ replicate 4 (CHR ''=''))" using d by simp
    also have "\<dots> = b64Quads (b64Encode s @ ''===='')"
    proof -
      have "b64Encode s = e" using True e(1) by simp
      then show ?thesis by (simp only: four_pads)
    qed
    also have "\<dots> = None" by (rule b64Quads_too_many [OF True])
    finally show ?thesis using True by simp
  next
    case False
    then have "4 - length e mod 4 = (3 - length s mod 3) mod 3" unfolding e(3) by (rule encoded_length(2))
    with d e(1) b64Quads_Encode [of s] have "base64Decode e = Some s" by metis
    with False show ?thesis by simp
  qed
qed

text \<open>The base 64 coding of the package is a round trip exactly when the length is not a multiple of three. \<open>base64Decode\<close> pads a text whose length is a
  multiple of four with four more characters, which the decoder rejects; the 16 bytes of the salt are not affected. The empty text makes
  \<open>base64Encode\<close> index before the start of its buffer.\<close>

theorem base64_roundtrip:
  "(s \<noteq> [] \<longrightarrow> (\<exists>e. base64Encode s = Inr e \<and> base64Decode e = (if length s mod 3 = 0 then None else Some s))) \<and>
   base64Encode [] = Inl IndexOutOfRange"
proof
  show "base64Encode [] = Inl IndexOutOfRange" by (simp add: base64Encode_def stripPad.simps slice_index_def)
  show "s \<noteq> [] \<longrightarrow> (\<exists>e. base64Encode s = Inr e \<and> base64Decode e = (if length s mod 3 = 0 then None else Some s))"
    using base64_decode_encode base64Encode_core [of s] by metis
qed

theorem base64_roundtrip_witness:
  "\<exists>e. base64Encode ''aaaaaaaaaaaaaaaa'' = Inr e \<and> base64Decode e = Some ''aaaaaaaaaaaaaaaa''"
  using base64_roundtrip [of "''aaaaaaaaaaaaaaaa''"] by simp

section \<open>Hashes\<close>

definition MinCost :: int where "MinCost = 1"
definition MaxCost :: int where "MaxCost = 31"
definition DefaultCost :: int where "DefaultCost = 10"

datatype bcrypt_error =
    ErrMismatchedHashAndPassword
  | ErrHashTooShort
  | HashVersionTooNewError char
  | InvalidHashPrefixError char
  | InvalidCostError int
  | AtoiError string
  | Base64Error
  | CipherError

record hashed =
  hash :: string
  salt :: string
  cost :: int
  major :: char
  minor :: char       \<comment> \<open>the zero byte if there is none\<close>

definition checkCost :: "int \<Rightarrow> bcrypt_error option" where
  "checkCost c = (if c < MinCost \<or> c > MaxCost then Some (InvalidCostError c) else None)"

text \<open>\<open>fmt.Sprintf("%0*d", width, n)\<close> for a number that is not negative.\<close>

definition zeroPad :: "nat \<Rightarrow> nat \<Rightarrow> string" where
  "zeroPad width n = (let s = show_nat n in replicate (width - length s) (CHR ''0'') @ s)"

text \<open>\<open>copy(arr[n:], xs)\<close>.\<close>

definition copyAt :: "nat \<Rightarrow> string \<Rightarrow> string \<Rightarrow> string" where
  "copyAt n xs arr = take n arr @ take (length arr - n) xs @ drop (n + length xs) arr"

definition Hash :: "hashed \<Rightarrow> string" where
  "Hash p =
     (let arr = (replicate 60 (CHR 0x00))[0 := CHR ''$'', 1 := major p];
          n = (if minor p \<noteq> CHR 0x00 then 3 else 2);
          arr = (if minor p \<noteq> CHR 0x00 then arr[2 := minor p] else arr);
          arr = arr[n := CHR ''$''];
          n = n + 1;
          arr = copyAt n (zeroPad 2 (nat (cost p))) arr;
          n = n + 2;
          arr = arr[n := CHR ''$''];
          n = n + 1;
          arr = copyAt n (salt p) arr;
          n = n + 22;
          arr = copyAt n (hash p) arr;
          n = n + 31
      in take n arr)"

text \<open>\<open>decodeVersion\<close> and \<open>decodeCost\<close> return how far they have read and what they have read. \<open>atoi\<close> accepts a sign.\<close>

definition atoi :: "string \<Rightarrow> int option" where
  "atoi s =
     (case s of
        ch # rest \<Rightarrow>
          if ch = CHR ''-'' then map_option (\<lambda>n. - int n) (read_nat rest)
          else if ch = CHR ''+'' then map_option int (read_nat rest)
          else map_option int (read_nat s)
      | [] \<Rightarrow> None)"

definition decodeVersion :: "string \<Rightarrow> (bcrypt_error + (int \<times> char \<times> char)) go" where
  "decodeVersion sbytes =
     go_bind (slice_index sbytes 0) (\<lambda>b0.
     if b0 \<noteq> CHR ''$'' then Inr (Inl (InvalidHashPrefixError b0))
     else go_bind (slice_index sbytes 1) (\<lambda>b1.
     if byte b1 > byte (CHR ''2'') then Inr (Inl (HashVersionTooNewError b1))
     else go_bind (slice_index sbytes 2) (\<lambda>b2.
     if b2 \<noteq> CHR ''$'' then Inr (Inr (4, b1, b2)) else Inr (Inr (3, b1, CHR 0x00)))))"

definition decodeCost :: "string \<Rightarrow> (bcrypt_error + (int \<times> int)) go" where
  "decodeCost sbytes =
     go_bind (slice_range sbytes 0 2) (\<lambda>s.
     Inr (case atoi s of
            None \<Rightarrow> Inl (AtoiError s)
          | Some c \<Rightarrow> (case checkCost c of Some e \<Rightarrow> Inl e | None \<Rightarrow> Inr (3, c))))"

definition newFromHash :: "string \<Rightarrow> (bcrypt_error + hashed) go" where
  "newFromHash hashedSecret =
     (if length hashedSecret < 59 then Inr (Inl ErrHashTooShort)
      else go_bind (decodeVersion hashedSecret) (\<lambda>v.
        case v of Inl e \<Rightarrow> Inr (Inl e) | Inr (n, maj, mnr) \<Rightarrow>
        go_bind (slice_from hashedSecret n) (\<lambda>hashedSecret.
        go_bind (decodeCost hashedSecret) (\<lambda>c.
        case c of Inl e \<Rightarrow> Inr (Inl e) | Inr (n, cst) \<Rightarrow>
        go_bind (slice_from hashedSecret n) (\<lambda>hashedSecret.
        go_bind (slice_to hashedSecret 22) (\<lambda>slt.
        go_bind (slice_from hashedSecret 22) (\<lambda>hsh.
        Inr (Inr \<lparr>hash = hsh, salt = slt, cost = cst, major = maj, minor = mnr\<rparr>))))))))"

section \<open>The cipher\<close>

record 'c blowfish =
  NewSaltedCipher :: "string \<Rightarrow> string \<Rightarrow> 'c option"
  ExpandKey :: "string \<Rightarrow> 'c \<Rightarrow> 'c"
  Encrypt :: "'c \<Rightarrow> string \<Rightarrow> string"     \<comment> \<open>one block of eight bytes\<close>

definition magicCipherData :: string where
  "magicCipherData = ''OrpheanBeholderScryDoubt''"

definition expensiveBlowfishSetup :: "'c blowfish \<Rightarrow> string \<Rightarrow> nat \<Rightarrow> string \<Rightarrow> bcrypt_error + 'c" where
  "expensiveBlowfishSetup bf key c slt =
     (case base64Decode slt of
        None \<Rightarrow> Inl Base64Error
      | Some csalt \<Rightarrow>
          let ckey = key @ [CHR 0x00] in
          (case NewSaltedCipher bf ckey csalt of
             None \<Rightarrow> Inl CipherError
           | Some ci \<Rightarrow> Inr (((\<lambda>ci. ExpandKey bf csalt (ExpandKey bf ckey ci)) ^^ (2 ^ c)) ci)))"

definition encryptBlock :: "'c blowfish \<Rightarrow> 'c \<Rightarrow> string \<Rightarrow> string" where
  "encryptBlock bf ci block = ((Encrypt bf ci) ^^ 64) block"

definition bcrypt :: "'c blowfish \<Rightarrow> string \<Rightarrow> int \<Rightarrow> string \<Rightarrow> (bcrypt_error + string) go" where
  "bcrypt bf password cst slt =
     (case expensiveBlowfishSetup bf password (nat cst) slt of
        Inl e \<Rightarrow> Inr (Inl e)
      | Inr ci \<Rightarrow>
          let cipherData =
            encryptBlock bf ci (take 8 magicCipherData) @ encryptBlock bf ci (take 8 (drop 8 magicCipherData)) @
            encryptBlock bf ci (drop 16 magicCipherData)
          in go_bind (slice_to cipherData 23) (\<lambda>d. go_bind (base64Encode d) (\<lambda>hsh. Inr (Inr hsh))))"

definition newFromPassword :: "'c blowfish \<Rightarrow> string \<Rightarrow> int \<Rightarrow> (bcrypt_error + hashed) go" where
  "newFromPassword bf password cst =
     (let cst = (if cst < MinCost then DefaultCost else cst) in
      case checkCost cst of
        Some e \<Rightarrow> Inr (Inl e)
      | None \<Rightarrow>
          go_bind (base64Encode (replicate 16 (CHR ''a''))) (\<lambda>slt.
          go_bind (bcrypt bf password cst slt) (\<lambda>r.
          case r of
            Inl e \<Rightarrow> Inr (Inl e)
          | Inr hsh \<Rightarrow> Inr (Inr \<lparr>hash = hsh, salt = slt, cost = cst, major = CHR ''2'', minor = CHR ''a''\<rparr>))))"

definition GenerateFromPassword :: "'c blowfish \<Rightarrow> string \<Rightarrow> int \<Rightarrow> (bcrypt_error + string) go" where
  "GenerateFromPassword bf password cst =
     go_bind (newFromPassword bf password cst) (\<lambda>r. Inr (case r of Inl e \<Rightarrow> Inl e | Inr p \<Rightarrow> Inr (Hash p)))"

definition CompareHashAndPassword :: "'c blowfish \<Rightarrow> string \<Rightarrow> string \<Rightarrow> bcrypt_error option go" where
  "CompareHashAndPassword bf hashedPassword password =
     go_bind (newFromHash hashedPassword) (\<lambda>r.
     case r of
       Inl e \<Rightarrow> Inr (Some e)
     | Inr p \<Rightarrow>
         go_bind (bcrypt bf password (cost p) (salt p)) (\<lambda>r.
         Inr (case r of
                Inl e \<Rightarrow> Some e
              | Inr otherHash \<Rightarrow> if Hash p = Hash (p\<lparr>hash := otherHash\<rparr>) then None else Some ErrMismatchedHashAndPassword)))"

definition Cost :: "string \<Rightarrow> (bcrypt_error + int) go" where
  "Cost hashedPassword =
     go_bind (newFromHash hashedPassword) (\<lambda>r. Inr (case r of Inl e \<Rightarrow> Inl e | Inr p \<Rightarrow> Inr (cost p)))"

section \<open>The format of a hash\<close>

lemma copyAt_append: "length a = n \<Longrightarrow> length xs \<le> length b \<Longrightarrow> copyAt n xs (a @ b) = a @ xs @ drop (length xs) b"
  by (simp add: copyAt_def)

lemma sixty: "replicate 60 z = [z, z, z, z] @ replicate 56 z"
  by (simp add: numeral_eq_Suc)

lemma digits_show: "\<forall>ch \<in> set (show_nat n). digit ch \<noteq> None"
proof (induction n rule: show_nat.induct)
  case (1 n)
  then show ?case by (subst show_nat.simps) (auto simp: ball_Un)
qed

lemma length_show_small: "n < 100 \<Longrightarrow> length (show_nat n) = (if n < 10 then 1 else 2)"
  by (auto simp: show_nat.simps less_mult_imp_div_less)

lemma digit_zero: "digit (CHR ''0'') = Some 0"
  by (simp add: digit_def)

lemma read_digits_zeros: "read_digits 0 (replicate k (CHR ''0'') @ s) = read_digits 0 s"
  by (induction k) (simp_all add: digit_zero)

lemma zeroPad_two:
  assumes "n < 100"
  obtains x y where "zeroPad 2 n = [x, y]" "digit x \<noteq> None" "read_nat [x, y] = Some n"
proof -
  have "length (zeroPad 2 n) = 2" using length_show_small [OF assms] by (simp add: zeroPad_def Let_def)
  then obtain x y where xy: "zeroPad 2 n = [x, y]" by (auto simp: length_Suc_conv numeral_2_eq_2)
  have "\<forall>ch \<in> set (zeroPad 2 n). digit ch \<noteq> None"
    using digits_show [of n] by (auto simp: zeroPad_def Let_def digit_zero)
  moreover have "read_nat (zeroPad 2 n) = Some n"
    by (simp add: read_nat_def zeroPad_def Let_def read_digits_zeros read_digits_show)
  ultimately show thesis using that xy by simp
qed

lemma atoi_two:
  assumes "digit x \<noteq> None" "read_nat [x, y] = Some n"
  shows "atoi [x, y] = Some (int n)"
proof -
  have "digit (CHR ''-'') = None" "digit (CHR ''+'') = None" by (simp_all add: digit_def)
  with assms have "x \<noteq> CHR ''-''" "x \<noteq> CHR ''+''" by auto
  with assms(2) show ?thesis by (simp add: atoi_def)
qed

definition well_formed :: "hashed \<Rightarrow> bool" where
  "well_formed p \<longleftrightarrow> length (salt p) = 22 \<and> length (hash p) = 31 \<and> 1 \<le> cost p \<and> cost p \<le> 31 \<and> major p = CHR ''2'' \<and> minor p \<noteq> CHR ''$''"

lemma Hash_layout:
  assumes "well_formed p" "minor p \<noteq> CHR 0x00"
  shows "Hash p = [CHR ''$'', major p, minor p, CHR ''$''] @ zeroPad 2 (nat (cost p)) @ [CHR ''$''] @ salt p @ hash p"
proof -
  let ?z = "CHR 0x00"
  have n: "nat (cost p) < 100" using assms(1) by (auto simp: well_formed_def nat_less_iff)
  obtain x y where xy: "zeroPad 2 (nat (cost p)) = [x, y]" by (rule zeroPad_two [OF n])
  have a: "(replicate 60 ?z)[0 := CHR ''$'', 1 := major p, 2 := minor p, 3 := CHR ''$''] = [CHR ''$'', major p, minor p, CHR ''$''] @ replicate 56 ?z"
    unfolding sixty by (simp add: numeral_eq_Suc)
  have b: "copyAt 4 [x, y] ([CHR ''$'', major p, minor p, CHR ''$''] @ replicate 56 ?z) =
      [CHR ''$'', major p, minor p, CHR ''$'', x, y] @ replicate 54 ?z"
    by (subst copyAt_append) simp_all
  have c: "([CHR ''$'', major p, minor p, CHR ''$'', x, y] @ replicate 54 ?z)[6 := CHR ''$''] =
      [CHR ''$'', major p, minor p, CHR ''$'', x, y, CHR ''$''] @ replicate 53 ?z"
    by (simp add: list_update_append numeral_eq_Suc)
  have d: "copyAt 7 (salt p) ([CHR ''$'', major p, minor p, CHR ''$'', x, y, CHR ''$''] @ replicate 53 ?z) =
      ([CHR ''$'', major p, minor p, CHR ''$'', x, y, CHR ''$''] @ salt p) @ replicate 31 ?z"
    using assms(1) by (subst copyAt_append) (simp_all add: well_formed_def)
  have e: "copyAt 29 (hash p) (([CHR ''$'', major p, minor p, CHR ''$'', x, y, CHR ''$''] @ salt p) @ replicate 31 ?z) =
      [CHR ''$'', major p, minor p, CHR ''$'', x, y, CHR ''$''] @ salt p @ hash p"
    using assms(1) by (subst copyAt_append) (simp_all add: well_formed_def)
  have "Hash p = take 60 (copyAt 29 (hash p) (copyAt 7 (salt p)
      ((copyAt 4 [x, y] ((replicate 60 ?z)[0 := CHR ''$'', 1 := major p, 2 := minor p, 3 := CHR ''$'']))[6 := CHR ''$''])))"
    using assms(2) xy by (simp add: Hash_def Let_def)
  also have "\<dots> = [CHR ''$'', major p, minor p, CHR ''$'', x, y, CHR ''$''] @ salt p @ hash p"
    unfolding a b c d e using assms(1) by (simp add: well_formed_def)
  finally show ?thesis using xy by simp
qed

lemma newFromHash_Hash:
  assumes "well_formed p" "minor p \<noteq> CHR 0x00"
  shows "newFromHash (Hash p) = Inr (Inr p)"
proof -
  have n: "nat (cost p) < 100" using assms(1) by (auto simp: well_formed_def nat_less_iff)
  obtain x y where xy: "zeroPad 2 (nat (cost p)) = [x, y]" "digit x \<noteq> None" "read_nat [x, y] = Some (nat (cost p))"
    by (rule zeroPad_two [OF n])
  let ?rest = "[x, y, CHR ''$''] @ salt p @ hash p"
  have h: "Hash p = [CHR ''$'', major p, minor p, CHR ''$''] @ ?rest" using Hash_layout [OF assms] xy(1) by simp
  have v: "decodeVersion (Hash p) = Inr (Inr (4, major p, minor p))"
    using assms by (simp add: h decodeVersion_def slice_index_def well_formed_def)
  have f: "slice_from (Hash p) 4 = Inr ?rest" by (simp add: h slice_from_def)
  have "slice_range ?rest 0 2 = Inr [x, y]" by (simp add: slice_range_def numeral_2_eq_2)
  then have c: "decodeCost ?rest = Inr (Inr (3, cost p))"
    using assms(1) atoi_two [OF xy(2,3)] by (auto simp: decodeCost_def checkCost_def MinCost_def MaxCost_def well_formed_def)
  have r: "slice_from ?rest 3 = Inr (salt p @ hash p)" by (simp add: slice_from_def numeral_3_eq_3)
  have s: "slice_to (salt p @ hash p) 22 = Inr (salt p)" "slice_from (salt p @ hash p) 22 = Inr (hash p)"
    using assms(1) by (simp_all add: slice_to_def slice_from_def well_formed_def)
  have l: "\<not> length (Hash p) < 59" using assms(1) by (simp add: h well_formed_def)
  show ?thesis using l unfolding newFromHash_def by (simp only: if_False v f c r s bind_Inr sum.case prod.case) simp
qed

text \<open>The contract of the cipher that the proofs use: a key and a salt that are not empty give a cipher, and encryption keeps the length of
  a block.\<close>

definition blowfish_ok :: "'c blowfish \<Rightarrow> bool" where
  "blowfish_ok bf \<longleftrightarrow> (\<forall>k s. k \<noteq> [] \<longrightarrow> s \<noteq> [] \<longrightarrow> NewSaltedCipher bf k s \<noteq> None) \<and>
     (\<forall>c b. length b = 8 \<longrightarrow> length (Encrypt bf c b) = 8)"

lemma encryptBlock_length: "blowfish_ok bf \<Longrightarrow> length b = 8 \<Longrightarrow> length (encryptBlock bf c b) = 8"
proof -
  assume bf: "blowfish_ok bf" and b: "length b = 8"
  have "length ((Encrypt bf c ^^ n) b) = 8" for n
    using bf b by (induction n) (auto simp: blowfish_ok_def)
  then show ?thesis by (simp add: encryptBlock_def)
qed

lemma bcrypt_ok:
  assumes "blowfish_ok bf" "base64Decode slt = Some s" "s \<noteq> []"
  shows "\<exists>h. bcrypt bf pw c slt = Inr (Inr h) \<and> length h = 31"
proof -
  have "NewSaltedCipher bf (pw @ [CHR 0x00]) s \<noteq> None" using assms(1,3) by (simp add: blowfish_ok_def)
  then obtain ci where ci: "NewSaltedCipher bf (pw @ [CHR 0x00]) s = Some ci" by blast
  then obtain cj where cj: "expensiveBlowfishSetup bf pw (nat c) slt = Inr cj"
    by (simp add: expensiveBlowfishSetup_def assms(2) Let_def)
  define d where "d = encryptBlock bf cj (take 8 magicCipherData) @ encryptBlock bf cj (take 8 (drop 8 magicCipherData)) @
      encryptBlock bf cj (drop 16 magicCipherData)"
  have "length (take 8 magicCipherData) = 8" "length (take 8 (drop 8 magicCipherData)) = 8" "length (drop 16 magicCipherData) = 8"
    by (simp_all add: magicCipherData_def)
  then have l: "length d = 24" by (simp add: d_def encryptBlock_length [OF assms(1)])
  then have t: "slice_to d 23 = Inr (take 23 d)" by (simp add: slice_to_def)
  have "take 23 d \<noteq> []" using l by (simp flip: length_0_conv)
  then obtain e where e: "base64Encode (take 23 d) = Inr e" "length e = length (take 23 d) + (length (take 23 d) + 2) div 3"
    using base64Encode_core by metis
  have "bcrypt bf pw c slt = Inr (Inr e)"
    unfolding bcrypt_def cj by (simp only: sum.case Let_def d_def [symmetric] t e(1) bind_Inr)
  moreover have "length e = 31" using e(2) l by simp
  ultimately show ?thesis by blast
qed

lemma salt_ok: "\<exists>slt. base64Encode (replicate 16 (CHR ''a'')) = Inr slt \<and> length slt = 22 \<and>
    base64Decode slt = Some (replicate 16 (CHR ''a''))"
proof -
  have ne: "replicate 16 (CHR ''a'') \<noteq> []" by simp
  then obtain e where e: "base64Encode (replicate 16 (CHR ''a'')) = Inr e"
      "length e = length (replicate 16 (CHR ''a'')) + (length (replicate 16 (CHR ''a'')) + 2) div 3"
    using base64Encode_core by metis
  then show ?thesis using base64_decode_encode [OF e(1)] by simp
qed

lemma generate_ok:
  assumes "blowfish_ok bf" "c \<le> 31"
  shows "\<exists>h. GenerateFromPassword bf pw c = Inr (Inr h) \<and> length h = 60 \<and>
      Cost h = Inr (Inr (if c < 1 then 10 else c)) \<and> CompareHashAndPassword bf h pw = Inr None"
proof -
  let ?c = "if c < 1 then 10 else c"
  obtain slt where s: "base64Encode (replicate 16 (CHR ''a'')) = Inr slt" "length slt = 22" "base64Decode slt = Some (replicate 16 (CHR ''a''))"
    using salt_ok by blast
  have "replicate 16 (CHR ''a'') \<noteq> []" by simp
  from bcrypt_ok [OF assms(1) s(3) this] obtain h where h: "bcrypt bf pw ?c slt = Inr (Inr h)" "length h = 31" by blast
  let ?p = "\<lparr>hash = h, salt = slt, cost = ?c, major = CHR ''2'', minor = CHR ''a''\<rparr>"
  have w: "well_formed ?p" "minor ?p \<noteq> CHR 0x00" using assms(2) s h by (simp_all add: well_formed_def)
  have "checkCost ?c = None" "(if c < MinCost then DefaultCost else c) = ?c"
    using assms(2) by (simp_all add: checkCost_def MinCost_def MaxCost_def DefaultCost_def)
  then have g: "GenerateFromPassword bf pw c = Inr (Inr (Hash ?p))"
    by (simp only: GenerateFromPassword_def newFromPassword_def Let_def s(1) h(1) bind_Inr sum.case option.case)
  have n: "nat ?c < 100" using assms(2) by (simp add: nat_less_iff)
  obtain x y where "zeroPad 2 (nat ?c) = [x, y]" by (rule zeroPad_two [OF n])
  then have "length (Hash ?p) = 60" using Hash_layout [OF w] s(2) h(2) by simp
  with g assms(2) newFromHash_Hash [OF w] h(1) show ?thesis
    by (simp add: Cost_def CompareHashAndPassword_def)
qed

text \<open>C32: hashing a password and comparing it with its hash agree. For a cost up to 31, \<open>GenerateFromPassword\<close> returns a hash of 60 bytes from which
  \<open>Cost\<close> reads back the cost, 10 for a cost below 1, and \<open>CompareHashAndPassword\<close> accepts the password; a cost above 31 is an error. Nothing is assumed of the
  cipher but that it accepts keys and keeps the length of a block.\<close>

theorem generate_compare:
  assumes "blowfish_ok bf"
  shows "if c \<le> 31 then \<exists>h. GenerateFromPassword bf pw c = Inr (Inr h) \<and> length h = 60 \<and>
      Cost h = Inr (Inr (if c < 1 then 10 else c)) \<and> CompareHashAndPassword bf h pw = Inr None
    else GenerateFromPassword bf pw c = Inr (Inl (InvalidCostError c))"
proof (cases "c \<le> 31")
  case True
  then show ?thesis using generate_ok [OF assms] by simp
next
  case False
  then show ?thesis
    by (simp add: GenerateFromPassword_def newFromPassword_def Let_def checkCost_def MinCost_def MaxCost_def DefaultCost_def)
qed

text \<open>A cipher that keeps only its key and encrypts by rotating a block.\<close>

definition rotation :: "string blowfish" where
  "rotation = \<lparr>NewSaltedCipher = (\<lambda>k s. if k = [] \<or> s = [] then None else Some k), ExpandKey = (\<lambda>k c. c),
     Encrypt = (\<lambda>c b. rotate1 b)\<rparr>"

lemma rotation_ok: "blowfish_ok rotation"
  by (simp add: blowfish_ok_def rotation_def)

theorem generate_compare_witness:
  "blowfish_ok rotation \<and> (\<exists>h. GenerateFromPassword rotation ''00000000000000000042'' 3 = Inr (Inr h) \<and> length h = 60 \<and>
     Cost h = Inr (Inr 3) \<and> CompareHashAndPassword rotation h ''00000000000000000042'' = Inr None)"
  using generate_compare [OF rotation_ok, of 3 "''00000000000000000042''"] rotation_ok by simp

end
