(* ===== verification/Lab1_Ranker.thy ===== *)
theory Lab1_Ranker
  imports Lab1_Bcrypt "HOL-Library.Word" "HOL-Library.Multiset"
begin

text \<open>
  \<open>lab1/ranker/ranker.go\<close>: the score of a video for a user. \<open>fnv32\<close> and \<open>fnv64\<close> are the sums of \<open>fnv.New32\<close> and \<open>fnv.New64\<close> of \<open>hash/fnv\<close>.
  Coefficients are maps from feature ids to 64-bit words, as association lists in the order in which \<open>range\<close> visits them, which Go
  leaves open.
\<close>

unbundle bit_operations_syntax

section \<open>The ranker\<close>

definition costHash :: "64 word \<Rightarrow> int" where
  "costHash i = int (unat (fnv32 (show_nat (unat i)))) mod (4 - MinCost) + MinCost"

type_synonym coeffs = "(int \<times> 64 word) list"

fun dotLoop :: "64 word \<Rightarrow> coeffs \<Rightarrow> coeffs \<Rightarrow> 64 word" where
  "dotLoop dotProduct videoCoeffs [] = dotProduct"
| "dotLoop dotProduct videoCoeffs ((featureId, userCoeff) # rest) =
     dotLoop (case map_of videoCoeffs featureId of Some videoCoeff \<Rightarrow> dotProduct + userCoeff * videoCoeff | None \<Rightarrow> dotProduct) videoCoeffs rest"

definition Rank :: "'c blowfish \<Rightarrow> coeffs \<Rightarrow> coeffs \<Rightarrow> (64 word) go" where
  "Rank bf userCoeffs videoCoeffs =
     (let dotProduct = dotLoop 0 videoCoeffs userCoeffs;
          pw = zeroPad 20 (unat dotProduct)
      in go_bind (GenerateFromPassword bf pw (costHash dotProduct)) (\<lambda>r.
         Inr (fnv64 (case r of Inl _ \<Rightarrow> [] | Inr bytes \<Rightarrow> bytes))))"

section \<open>What the ranker computes\<close>

text \<open>The products of the coefficients that both sides have, summed up modulo \<open>2 ^ 64\<close>.\<close>

definition dot :: "coeffs \<Rightarrow> coeffs \<Rightarrow> 64 word" where
  "dot u v = (\<Sum>(f, c) \<leftarrow> u. c * (case map_of v f of Some d \<Rightarrow> d | None \<Rightarrow> 0))"

lemma dotLoop_dot: "dotLoop a v u = a + dot u v"
  by (induction a v u rule: dotLoop.induct) (auto simp: dot_def algebra_simps split: option.split)

lemma dot_cong:
  assumes "distinct (map fst u)" "distinct (map fst u')" "map_of u = map_of u'" "map_of v = map_of v'"
  shows "dot u v = dot u' v'"
proof -
  have "set u = set u'" using assms(1-3) by (metis map_of_eq_Some_iff subrelI subset_antisym)
  then have "mset u = mset u'" using assms(1,2) by (simp add: set_eq_iff_mset_eq_distinct [symmetric] distinct_map)
  then have "mset (map h u) = mset (map h u')" for h :: "int \<times> 64 word \<Rightarrow> 64 word" by simp
  then show ?thesis unfolding dot_def assms(4) by (metis sum_mset_sum_list)
qed

lemma costHash_range: "1 \<le> costHash i" "costHash i \<le> 3"
  using pos_mod_bound [of 3 "int (unat (fnv32 (show_nat (unat i))))"] by (simp_all add: costHash_def MinCost_def)

lemma Rank_ok:
  assumes "blowfish_ok bf"
  shows "\<exists>h k. Rank bf u v = Inr (fnv64 h) \<and> GenerateFromPassword bf (zeroPad 20 (unat (dot u v))) k = Inr (Inr h) \<and> length h = 60 \<and>
       Cost h = Inr (Inr k) \<and> 1 \<le> k \<and> k \<le> 3"
proof -
  let ?k = "costHash (dot u v)"
  have k: "1 \<le> ?k" "?k \<le> 3" by (rule costHash_range)+
  then obtain h where h: "GenerateFromPassword bf (zeroPad 20 (unat (dot u v))) ?k = Inr (Inr h)" "length h = 60" "Cost h = Inr (Inr ?k)"
    using generate_ok [OF assms, of ?k "zeroPad 20 (unat (dot u v))"] by auto
  then have "Rank bf u v = Inr (fnv64 h)" by (simp add: Rank_def dotLoop_dot)
  with h k show ?thesis by blast
qed

text \<open>The score, where \<open>Rank\<close> has one.\<close>

definition score :: "'c blowfish \<Rightarrow> coeffs \<Rightarrow> coeffs \<Rightarrow> 64 word" where
  "score bf u v = (case Rank bf u v of Inl _ \<Rightarrow> 0 | Inr s \<Rightarrow> s)"

lemma Rank_score: "blowfish_ok bf \<Longrightarrow> Rank bf u v = Inr (score bf u v)"
  using Rank_ok [of bf u v] by (auto simp: score_def)

text \<open>The score of a video does not depend on the order in which Go's maps are visited, and the errors that \<open>Rank\<close> ignores do not occur. Equal coefficient maps
  give equal scores, whatever the order of their entries, and the score is the FNV hash of a 60-byte hash whose cost lies between 1 and 3.\<close>

theorem Rank_deterministic:
  assumes "blowfish_ok bf" "distinct (map fst u)" "distinct (map fst u')" "map_of u = map_of u'" "map_of v = map_of v'"
  shows "Rank bf u v = Rank bf u' v' \<and>
    (\<exists>h k. Rank bf u v = Inr (fnv64 h) \<and> GenerateFromPassword bf (zeroPad 20 (unat (dot u v))) k = Inr (Inr h) \<and> length h = 60 \<and>
       Cost h = Inr (Inr k) \<and> 1 \<le> k \<and> k \<le> 3)"
  using Rank_ok [OF assms(1)] dot_cong [OF assms(2-5)] by (simp add: Rank_def dotLoop_dot)

theorem Rank_deterministic_witness:
  "blowfish_ok rotation \<and> Rank rotation [(1, 2), (5, 7)] [(5, 3), (1, 4)] = Rank rotation [(5, 7), (1, 2)] [(1, 4), (5, 3)]"
proof -
  have m: "map_of [(1 :: int, 2 :: 64 word), (5, 7)] = map_of [(5, 7), (1, 2)]" "map_of [(5 :: int, 3 :: 64 word), (1, 4)] = map_of [(1, 4), (5, 3)]"
    by (simp_all add: fun_upd_twist)
  have "Rank rotation [(1, 2), (5, 7)] [(5, 3), (1, 4)] = Rank rotation [(5, 7), (1, 2)] [(1, 4), (5, 3)]"
    using Rank_deterministic [OF rotation_ok _ _ m] by simp
  with rotation_ok show ?thesis by simp
qed

end
