(* ===== verification/Lab1_VideoRec.thy ===== *)
theory Lab1_VideoRec
  imports Lab1_Services Lab1_Ranker
begin

text \<open>
  \<open>lab1/video_rec_service/server_lib/server_lib.go\<close>: the recommendation service. The RPC clients of the user and the video service are parameters, functions of
  a batch and of the state of the world; the answer of a call is \<open>Inl\<close> of a fault that the caller does not survive, or \<open>Inr\<close> of an error code or a response. A handler is a function of
  the server and the world; it is \<open>None\<close> if it never returns. The clock readings of a handler are arguments.

  \<open>forBatches\<close> is the loop \<open>for i := 0; i < len(ids); i += max\<close> with the slice \<open>ids[i:j]\<close> that three functions share; its body says whether to go on. Batch sizes and lengths
  are far below \<open>2 ^ 53\<close>, so the detour of \<open>j\<close> through \<open>float64\<close> is exact and \<open>i + max\<close> does not overflow before \<open>i\<close> passes the length.
\<close>

section \<open>The state of the service\<close>

record VideoRecServiceOptions =
  UserServiceAddr :: string
  VideoServiceAddr :: string
  MaxBatchSize :: int
  DisableFallback :: bool
  DisableRetry :: bool

record cachedVideos =
  videos :: "VideoInfo list"
  timeout :: int

record VideoRecServiceServer =
  options :: VideoRecServiceOptions
  total_reqs :: "64 word"
  total_errs :: "64 word"
  total_usr_serv_errs :: "64 word"
  total_active_reqs :: "64 word"
  total_latency :: "64 word"
  total_stale_resp :: "64 word"
  total_vid_serv_errs :: "64 word"
  trending_vids :: cachedVideos

record 'w clients =
  usr_GetUser :: "nat list \<Rightarrow> 'w \<Rightarrow> (code + UserInfo list) go \<times> 'w"
  vid_GetVideo :: "nat list \<Rightarrow> 'w \<Rightarrow> (code + VideoInfo list) go \<times> 'w"
  vid_GetTrendingVideos :: "'w \<Rightarrow> (code + GetTrendingVideosResponse) go \<times> 'w"

text \<open>Connecting: \<open>dial n addr\<close> is the outcome of the \<open>n\<close>-th call of \<open>grpc.NewClient\<close>, the error if there is one. A failed call is repeated once unless retries are disabled.\<close>

definition dialRetried :: "(nat \<Rightarrow> string \<Rightarrow> 'e + 'conn) \<Rightarrow> bool \<Rightarrow> string \<Rightarrow> nat \<Rightarrow> ('e + 'conn) \<times> nat" where
  "dialRetried dial disableRetry addr n =
     (case dial n addr of
        Inr conn \<Rightarrow> (Inr conn, Suc n)
      | Inl err \<Rightarrow> if \<not> disableRetry then (dial (Suc n) addr, Suc (Suc n)) else (Inl err, Suc n))"

definition emptyServer :: "VideoRecServiceOptions \<Rightarrow> VideoRecServiceServer" where
  "emptyServer opts = \<lparr>options = opts, total_reqs = 0, total_errs = 0, total_usr_serv_errs = 0, total_active_reqs = 0, total_latency = 0,
     total_stale_resp = 0, total_vid_serv_errs = 0, trending_vids = \<lparr>videos = [], timeout = 0\<rparr>\<rparr>"

definition MakeVideoRecServiceServer ::
    "(nat \<Rightarrow> string \<Rightarrow> 'e + 'conn) \<Rightarrow> VideoRecServiceOptions \<Rightarrow> 'e + (VideoRecServiceServer \<times> 'conn \<times> 'conn)" where
  "MakeVideoRecServiceServer dial opts =
     (case dialRetried dial (DisableRetry opts) (UserServiceAddr opts) 0 of
        (Inl err, n) \<Rightarrow> Inl err
      | (Inr usr_conn, n) \<Rightarrow>
          (case dialRetried dial (DisableRetry opts) (VideoServiceAddr opts) n of
             (Inl err, n) \<Rightarrow> Inl err
           | (Inr vid_conn, n) \<Rightarrow> Inr (emptyServer opts, usr_conn, vid_conn)))"

definition MakeVideoRecServiceServerWithMocks :: "VideoRecServiceOptions \<Rightarrow> VideoRecServiceServer" where
  "MakeVideoRecServiceServerWithMocks opts = emptyServer opts"

section \<open>Batches\<close>

partial_function (option) forBatches ::
    "int \<Rightarrow> nat list \<Rightarrow> (nat list \<Rightarrow> 's \<Rightarrow> 'w \<Rightarrow> (bool \<times> 's) go \<times> 'w) \<Rightarrow> int \<Rightarrow> 's \<Rightarrow> 'w \<Rightarrow> ('s go \<times> 'w) option" where
  "forBatches max_batch ids body i s w =
     (if i < int (length ids) then
        (case slice_range ids i (min (i + max_batch) (int (length ids))) of
           Inl f \<Rightarrow> Some (Inl f, w)
         | Inr batch \<Rightarrow>
             (case body batch s w of
                (Inl f, w) \<Rightarrow> Some (Inl f, w)
              | (Inr (goOn, s), w) \<Rightarrow> if goOn then forBatches max_batch ids body (i + max_batch) s w else Some (Inr s, w)))
      else Some (Inr s, w))"

definition trendingBatch :: "'w clients \<Rightarrow> nat list \<Rightarrow> VideoInfo list \<Rightarrow> 'w \<Rightarrow> (bool \<times> VideoInfo list) go \<times> 'w" where
  "trendingBatch cs batch trending w =
     (case vid_GetVideo cs batch w of
        (Inl f, w) \<Rightarrow> (Inl f, w)
      | (Inr (Inl err), w) \<Rightarrow> (Inr (False, trending), w)
      | (Inr (Inr batch_vids), w) \<Rightarrow> (Inr (True, trending @ batch_vids), w))"

text \<open>One round of the loop of \<open>refreshTrendingVideos\<close>, which sleeps ten seconds after each; \<open>now1\<close> and \<open>now2\<close> are its two readings of the clock in
  seconds.\<close>

definition refreshTrendingVideos ::
    "'w clients \<Rightarrow> int \<Rightarrow> int \<Rightarrow> VideoRecServiceServer \<Rightarrow> 'w \<Rightarrow> (VideoRecServiceServer go \<times> 'w) option" where
  "refreshTrendingVideos cs now1 now2 server w =
     (if now1 > timeout (trending_vids server) then
        (case vid_GetTrendingVideos cs w of
           (Inl f, w) \<Rightarrow> Some (Inl f, w)
         | (Inr (Inl err), w) \<Rightarrow> Some (Inr server, w)
         | (Inr (Inr trending_resp), w) \<Rightarrow>
             (case forBatches (MaxBatchSize (options server)) (gt_Videos trending_resp) (trendingBatch cs) 0 [] w of
                None \<Rightarrow> None
              | Some (Inl f, w) \<Rightarrow> Some (Inl f, w)
              | Some (Inr vids, w) \<Rightarrow>
                  Some (Inr (server\<lparr>trending_vids := \<lparr>videos = vids, timeout = now2 + ExpirationTimeS trending_resp\<rparr>\<rparr>), w)))
      else Some (Inr server, w))"

definition subscribedBatch :: "'w clients \<Rightarrow> nat list \<Rightarrow> nat list \<Rightarrow> 'w \<Rightarrow> (bool \<times> nat list) go \<times> 'w" where
  "subscribedBatch cs batch liked w =
     (case usr_GetUser cs batch w of
        (Inl f, w) \<Rightarrow> (Inl f, w)
      | (Inr (Inl err), w) \<Rightarrow> (Inr (True, liked), w)
      | (Inr (Inr users), w) \<Rightarrow> (Inr (True, liked @ concat (map LikedVideos users)), w))"

definition getSubscribedVideos :: "'w clients \<Rightarrow> VideoRecServiceServer \<Rightarrow> nat list \<Rightarrow> 'w \<Rightarrow> (nat list go \<times> 'w) option" where
  "getSubscribedVideos cs server subscribedUserIDs w =
     forBatches (MaxBatchSize (options server)) subscribedUserIDs (subscribedBatch cs) 0 [] w"

definition infoBatch ::
    "'w clients \<Rightarrow> nat list \<Rightarrow> code + VideoInfo list \<Rightarrow> 'w \<Rightarrow> (bool \<times> (code + VideoInfo list)) go \<times> 'w" where
  "infoBatch cs batch vids w =
     (case vid_GetVideo cs batch w of
        (Inl f, w) \<Rightarrow> (Inl f, w)
      | (Inr (Inl err), w) \<Rightarrow> (Inr (False, Inl err), w)
      | (Inr (Inr batch_vids), w) \<Rightarrow> (Inr (True, map_sum id (\<lambda>vs. vs @ batch_vids) vids), w))"

definition getVideoInfo :: "'w clients \<Rightarrow> VideoRecServiceServer \<Rightarrow> nat list \<Rightarrow> 'w \<Rightarrow> ((code + VideoInfo list) go \<times> 'w) option" where
  "getVideoInfo cs server videoIds w = forBatches (MaxBatchSize (options server)) videoIds (infoBatch cs) 0 (Inr []) w"

section \<open>Ranking\<close>

fun scoreAll :: "'c blowfish \<Rightarrow> coeffs \<Rightarrow> VideoInfo list \<Rightarrow> (VideoInfo \<times> 64 word) list go" where
  "scoreAll bf userCoeffs [] = Inr []"
| "scoreAll bf userCoeffs (video # vids) =
     go_bind (Rank bf userCoeffs (VideoCoefficients video)) (\<lambda>score.
     go_bind (scoreAll bf userCoeffs vids) (\<lambda>scores. Inr ((video, score) # scores)))"

text \<open>\<open>srt\<close> is \<open>sort.Slice\<close> with the comparison of the scores: some permutation in which no later score is greater. The sort is not stable.\<close>

type_synonym sorter = "(VideoInfo \<times> 64 word) list \<Rightarrow> (VideoInfo \<times> 64 word) list"

definition sort_ok :: "sorter \<Rightarrow> bool" where
  "sort_ok srt \<longleftrightarrow> (\<forall>xs. mset (srt xs) = mset xs \<and> sorted_wrt (\<lambda>a b. snd a \<ge> snd b) (srt xs))"

definition rankerVids :: "'c blowfish \<Rightarrow> sorter \<Rightarrow> coeffs \<Rightarrow> VideoInfo list \<Rightarrow> VideoInfo list go" where
  "rankerVids bf srt userCoeffs vids = go_bind (scoreAll bf userCoeffs vids) (\<lambda>scores. Inr (map fst (srt scores)))"

section \<open>The handlers\<close>

record GetTopVideosRequest =
  rq_UserId :: nat
  Limit :: int

record GetTopVideosResponse =
  Videos :: "VideoInfo list"
  StaleResponse :: bool

definition limitOf :: "GetTopVideosRequest \<Rightarrow> VideoInfo list \<Rightarrow> int" where
  "limitOf req vids = (if Limit req = 0 \<or> Limit req > int (length vids) then int (length vids) else Limit req)"

definition handleFallback ::
    "GetTopVideosRequest \<Rightarrow> VideoRecServiceServer \<Rightarrow> (code + GetTopVideosResponse) go \<times> VideoRecServiceServer" where
  "handleFallback req server =
     (if DisableFallback (options server) then (Inr (Inl Unavailable), server)
      else let server = server\<lparr>total_stale_resp := total_stale_resp server + 1\<rparr>;
               vids = videos (trending_vids server)
           in (go_bind (slice_to vids (limitOf req vids)) (\<lambda>vids. Inr (Inr \<lparr>Videos = vids, StaleResponse = True\<rparr>)), server))"

definition countError :: "VideoRecServiceServer \<Rightarrow> VideoRecServiceServer" where
  "countError server =
     (if DisableFallback (options server)
      then server\<lparr>total_usr_serv_errs := total_usr_serv_errs server + 1, total_errs := total_errs server + 1\<rparr>
      else server)"

fun deduplicateLoop :: "(nat \<Rightarrow> bool) \<Rightarrow> nat list \<Rightarrow> nat list \<Rightarrow> nat list" where
  "deduplicateLoop seen non_dup [] = non_dup"
| "deduplicateLoop seen non_dup (i # items) =
     (if \<not> seen i then deduplicateLoop (seen(i := True)) (non_dup @ [i]) items else deduplicateLoop seen non_dup items)"

definition deduplicate :: "nat list \<Rightarrow> nat list" where
  "deduplicate items = deduplicateLoop (\<lambda>_. False) [] items"

type_synonym 'w answer = "(((code + GetTopVideosResponse) go \<times> VideoRecServiceServer) \<times> 'w) option"

text \<open>\<open>GetTopVideos\<close> in two parts: \<open>rankedAnswer\<close> is the part after the user has been found; \<open>GetTopVideos\<close> counts the request, and its deferred call takes the active request
  back however the handler ends. \<open>t0\<close> and \<open>t1\<close> are the readings of the clock in milliseconds.\<close>

definition rankedAnswer ::
    "'c blowfish \<Rightarrow> sorter \<Rightarrow> 'w clients \<Rightarrow> 64 word \<Rightarrow> 64 word \<Rightarrow> GetTopVideosRequest \<Rightarrow> UserInfo \<Rightarrow> VideoRecServiceServer \<Rightarrow> 'w \<Rightarrow> 'w answer" where
  "rankedAnswer bf srt cs t0 t1 req user server w =
     (case getSubscribedVideos cs server (SubscribedTo user) w of
        None \<Rightarrow> None
      | Some (Inl f, w) \<Rightarrow> Some ((Inl f, server), w)
      | Some (Inr video_from_subs, w) \<Rightarrow>
          (case getVideoInfo cs server (deduplicate video_from_subs) w of
             None \<Rightarrow> None
           | Some (Inl f, w) \<Rightarrow> Some ((Inl f, server), w)
           | Some (Inr (Inl err), w) \<Rightarrow> Some (handleFallback req (countError server), w)
           | Some (Inr (Inr vids), w) \<Rightarrow>
               (case rankerVids bf srt (UserCoefficients user) vids of
                  Inl f \<Rightarrow> Some ((Inl f, server), w)
                | Inr ranked_vids \<Rightarrow>
                    Some ((go_bind (slice_to ranked_vids (limitOf req ranked_vids)) (\<lambda>vids. Inr (Inr \<lparr>Videos = vids, StaleResponse = False\<rparr>)),
                      server\<lparr>total_latency := total_latency server + (t1 - t0)\<rparr>), w))))"

definition GetTopVideos ::
    "'c blowfish \<Rightarrow> sorter \<Rightarrow> 'w clients \<Rightarrow> 64 word \<Rightarrow> 64 word \<Rightarrow> GetTopVideosRequest \<Rightarrow> VideoRecServiceServer \<Rightarrow> 'w \<Rightarrow> 'w answer" where
  "GetTopVideos bf srt cs t0 t1 req server w =
     (let server = server\<lparr>total_active_reqs := total_active_reqs server + 1, total_reqs := total_reqs server + 1\<rparr>
      in map_option (\<lambda>((r, server), w). ((r, server\<lparr>total_active_reqs := total_active_reqs server - 1\<rparr>), w))
        (case usr_GetUser cs [rq_UserId req] w of
           (Inl f, w) \<Rightarrow> Some ((Inl f, server), w)
         | (Inr (Inl err), w) \<Rightarrow> Some (handleFallback req (countError server), w)
         | (Inr (Inr []), w) \<Rightarrow> Some (handleFallback req (countError server), w)
         | (Inr (Inr (user # _)), w) \<Rightarrow> rankedAnswer bf srt cs t0 t1 req user server w))"

text \<open>The average latency is a quotient of two \<open>float32\<close> numbers; the model keeps the two counters it is the quotient of, and \<open>None\<close> for the constant 0.\<close>

record GetStatsResponse =
  TotalRequests :: "64 word"
  TotalErrors :: "64 word"
  ActiveRequests :: "64 word"
  UserServiceErrors :: "64 word"
  VideoServiceErrors :: "64 word"
  AverageLatencyMs :: "(64 word \<times> 64 word) option"
  StaleResponses :: "64 word"

definition GetStats :: "VideoRecServiceServer \<Rightarrow> GetStatsResponse" where
  "GetStats server =
     \<lparr>TotalRequests = total_reqs server, TotalErrors = total_errs server, ActiveRequests = total_active_reqs server,
      UserServiceErrors = total_usr_serv_errs server, VideoServiceErrors = total_vid_serv_errs server,
      AverageLatencyMs = (if total_reqs server > 0 then Some (total_latency server, total_reqs server) else None),
      StaleResponses = total_stale_resp server\<rparr>"

section \<open>Batches end, and what they send\<close>

function chunks :: "nat \<Rightarrow> 'a list \<Rightarrow> 'a list list" where
  "chunks n xs = (if n = 0 \<or> xs = [] then [] else take n xs # chunks n (drop n xs))"
  by pat_completeness auto
termination
  by (relation "measure (length \<circ> snd)") auto

declare chunks.simps [simp del]

primrec runBatches :: "(nat list \<Rightarrow> 's \<Rightarrow> 'w \<Rightarrow> (bool \<times> 's) go \<times> 'w) \<Rightarrow> nat list list \<Rightarrow> 's \<Rightarrow> 'w \<Rightarrow> 's go \<times> 'w" where
  "runBatches body [] s w = (Inr s, w)"
| "runBatches body (b # bs) s w =
     (case body b s w of
        (Inl f, w) \<Rightarrow> (Inl f, w)
      | (Inr (goOn, s), w) \<Rightarrow> if goOn then runBatches body bs s w else (Inr s, w))"

lemma forBatches_chunks:
  "0 < m \<Longrightarrow> forBatches (int m) ids body (int k) s w = Some (runBatches body (chunks m (drop k ids)) s w)"
proof (induction "length ids - k" arbitrary: k s w rule: less_induct)
  case less
  show ?case
  proof (cases "k < length ids")
    case True
    have sl: "slice_range ids (int k) (min (int k + int m) (int (length ids))) = Inr (take m (drop k ids))"
      using True by (auto simp: slice_range_def min_def nat_add_distrib)
    have c: "chunks m (drop k ids) = take m (drop k ids) # chunks m (drop (k + m) ids)"
      using True less.prems by (subst chunks.simps) (simp add: add.commute)
    have IH: "forBatches (int m) ids body (int k + int m) s' w' = Some (runBatches body (chunks m (drop (k + m) ids)) s' w')" for s' w'
      using less.hyps [of "k + m" s' w'] True less.prems by simp
    show ?thesis using True by (subst forBatches.simps) (auto simp: sl c IH split: prod.split sum.split)
  next
    case False
    then show ?thesis by (subst forBatches.simps) (simp add: chunks.simps)
  qed
qed

lemma forBatches_run: "0 < m \<Longrightarrow> forBatches m ids body 0 s w = Some (runBatches body (chunks (nat m) ids) s w)"
  using forBatches_chunks [of "nat m" ids body 0 s w] by simp

lemma concat_chunks: "0 < n \<Longrightarrow> concat (chunks n xs) = xs"
proof (induction n xs rule: chunks.induct)
  case (1 n xs)
  then show ?case by (subst chunks.simps) auto
qed

lemma chunks_bounds: "b \<in> set (chunks n xs) \<Longrightarrow> b \<noteq> [] \<and> length b \<le> n \<and> set b \<subseteq> set xs"
proof (induction n xs rule: chunks.induct)
  case (1 n xs)
  show ?case
  proof (cases "n = 0 \<or> xs = []")
    case True
    then show ?thesis using "1.prems" by (simp add: chunks.simps)
  next
    case False
    then consider "b = take n xs" | "b \<in> set (chunks n (drop n xs))" using "1.prems" by (subst (asm) chunks.simps) auto
    then show ?thesis
    proof cases
      case 1
      then show ?thesis using False set_take_subset [of n xs] by simp
    next
      case 2
      from "1.IH" [OF False 2] show ?thesis using set_drop_subset [of n xs] by blast
    qed
  qed
qed

lemma chunks_distinct:
  assumes "distinct xs" "b \<in> set (chunks n xs)"
  shows "distinct b"
proof -
  have "0 < n" using assms(2) by (cases n) (simp_all add: chunks.simps)
  then have "distinct (concat (chunks n xs))" using assms(1) by (simp add: concat_chunks)
  then show ?thesis using assms(2) by (simp only: distinct_concat_iff)
qed

lemma div_up:
  fixes n k :: nat
  assumes "0 < n" "0 < k"
  shows "(k + n - 1) div n = Suc ((k - n + n - 1) div n)"
proof (cases "k \<le> n")
  case True
  have "(k + n - 1) div n = (n + (k - 1)) div n" using assms(2) by (simp add: add.commute)
  also have "\<dots> = Suc ((k - 1) div n)" using div_add_self1 [of n "k - 1"] assms(1) by linarith
  finally show ?thesis using True assms by simp
next
  case False
  have "(k + n - 1) div n = (n + (k - 1)) div n" using assms(2) by (simp add: add.commute)
  also have "\<dots> = Suc ((k - 1) div n)" using div_add_self1 [of n "k - 1"] assms(1) by linarith
  finally show ?thesis using False by simp
qed

lemma length_chunks: "0 < n \<Longrightarrow> length (chunks n xs) = (length xs + n - 1) div n"
proof (induction n xs rule: chunks.induct)
  case (1 n xs)
  show ?case
  proof (cases "xs = []")
    case True
    then show ?thesis using "1.prems" by (simp add: chunks.simps)
  next
    case False
    then have "length (chunks n (drop n xs)) = (length xs - n + n - 1) div n" using "1.IH" "1.prems" by simp
    moreover have "length (chunks n xs) = Suc (length (chunks n (drop n xs)))"
      using False "1.prems" by (subst chunks.simps) simp
    ultimately show ?thesis using div_up [of n "length xs"] False "1.prems" by simp
  qed
qed

text \<open>C31: with a positive batch size every batched loop of the service ends, after as many rounds as the ids divided by the batch size, rounded up. The batches are not empty, not larger
  than the batch size, and contain every id once and in order. The loop is the fold of its body over those batches, up to a round that stops it.\<close>

theorem batches_end:
  assumes "0 < m"
  shows "forBatches m ids body 0 s w = Some (runBatches body (chunks (nat m) ids) s w) \<and> concat (chunks (nat m) ids) = ids \<and>
    (\<forall>b \<in> set (chunks (nat m) ids). b \<noteq> [] \<and> int (length b) \<le> m) \<and> length (chunks (nat m) ids) = (length ids + nat m - 1) div nat m"
proof -
  have "b \<noteq> [] \<and> int (length b) \<le> m" if "b \<in> set (chunks (nat m) ids)" for b
    using chunks_bounds [OF that] assms by auto
  with assms show ?thesis by (simp add: forBatches_run concat_chunks length_chunks)
qed

theorem batches_end_witness:
  "forBatches 2 [7, 8, 9] (\<lambda>b s w. (Inr (True, s @ [b]), w + 1)) 0 [] (0 :: nat) = Some (Inr [[7, 8], [9]], 2)"
proof -
  have "chunks 2 [7, 8, 9 :: nat] = [[7, 8], [9]]" by (simp add: chunks.simps)
  then show ?thesis using batches_end [of 2 "[7, 8, 9]" "\<lambda>b s w. (Inr (True, s @ [b]), w + 1)" "[]" "0 :: nat"] by simp
qed

lemma forBatches_stuck:
  assumes "ids \<noteq> []" "\<And>b s w. \<exists>s' w'. body b s w = (Inr (True, s'), w')"
  shows "forBatches 0 ids body 0 s w = None"
proof -
  have never: "m = 0 \<longrightarrow> i = 0 \<longrightarrow> is \<noteq> [] \<longrightarrow> \<not> (\<forall>b s w. \<exists>s' w'. bd b s w = (Inr (True, s'), w'))"
    if "forBatches m is bd i s w = Some r" for m "is" i s w r and bd :: "nat list \<Rightarrow> 'a \<Rightarrow> 'b \<Rightarrow> (bool \<times> 'a) go \<times> 'b"
  proof (rule forBatches.raw_induct [OF _ that], intro impI notI)
    fix f m i s w r and "is" :: "nat list" and bd :: "nat list \<Rightarrow> 'a \<Rightarrow> 'b \<Rightarrow> (bool \<times> 'a) go \<times> 'b"
    assume IH: "\<And>m is bd i s w r. f m is bd i s w = Some r \<Longrightarrow>
        m = 0 \<longrightarrow> i = 0 \<longrightarrow> is \<noteq> [] \<longrightarrow> \<not> (\<forall>b s w. \<exists>s' w'. bd b s w = (Inr (True, s'), w'))"
      and eq: "(if i < int (length is) then
          (case slice_range is i (min (i + m) (int (length is))) of Inl f \<Rightarrow> Some (Inl f, w)
           | Inr batch \<Rightarrow> (case bd batch s w of (Inl f, w) \<Rightarrow> Some (Inl f, w)
               | (Inr (goOn, s), w) \<Rightarrow> if goOn then f m is bd (i + m) s w else Some (Inr s, w)))
          else Some (Inr s, w)) = Some r"
      and h: "m = 0" "i = 0" "is \<noteq> []" "\<forall>b s w. \<exists>s' w'. bd b s w = (Inr (True, s'), w')"
    obtain s' w' where b: "bd [] s w = (Inr (True, s'), w')" using h(4) by blast
    have "slice_range is 0 0 = Inr []" by (simp add: slice_range_def)
    then have "f 0 is bd 0 s' w' = Some r" using eq h(1-3) b by simp
    then show False using IH h(3,4) by blast
  qed
  then show ?thesis using assms by (cases "forBatches 0 ids body 0 s w") blast+
qed

section \<open>What the service computes\<close>

lemma deduplicateLoop_props:
  "(\<And>i. seen i \<longleftrightarrow> i \<in> set nd) \<Longrightarrow> distinct nd \<Longrightarrow>
     distinct (deduplicateLoop seen nd items) \<and> set (deduplicateLoop seen nd items) = set nd \<union> set items"
  by (induction seen nd items rule: deduplicateLoop.induct) (auto simp: insert_absorb)

lemma deduplicate [simp]: "distinct (deduplicate items)" "set (deduplicate items) = set items"
  using deduplicateLoop_props [of "\<lambda>_. False" "[]" items] by (simp_all add: deduplicate_def)

lemma subscribed_run:
  assumes "\<And>b w. b \<in> set bs \<Longrightarrow> fst (usr_GetUser cs b w) = Inr (Inr (map g b))"
  shows "fst (runBatches (subscribedBatch cs) bs acc w) = Inr (acc @ concat (map (LikedVideos \<circ> g) (concat bs)))"
  using assms
proof (induction bs arbitrary: acc w)
  case (Cons b bs)
  obtain w' where "usr_GetUser cs b w = (Inr (Inr (map g b)), w')" using Cons.prems [of b w] by (cases "usr_GetUser cs b w") auto
  then show ?case using Cons by (simp add: subscribedBatch_def comp_def)
qed simp

lemma info_run:
  assumes "\<And>b w. b \<in> set bs \<Longrightarrow> fst (vid_GetVideo cs b w) = Inr (Inr (map g b))"
  shows "fst (runBatches (infoBatch cs) bs (Inr acc) w) = Inr (Inr (acc @ map g (concat bs)))"
  using assms
proof (induction bs arbitrary: acc w)
  case (Cons b bs)
  obtain w' where "vid_GetVideo cs b w = (Inr (Inr (map g b)), w')" using Cons.prems [of b w] by (cases "vid_GetVideo cs b w") auto
  then show ?case using Cons by (simp add: infoBatch_def)
qed simp

lemma scoreAll_ok: "blowfish_ok bf \<Longrightarrow> scoreAll bf u vids = Inr (map (\<lambda>v. (v, score bf u (VideoCoefficients v))) vids)"
  by (induction vids) (simp_all add: Rank_score)

text \<open>\<open>by_score\<close>: no video comes before one with a greater score.\<close>

abbreviation by_score :: "'c blowfish \<Rightarrow> coeffs \<Rightarrow> VideoInfo list \<Rightarrow> bool" where
  "by_score bf u \<equiv> sorted_wrt (\<lambda>a b. score bf u (VideoCoefficients a) \<ge> score bf u (VideoCoefficients b))"

lemma rankerVids_ok:
  assumes "blowfish_ok bf" "sort_ok srt"
  shows "\<exists>ranked. rankerVids bf srt u vids = Inr ranked \<and> mset ranked = mset vids \<and> by_score bf u ranked"
proof -
  let ?xs = "map (\<lambda>v. (v, score bf u (VideoCoefficients v))) vids"
  have s: "mset (srt ?xs) = mset ?xs" "sorted_wrt (\<lambda>a b. snd a \<ge> snd b) (srt ?xs)" using assms(2) by (simp_all add: sort_ok_def)
  have "set (srt ?xs) = set ?xs" by (rule mset_eq_setD [OF s(1)])
  then have sn: "snd p = score bf u (VideoCoefficients (fst p))" if "p \<in> set (srt ?xs)" for p using that by auto
  have "mset (map fst (srt ?xs)) = mset (map fst ?xs)" unfolding mset_map s(1) ..
  then have "mset (map fst (srt ?xs)) = mset vids" by (simp only: map_map comp_def fst_conv map_ident)
  moreover have "by_score bf u (map fst (srt ?xs))"
    unfolding sorted_wrt_map by (rule sorted_wrt_mono_rel [OF _ s(2)]) (simp add: sn)
  ultimately show ?thesis using assms(1) by (simp add: rankerVids_def scoreAll_ok)
qed

text \<open>What gRPC delivers: the answer of the handler on the other side, where that does not depend on the random numbers of the failure injection.\<close>

definition user_rpc :: "'w clients \<Rightarrow> UserServiceServer \<Rightarrow> bool" where
  "user_rpc cs us \<longleftrightarrow> (\<forall>ids w r. (\<forall>r1 r2. GetUser r1 r2 us ids = Inr r) \<longrightarrow> fst (usr_GetUser cs ids w) = Inr r)"

definition video_rpc :: "'w clients \<Rightarrow> VideoServiceServer \<Rightarrow> bool" where
  "video_rpc cs vs \<longleftrightarrow> (\<forall>ids w r. (\<forall>r1 r2. GetVideo r1 r2 vs ids = Inr r) \<longrightarrow> fst (vid_GetVideo cs ids w) = Inr r)"

definition quiet :: "InjectionConfig \<Rightarrow> bool" where
  "quiet config \<longleftrightarrow> FailureRate config = 0 \<and> ResponseOmissionRate config = 0"

lemma subscribed_ok:
  assumes "user_rpc cs us" "quiet (us_fi us)" "0 < MaxBatchSize (options server)" "MaxBatchSize (options server) \<le> us_MaxBatchSize (us_options us)"
    "set ids \<subseteq> dom (us_users us)"
  shows "\<exists>w'. getSubscribedVideos cs server ids w = Some (Inr (concat (map (LikedVideos \<circ> (the \<circ> us_users us)) ids)), w')"
proof -
  let ?m = "MaxBatchSize (options server)" let ?bs = "chunks (nat ?m) ids"
  have "fst (usr_GetUser cs b w) = Inr (Inr (map (the \<circ> us_users us) b))" if "b \<in> set ?bs" for b w
  proof -
    have "GetUser r1 r2 us b = Inr (Inr (map (the \<circ> us_users us) b))" for r1 r2
      using chunks_bounds [OF that] assms(2-5) by (intro GetUser_ok) (auto simp: quiet_def)
    then show ?thesis using assms(1) by (simp add: user_rpc_def)
  qed
  from subscribed_run [OF this, of ?bs "[]" w] show ?thesis
    using assms(3) by (cases "runBatches (subscribedBatch cs) ?bs [] w") (simp add: getSubscribedVideos_def forBatches_run concat_chunks)
qed

lemma info_ok:
  assumes "video_rpc cs vs" "quiet (vs_fi vs)" "0 < MaxBatchSize (options server)" "MaxBatchSize (options server) \<le> vs_MaxBatchSize (vs_options vs)"
    "set ids \<subseteq> dom (vs_videos vs)" "distinct ids"
  shows "\<exists>w'. getVideoInfo cs server ids w = Some (Inr (Inr (map (the \<circ> vs_videos vs) ids)), w')"
proof -
  let ?m = "MaxBatchSize (options server)" let ?bs = "chunks (nat ?m) ids"
  have "fst (vid_GetVideo cs b w) = Inr (Inr (map (the \<circ> vs_videos vs) b))" if "b \<in> set ?bs" for b w
  proof -
    have "GetVideo r1 r2 vs b = Inr (Inr (map (the \<circ> vs_videos vs) b))" for r1 r2
      using chunks_bounds [OF that] chunks_distinct [OF assms(6) that] assms(2-5) by (intro GetVideo_ok) (auto simp: quiet_def)
    then show ?thesis using assms(1) by (simp add: video_rpc_def)
  qed
  from info_run [OF this, of ?bs "[]" w] show ?thesis
    using assms(3) by (cases "runBatches (infoBatch cs) ?bs (Inr []) w") (simp add: getVideoInfo_def forBatches_run concat_chunks)
qed

lemma limit_slice: "0 \<le> Limit req \<Longrightarrow> slice_to vids (limitOf req vids) = Inr (take (if Limit req = 0 then length vids else nat (Limit req)) vids)"
  by (simp add: limitOf_def slice_to_def)

text \<open>\<open>personalised\<close>: the handler returned, with the videos liked by someone the user subscribes to, each once, ordered by decreasing score and cut to the limit if there is one, and
  the server has counted the request and its latency and nothing else.\<close>

definition personalised ::
    "'c blowfish \<Rightarrow> UserServiceServer \<Rightarrow> VideoServiceServer \<Rightarrow> UserInfo \<Rightarrow> 64 word \<Rightarrow> GetTopVideosRequest \<Rightarrow> VideoRecServiceServer \<Rightarrow> 'w answer \<Rightarrow> bool" where
  "personalised bf us vs user ms req server a \<longleftrightarrow> (\<exists>ids ranked w'. a =
      Some ((Inr (Inr \<lparr>Videos = take (if Limit req = 0 then length ranked else nat (Limit req)) ranked, StaleResponse = False\<rparr>),
        server\<lparr>total_reqs := total_reqs server + 1, total_latency := total_latency server + ms\<rparr>), w') \<and>
    distinct ids \<and> set ids = \<Union> (set ` LikedVideos ` the ` us_users us ` set (SubscribedTo user)) \<and>
    mset ranked = mset (map (the \<circ> vs_videos vs) ids) \<and> by_score bf (UserCoefficients user) ranked)"

lemma personalised_answer:
  assumes "blowfish_ok bf" "sort_ok srt" "user_rpc cs us" "video_rpc cs vs" "quiet (us_fi us)" "quiet (vs_fi vs)"
    "0 < MaxBatchSize (options server)" "MaxBatchSize (options server) \<le> us_MaxBatchSize (us_options us)"
    "MaxBatchSize (options server) \<le> vs_MaxBatchSize (vs_options vs)"
    "us_users us (rq_UserId req) = Some user" "set (SubscribedTo user) \<subseteq> dom (us_users us)"
    "\<Union> (set ` LikedVideos ` the ` us_users us ` set (SubscribedTo user)) \<subseteq> dom (vs_videos vs)" "0 \<le> Limit req"
  shows "personalised bf us vs user (t1 - t0) req server (GetTopVideos bf srt cs t0 t1 req server w)"
proof -
  let ?s = "server\<lparr>total_active_reqs := total_active_reqs server + 1, total_reqs := total_reqs server + 1\<rparr>"
  let ?liked = "concat (map (LikedVideos \<circ> (the \<circ> us_users us)) (SubscribedTo user))" let ?ids = "deduplicate ?liked"
  have "GetUser r1 r2 us [rq_UserId req] = Inr (Inr (map (the \<circ> us_users us) [rq_UserId req]))" for r1 r2
    using assms(5,7,8,10) by (intro GetUser_ok) (auto simp: quiet_def)
  then have "fst (usr_GetUser cs [rq_UserId req] w) = Inr (Inr [user])" using assms(3,10) by (simp add: user_rpc_def)
  then obtain w1 where w1: "usr_GetUser cs [rq_UserId req] w = (Inr (Inr [user]), w1)" by (metis prod.collapse)
  obtain w2 where w2: "getSubscribedVideos cs ?s (SubscribedTo user) w1 = Some (Inr ?liked, w2)"
    using subscribed_ok [OF assms(3,5), of ?s "SubscribedTo user" w1] assms(7,8,11) by auto
  have set_ids: "set ?ids = \<Union> (set ` LikedVideos ` the ` us_users us ` set (SubscribedTo user))" by (simp add: image_image)
  obtain w3 where w3: "getVideoInfo cs ?s ?ids w2 = Some (Inr (Inr (map (the \<circ> vs_videos vs) ?ids)), w3)"
    using info_ok [OF assms(4,6), of ?s ?ids w2] assms(7,9,12) set_ids by auto
  obtain ranked where r: "rankerVids bf srt (UserCoefficients user) (map (the \<circ> vs_videos vs) ?ids) = Inr ranked"
      "mset ranked = mset (map (the \<circ> vs_videos vs) ?ids)" "by_score bf (UserCoefficients user) ranked"
    using rankerVids_ok [OF assms(1,2)] by blast
  have g: "GetTopVideos bf srt cs t0 t1 req server w =
      Some ((Inr (Inr \<lparr>Videos = take (if Limit req = 0 then length ranked else nat (Limit req)) ranked, StaleResponse = False\<rparr>),
        server\<lparr>total_reqs := total_reqs server + 1, total_latency := total_latency server + (t1 - t0)\<rparr>), w3)"
    by (simp add: GetTopVideos_def Let_def rankedAnswer_def w1 w2 w3 r(1) limit_slice [OF assms(13)])
  show ?thesis unfolding personalised_def
    by (rule exI [of _ ?ids], rule exI [of _ ranked], rule exI [of _ w3]) (intro conjI g deduplicate(1) set_ids r(2,3))
qed

text \<open>C30: the answer of the recommendation service when both services work. If their data are consistent and the batch size is positive and within their limits, a request for
  a known user ends with a personalised answer: each video that someone the user subscribes to likes, once, ordered by decreasing score and cut to the limit if there is one. The request is
  counted with its latency, and no error and no stale response is.\<close>

theorem top_videos_ranked:
  assumes "blowfish_ok bf" "sort_ok srt" "user_rpc cs us" "video_rpc cs vs" "quiet (us_fi us)" "quiet (vs_fi vs)"
    "0 < MaxBatchSize (options server)" "MaxBatchSize (options server) \<le> us_MaxBatchSize (us_options us)"
    "MaxBatchSize (options server) \<le> vs_MaxBatchSize (vs_options vs)"
    "us_users us (rq_UserId req) = Some user" "set (SubscribedTo user) \<subseteq> dom (us_users us)"
    "\<Union> (set ` LikedVideos ` the ` us_users us ` set (SubscribedTo user)) \<subseteq> dom (vs_videos vs)" "0 \<le> Limit req"
  shows "personalised bf us vs user (t1 - t0) req server (GetTopVideos bf srt cs t0 t1 req server w)"
  using assms by (rule personalised_answer)

text \<open>The calls of the clients return, with a response or an error.\<close>

definition calls_return :: "'w clients \<Rightarrow> bool" where
  "calls_return cs \<longleftrightarrow>
     (\<forall>ids w. (\<exists>r w'. usr_GetUser cs ids w = (Inr r, w')) \<and> (\<exists>r w'. vid_GetVideo cs ids w = (Inr r, w')))"

lemma subscribed_total:
  assumes "calls_return cs"
  shows "\<exists>ids w'. runBatches (subscribedBatch cs) bs acc w = (Inr ids, w')"
proof (induction bs arbitrary: acc w)
  case (Cons b bs)
  obtain r w' where r: "usr_GetUser cs b w = (Inr r, w')" using assms unfolding calls_return_def by blast
  then show ?case using Cons.IH by (cases r) (simp_all add: subscribedBatch_def)
qed simp

lemma info_total:
  assumes "calls_return cs"
  shows "\<exists>r w'. runBatches (infoBatch cs) bs acc w = (Inr r, w')"
proof (induction bs arbitrary: acc w)
  case (Cons b bs)
  obtain r w' where r: "vid_GetVideo cs b w = (Inr r, w')" using assms unfolding calls_return_def by blast
  then show ?case using Cons.IH by (cases r) (simp_all add: infoBatch_def)
qed simp

text \<open>The fallback answer, and how it is counted.\<close>

definition fallback_answer :: "GetTopVideosRequest \<Rightarrow> VideoRecServiceServer \<Rightarrow> (code + GetTopVideosResponse) \<Rightarrow> VideoRecServiceServer \<Rightarrow> bool" where
  "fallback_answer req server r server' \<longleftrightarrow>
     (if DisableFallback (options server)
      then r = Inl Unavailable \<and> server' = server\<lparr>total_reqs := total_reqs server + 1,
        total_usr_serv_errs := total_usr_serv_errs server + 1, total_errs := total_errs server + 1\<rparr>
      else (let vids = videos (trending_vids server) in
        r = Inr \<lparr>Videos = take (if Limit req = 0 then length vids else nat (Limit req)) vids, StaleResponse = True\<rparr> \<and>
        server' = server\<lparr>total_reqs := total_reqs server + 1, total_stale_resp := total_stale_resp server + 1\<rparr>))"

definition fresh_answer :: "64 word \<Rightarrow> 64 word \<Rightarrow> VideoRecServiceServer \<Rightarrow> (code + GetTopVideosResponse) \<Rightarrow> VideoRecServiceServer \<Rightarrow> bool" where
  "fresh_answer t0 t1 server r server' \<longleftrightarrow> (\<exists>vids. r = Inr \<lparr>Videos = vids, StaleResponse = False\<rparr>) \<and>
     server' = server\<lparr>total_reqs := total_reqs server + 1, total_latency := total_latency server + (t1 - t0)\<rparr>"

abbreviation begun :: "VideoRecServiceServer \<Rightarrow> VideoRecServiceServer" where
  "begun server \<equiv> server\<lparr>total_active_reqs := total_active_reqs server + 1, total_reqs := total_reqs server + 1\<rparr>"

abbreviation ended :: "VideoRecServiceServer \<Rightarrow> VideoRecServiceServer" where
  "ended server \<equiv> server\<lparr>total_active_reqs := total_active_reqs server - 1\<rparr>"

lemma fallback:
  assumes "0 \<le> Limit req"
  shows "\<exists>r s'. handleFallback req (countError (begun server)) = (Inr r, s') \<and> fallback_answer req server r (ended s')"
  using assms by (simp add: handleFallback_def countError_def fallback_answer_def Let_def limit_slice)

lemma rankedAnswer_ok:
  assumes "blowfish_ok bf" "sort_ok srt" "calls_return cs" "0 < MaxBatchSize (options server)" "0 \<le> Limit req"
  shows "\<exists>r s' w'. rankedAnswer bf srt cs t0 t1 req user (begun server) w = Some ((Inr r, s'), w') \<and>
    (fresh_answer t0 t1 server r (ended s') \<or> fallback_answer req server r (ended s'))"
proof -
  obtain ids w2 where "runBatches (subscribedBatch cs) (chunks (nat (MaxBatchSize (options server))) (SubscribedTo user)) [] w = (Inr ids, w2)"
    using subscribed_total [OF assms(3)] by blast
  then have w2: "getSubscribedVideos cs (begun server) (SubscribedTo user) w = Some (Inr ids, w2)"
    using assms(4) by (simp add: getSubscribedVideos_def forBatches_run)
  obtain r3 w3 where "runBatches (infoBatch cs) (chunks (nat (MaxBatchSize (options server))) (deduplicate ids)) (Inr []) w2 = (Inr r3, w3)"
    using info_total [OF assms(3)] by blast
  then have w3: "getVideoInfo cs (begun server) (deduplicate ids) w2 = Some (Inr r3, w3)"
    using assms(4) by (simp add: getVideoInfo_def forBatches_run)
  show ?thesis
  proof (cases r3)
    case (Inl e)
    obtain r s' where "handleFallback req (countError (begun server)) = (Inr r, s')" "fallback_answer req server r (ended s')"
      using fallback [OF assms(5)] by blast
    with Inl show ?thesis by (simp add: rankedAnswer_def w2 w3)
  next
    case (Inr vids)
    obtain rk where "rankerVids bf srt (UserCoefficients user) vids = Inr rk" using rankerVids_ok [OF assms(1,2)] by blast
    with Inr show ?thesis by (simp add: rankedAnswer_def w2 w3 limit_slice [OF assms(5)] fresh_answer_def)
  qed
qed

text \<open>C29: the recommendation service always answers, and what it counts. With a positive batch size, a limit that is not negative and clients whose calls return, whatever errors they return, every request ends
  in one of two ways. It gets a fresh answer, whose latency is added; or it gets the fallback, which is the cached trending videos up to the limit, marked and counted as stale, or the error \<open>Unavailable\<close> if the fallback is
  disabled, counted as one error. In either case the request is counted and the active requests are what they were, as the statistics are described. Three things the theorem shows are not as described: a call to
  a service that fails is not counted as such while the fallback is enabled; if it is disabled, the failure is counted as one of the user service, also if it was one of the video service; and an answer by fallback
  adds no latency, although the average is taken over all requests.\<close>

theorem top_videos_answers:
  assumes "blowfish_ok bf" "sort_ok srt" "calls_return cs" "0 < MaxBatchSize (options server)" "0 \<le> Limit req"
  shows "\<exists>r server' w'. GetTopVideos bf srt cs t0 t1 req server w = Some ((Inr r, server'), w') \<and>
    (fresh_answer t0 t1 server r server' \<or> fallback_answer req server r server')"
proof -
  obtain r1 w1 where w1: "usr_GetUser cs [rq_UserId req] w = (Inr r1, w1)" using assms(3) unfolding calls_return_def by blast
  consider (user) user rest where "r1 = Inr (user # rest)" | (none) "r1 = Inr []" | (error) e where "r1 = Inl e"
    by (metis list.exhaust obj_sumE)
  then show ?thesis
  proof cases
    case user
    obtain r s' w' where "rankedAnswer bf srt cs t0 t1 req user (begun server) w1 = Some ((Inr r, s'), w')"
        "fresh_answer t0 t1 server r (ended s') \<or> fallback_answer req server r (ended s')"
      using rankedAnswer_ok [OF assms] by blast
    then show ?thesis by (simp add: GetTopVideos_def Let_def w1 user)
  next
    case none
    then show ?thesis using fallback [OF assms(5), of server] by (auto simp: GetTopVideos_def Let_def w1)
  next
    case error
    then show ?thesis using fallback [OF assms(5), of server] by (auto simp: GetTopVideos_def Let_def w1)
  qed
qed

text \<open>A batch size that is not positive. For a user with subscriptions a batch size of 0 makes the request run forever, with empty batches, and a negative one panics
  on the bounds of a slice.\<close>

theorem batch_size_not_positive:
  assumes "calls_return cs" "usr_GetUser cs [rq_UserId req] w = (Inr (Inr (user # rest)), w1)" "SubscribedTo user \<noteq> []"
    "MaxBatchSize (options server) \<le> 0"
  shows "GetTopVideos bf srt cs t0 t1 req server w =
    (if MaxBatchSize (options server) = 0 then None
     else Some ((Inl IndexOutOfRange, server\<lparr>total_reqs := total_reqs server + 1\<rparr>), w1))"
proof (cases "MaxBatchSize (options server) = 0")
  case True
  have "\<exists>s' w'. subscribedBatch cs b s w = (Inr (True, s'), w')" for b s w
  proof -
    obtain r w' where "usr_GetUser cs b w = (Inr r, w')" using assms(1) unfolding calls_return_def by blast
    then show ?thesis by (cases r) (simp_all add: subscribedBatch_def)
  qed
  from forBatches_stuck [OF assms(3) this] True have "getSubscribedVideos cs (begun server) (SubscribedTo user) w1 = None"
    by (simp add: getSubscribedVideos_def)
  with True show ?thesis by (simp add: GetTopVideos_def Let_def assms(2) rankedAnswer_def)
next
  case False
  then have "slice_range (SubscribedTo user) 0 (min (MaxBatchSize (options server)) (int (length (SubscribedTo user)))) = Inl IndexOutOfRange"
    using assms(4) by (simp add: slice_range_def)
  then have "getSubscribedVideos cs (begun server) (SubscribedTo user) w1 = Some (Inl IndexOutOfRange, w1)"
    using assms(3) unfolding getSubscribedVideos_def by (subst forBatches.simps) simp
  with False show ?thesis by (simp add: GetTopVideos_def Let_def assms(2) rankedAnswer_def)
qed

text \<open>The statistics never show an error of the video service. Whatever happens, the counter behind \<open>VideoServiceErrors\<close> stays what it was, even when the request failed because the video service
  did; such a failure is counted as one of the user service, and only if the fallback is disabled.\<close>

theorem video_errors_not_counted:
  assumes "0 \<le> Limit req" "usr_GetUser cs [rq_UserId req] w = (Inr (Inr (user # rest)), w1)"
    "getSubscribedVideos cs server (SubscribedTo user) w1 = Some (Inr ids, w2)"
    "getVideoInfo cs server (deduplicate ids) w2 = Some (Inr (Inl err), w3)"
  shows "\<exists>r server'. GetTopVideos bf srt cs t0 t1 req server w = Some ((Inr r, server'), w3) \<and>
    VideoServiceErrors (GetStats server') = VideoServiceErrors (GetStats server) \<and>
    UserServiceErrors (GetStats server') = UserServiceErrors (GetStats server) + (if DisableFallback (options server) then 1 else 0)"
proof -
  have s: "getSubscribedVideos cs (begun server) (SubscribedTo user) w1 = Some (Inr ids, w2)"
      "getVideoInfo cs (begun server) (deduplicate ids) w2 = Some (Inr (Inl err), w3)"
    using assms(3,4) by (simp_all add: getSubscribedVideos_def getVideoInfo_def)
  show ?thesis
    by (cases "DisableFallback (options server)")
      (simp_all add: GetTopVideos_def Let_def assms(2) rankedAnswer_def s handleFallback_def countError_def limit_slice [OF assms(1)] GetStats_def)
qed

text \<open>The trending videos outlive their expiration. The video service sends the time at which they expire, and the recommendation service adds it to its clock. So videos fetched
  at time \<open>now\<close> with a time to live of \<open>ttl\<close> seconds are kept, whatever the calls of the refresher, up to the time \<open>2 * now + ttl\<close>, which is decades later.\<close>

theorem trending_outlives_expiration:
  assumes "GetTrendingVideos r1 r2 now vs = Inr (Inr resp)" "vid_GetTrendingVideos cs w = (Inr (Inr resp), w1)"
    "timeout (trending_vids server) < now" "refreshTrendingVideos cs now now server w = Some (Inr server', w')"
    "t \<le> 2 * now + TtlSeconds (vs_options vs)"
  shows "refreshTrendingVideos cs t t' server' w2 = Some (Inr server', w2)"
proof -
  have e: "ExpirationTimeS resp = now + TtlSeconds (vs_options vs)"
    using assms(1) by (cases "MaybeInject r1 r2 (vs_fi vs)") (auto simp: GetTrendingVideos_def split: if_splits)
  have "timeout (trending_vids server') = now + ExpirationTimeS resp"
    using assms(2-4) by (auto simp: refreshTrendingVideos_def split: option.splits sum.splits prod.splits)
  then show ?thesis using e assms(5) by (simp add: refreshTrendingVideos_def)
qed

section \<open>A small installation\<close>

definition sampleSort :: sorter where
  "sampleSort xs = rev (sort_key snd xs)"

lemma sampleSort_ok: "sort_ok sampleSort"
proof -
  have "sorted (map snd (sort_key snd xs))" for xs :: "(VideoInfo \<times> 64 word) list" by simp
  then show ?thesis by (simp add: sort_ok_def sampleSort_def sorted_wrt_rev sorted_map)
qed

definition sampleUser :: "nat \<Rightarrow> nat list \<Rightarrow> nat list \<Rightarrow> UserInfo" where
  "sampleUser i subs likes = \<lparr>ui_UserId = i, Email = [], ProfileUrl = [], Username = [], UserCoefficients = [(1, 2)], SubscribedTo = subs,
     LikedVideos = likes\<rparr>"

definition sampleVideo :: "nat \<Rightarrow> VideoInfo" where
  "sampleVideo i = \<lparr>vi_VideoId = i, Title = [], Url = [], Author = [], VideoCoefficients = [(1, of_nat i)]\<rparr>"

definition sampleUsers :: UserServiceServer where
  "sampleUsers = \<lparr>us_options = DefaultUserServiceOptions, us_fi = MakeFailureInjector,
     us_users = [1 \<mapsto> sampleUser 1 [2, 3] [], 2 \<mapsto> sampleUser 2 [] [7, 8], 3 \<mapsto> sampleUser 3 [] [8]]\<rparr>"

definition sampleVideos :: VideoServiceServer where
  "sampleVideos = \<lparr>vs_options = DefaultVideoServiceOptions, vs_fi = MakeFailureInjector,
     vs_videos = [7 \<mapsto> sampleVideo 7, 8 \<mapsto> sampleVideo 8], topVideos = [8]\<rparr>"

definition sampleClients :: "VideoServiceServer \<Rightarrow> unit clients" where
  "sampleClients vs = \<lparr>usr_GetUser = (\<lambda>ids w. (GetUser 1 1 sampleUsers ids, w)), vid_GetVideo = (\<lambda>ids w. (GetVideo 1 1 vs ids, w)),
     vid_GetTrendingVideos = (\<lambda>w. (GetTrendingVideos 1 1 1700000000 vs, w))\<rparr>"

definition sampleOptions :: "int \<Rightarrow> VideoRecServiceOptions" where
  "sampleOptions n = \<lparr>UserServiceAddr = ''u'', VideoServiceAddr = ''v'', MaxBatchSize = n, DisableFallback = False, DisableRetry = False\<rparr>"

lemmas sample_defs = sampleUser_def sampleVideo_def sampleUsers_def sampleVideos_def sampleClients_def sampleOptions_def emptyServer_def
  MakeFailureInjector_def DefaultUserServiceOptions_def DefaultVideoServiceOptions_def quiet_def

lemma sample_calls:
  "quiet (vs_fi vs) \<Longrightarrow> calls_return (sampleClients vs)"
  by (simp add: calls_return_def sampleClients_def GetUser_def GetVideo_def no_injection quiet_def sampleUsers_def MakeFailureInjector_def)

theorem top_videos_ranked_witness:
  "\<exists>ids ranked w'. GetTopVideos rotation sampleSort (sampleClients sampleVideos) 10 25 \<lparr>rq_UserId = 1, Limit = 1\<rparr> (emptyServer (sampleOptions 2)) () =
      Some ((Inr (Inr \<lparr>Videos = take 1 ranked, StaleResponse = False\<rparr>), (emptyServer (sampleOptions 2))\<lparr>total_reqs := 1, total_latency := 15\<rparr>), w') \<and>
    distinct ids \<and> set ids = {7, 8} \<and> mset ranked = mset (map (the \<circ> vs_videos sampleVideos) ids)"
proof -
  have r: "user_rpc (sampleClients sampleVideos) sampleUsers" "video_rpc (sampleClients sampleVideos) sampleVideos"
    by (simp_all add: user_rpc_def video_rpc_def sampleClients_def)
  have d: "quiet (us_fi sampleUsers)" "quiet (vs_fi sampleVideos)" "0 < MaxBatchSize (options (emptyServer (sampleOptions 2)))"
      "MaxBatchSize (options (emptyServer (sampleOptions 2))) \<le> us_MaxBatchSize (us_options sampleUsers)"
      "MaxBatchSize (options (emptyServer (sampleOptions 2))) \<le> vs_MaxBatchSize (vs_options sampleVideos)"
      "us_users sampleUsers (rq_UserId \<lparr>rq_UserId = 1, Limit = 1\<rparr>) = Some (sampleUser 1 [2, 3] [])"
      "set (SubscribedTo (sampleUser 1 [2, 3] [])) \<subseteq> dom (us_users sampleUsers)"
      "\<Union> (set ` LikedVideos ` the ` us_users sampleUsers ` set (SubscribedTo (sampleUser 1 [2, 3] []))) \<subseteq> dom (vs_videos sampleVideos)"
      "0 \<le> Limit \<lparr>rq_UserId = 1, Limit = 1\<rparr>"
    by (simp_all add: sample_defs)
  have set: "\<Union> (set ` LikedVideos ` the ` us_users sampleUsers ` set (SubscribedTo (sampleUser 1 [2, 3] []))) = {7, 8}" by (auto simp: sample_defs)
  show ?thesis using top_videos_ranked [OF rotation_ok sampleSort_ok r d, of 25 10 "()"] unfolding personalised_def set by (auto simp: emptyServer_def)
qed

text \<open>The video service answers every call with an error.\<close>

definition brokenVideos :: VideoServiceServer where
  "brokenVideos = \<lparr>vs_options = DefaultVideoServiceOptions, vs_fi = MakeFailureInjector, vs_videos = Map.empty, topVideos = []\<rparr>"

theorem top_videos_answers_witness:
  "\<exists>r server' w'. GetTopVideos rotation sampleSort (sampleClients brokenVideos) 10 25 \<lparr>rq_UserId = 4, Limit = 1\<rparr> (emptyServer (sampleOptions 2)) () =
      Some ((Inr r, server'), w') \<and> total_active_reqs server' = 0"
proof -
  have "calls_return (sampleClients brokenVideos)" by (rule sample_calls) (simp add: brokenVideos_def MakeFailureInjector_def quiet_def)
  from top_videos_answers [OF rotation_ok sampleSort_ok this, of "emptyServer (sampleOptions 2)" "\<lparr>rq_UserId = 4, Limit = 1\<rparr>" 10 25 "()"]
  show ?thesis by (auto simp: fresh_answer_def fallback_answer_def Let_def sample_defs)
qed

theorem batch_size_not_positive_witness:
  "GetTopVideos rotation sampleSort (sampleClients sampleVideos) 10 25 \<lparr>rq_UserId = 1, Limit = 1\<rparr> (emptyServer (sampleOptions 0)) () = None"
proof -
  have c: "calls_return (sampleClients sampleVideos)" by (rule sample_calls) (simp add: sample_defs)
  have u: "usr_GetUser (sampleClients sampleVideos) [rq_UserId \<lparr>rq_UserId = 1, Limit = 1\<rparr>] () = (Inr (Inr [sampleUser 1 [2, 3] []]), ())"
    by (simp add: sampleClients_def GetUser_def no_injection sampleUsers_def MakeFailureInjector_def DefaultUserServiceOptions_def)
  show ?thesis using batch_size_not_positive [OF c u, of "emptyServer (sampleOptions 0)"] by (simp add: sample_defs)
qed

theorem video_errors_not_counted_witness:
  "\<exists>r server'. GetTopVideos rotation sampleSort (sampleClients brokenVideos) 10 25 \<lparr>rq_UserId = 1, Limit = 1\<rparr> (emptyServer (sampleOptions 5)) () =
     Some ((Inr r, server'), ()) \<and> VideoServiceErrors (GetStats server') = 0"
proof -
  have u: "usr_GetUser (sampleClients brokenVideos) [rq_UserId \<lparr>rq_UserId = 1, Limit = 1\<rparr>] () = (Inr (Inr [sampleUser 1 [2, 3] []]), ())"
    by (simp add: sampleClients_def GetUser_def no_injection sampleUsers_def MakeFailureInjector_def DefaultUserServiceOptions_def)
  have s: "getSubscribedVideos (sampleClients brokenVideos) (emptyServer (sampleOptions 5)) (SubscribedTo (sampleUser 1 [2, 3] [])) () = Some (Inr [7, 8, 8], ())"
    by (simp add: getSubscribedVideos_def forBatches_run emptyServer_def sampleOptions_def sampleUser_def chunks.simps subscribedBatch_def sampleClients_def
      GetUser_def no_injection sampleUsers_def MakeFailureInjector_def DefaultUserServiceOptions_def)
  have i: "getVideoInfo (sampleClients brokenVideos) (emptyServer (sampleOptions 5)) (deduplicate [7, 8, 8]) () = Some (Inr (Inl NotFound), ())"
    by (simp add: getVideoInfo_def forBatches_run emptyServer_def sampleOptions_def deduplicate_def chunks.simps infoBatch_def sampleClients_def
      GetVideo_def no_injection brokenVideos_def MakeFailureInjector_def DefaultVideoServiceOptions_def deduplicateIds_def)
  show ?thesis using video_errors_not_counted [OF _ u s i, of rotation sampleSort 10 25] by (auto simp: GetStats_def emptyServer_def)
qed

theorem trending_outlives_expiration_witness:
  "\<exists>server'. refreshTrendingVideos (sampleClients sampleVideos) 1700000000 1700000000 (emptyServer (sampleOptions 5)) () = Some (Inr server', ()) \<and>
     refreshTrendingVideos (sampleClients sampleVideos) 3400000000 3400000000 server' () = Some (Inr server', ())"
proof -
  have t: "GetTrendingVideos 1 1 1700000000 sampleVideos =
      Inr (Inr \<lparr>gt_Videos = [8], ExpirationTimeS = 1700000000 + TtlSeconds DefaultVideoServiceOptions\<rparr>)"
    by (simp add: GetTrendingVideos_def no_injection sampleVideos_def MakeFailureInjector_def)
  then have c: "vid_GetTrendingVideos (sampleClients sampleVideos) () =
      (Inr (Inr \<lparr>gt_Videos = [8], ExpirationTimeS = 1700000000 + TtlSeconds DefaultVideoServiceOptions\<rparr>), ())" by (simp add: sampleClients_def)
  have v: "vid_GetVideo (sampleClients sampleVideos) [8] () = (Inr (Inr [sampleVideo 8]), ())"
    by (simp add: sampleClients_def GetVideo_def no_injection sampleVideos_def MakeFailureInjector_def DefaultVideoServiceOptions_def deduplicateIds_def)
  obtain s' where s: "refreshTrendingVideos (sampleClients sampleVideos) 1700000000 1700000000 (emptyServer (sampleOptions 5)) () = Some (Inr s', ())"
    by (simp add: refreshTrendingVideos_def c emptyServer_def forBatches_run sampleOptions_def chunks.simps trendingBatch_def v)
  have "refreshTrendingVideos (sampleClients sampleVideos) 3400000000 3400000000 s' () = Some (Inr s', ())"
    by (rule trending_outlives_expiration [OF t c _ s]) (simp_all add: emptyServer_def sampleVideos_def DefaultVideoServiceOptions_def)
  with s show ?thesis by blast
qed
end
