(* ===== verification/Lab1_Mocks.thy ===== *)
theory Lab1_Mocks
  imports Lab1_VideoRec
begin

text \<open>
  The mock clients (\<open>lab1/user_service/mock_client/mock_client.go\<close> and \<open>lab1/video_service/mock_client/mock_client.go\<close>), which call a service in the same process, and the whole
  recommendation system put together with them. \<open>rnd\<close> is the sequence of random numbers that the failure injection draws; the world of the clients is the position in it.
\<close>

record MockUserServiceClient =
  um_inMemServer :: UserServiceServer

record MockVideoServiceClient =
  vm_inMemServer :: VideoServiceServer

definition MakeMockUserServiceClient ::
    "(int \<Rightarrow> 'r) \<Rightarrow> (nat \<Rightarrow> ('r, nat) state) \<Rightarrow> (nat \<Rightarrow> string) \<Rightarrow> (nat \<Rightarrow> string) \<Rightarrow> UserServiceOptions \<Rightarrow> MockUserServiceClient" where
  "MakeMockUserServiceClient seed intn email username opts = \<lparr>um_inMemServer = MakeUserServiceServer seed intn email username opts\<rparr>"

definition MakeMockVideoServiceClient :: "(int \<Rightarrow> 'r) \<Rightarrow> (nat \<Rightarrow> ('r, nat) state) \<Rightarrow> faker \<Rightarrow> VideoServiceOptions \<Rightarrow> MockVideoServiceClient" where
  "MakeMockVideoServiceClient seed intn fk opts = \<lparr>vm_inMemServer = MakeVideoServiceServer seed intn fk opts\<rparr>"

definition mockGetUser :: "nat \<Rightarrow> nat \<Rightarrow> MockUserServiceClient \<Rightarrow> nat list \<Rightarrow> (code + UserInfo list) go" where
  "mockGetUser r1 r2 client ids = GetUser r1 r2 (um_inMemServer client) ids"

definition mockSetUserInjectionConfig :: "InjectionConfig \<Rightarrow> MockUserServiceClient \<Rightarrow> MockUserServiceClient" where
  "mockSetUserInjectionConfig config client = client\<lparr>um_inMemServer := setUserInjectionConfig config (um_inMemServer client)\<rparr>"

definition mockGetVideo :: "nat \<Rightarrow> nat \<Rightarrow> MockVideoServiceClient \<Rightarrow> nat list \<Rightarrow> (code + VideoInfo list) go" where
  "mockGetVideo r1 r2 client ids = GetVideo r1 r2 (vm_inMemServer client) ids"

definition mockGetTrendingVideos :: "nat \<Rightarrow> nat \<Rightarrow> int \<Rightarrow> MockVideoServiceClient \<Rightarrow> (code + GetTrendingVideosResponse) go" where
  "mockGetTrendingVideos r1 r2 unixNow client = GetTrendingVideos r1 r2 unixNow (vm_inMemServer client)"

definition mockSetVideoInjectionConfig :: "InjectionConfig \<Rightarrow> MockVideoServiceClient \<Rightarrow> MockVideoServiceClient" where
  "mockSetVideoInjectionConfig config client = client\<lparr>vm_inMemServer := setVideoInjectionConfig config (vm_inMemServer client)\<rparr>"

text \<open>The clients of the recommendation service, each call drawing two random numbers.\<close>

definition mockClients :: "(nat \<Rightarrow> nat) \<Rightarrow> int \<Rightarrow> MockUserServiceClient \<Rightarrow> MockVideoServiceClient \<Rightarrow> nat clients" where
  "mockClients rnd unixNow uc vc =
     \<lparr>usr_GetUser = (\<lambda>ids n. (mockGetUser (rnd n) (rnd (n + 1)) uc ids, n + 2)),
      vid_GetVideo = (\<lambda>ids n. (mockGetVideo (rnd n) (rnd (n + 1)) vc ids, n + 2)),
      vid_GetTrendingVideos = (\<lambda>n. (mockGetTrendingVideos (rnd n) (rnd (n + 1)) unixNow vc, n + 2))\<rparr>"

lemma mock_rpc: "user_rpc (mockClients rnd now uc vc) (um_inMemServer uc)" "video_rpc (mockClients rnd now uc vc) (vm_inMemServer vc)"
  by (simp_all add: user_rpc_def video_rpc_def mockClients_def mockGetUser_def mockGetVideo_def)

text \<open>The two services fit together, and the recommendation service can be in any state.\<close>

lemma mock_personalised:
  fixes seed :: "int \<Rightarrow> 'r" and email username :: "nat \<Rightarrow> string" and fk :: faker
  assumes "blowfish_ok bf" "sort_ok srt" "intn_ok intn" "us_Seed uo = vs_Seed vo"
    "us_FailureRate uo = 0" "us_ResponseOmissionRate uo = 0" "vs_FailureRate vo = 0" "vs_ResponseOmissionRate vo = 0"
    "0 < MaxBatchSize (options server)" "MaxBatchSize (options server) \<le> us_MaxBatchSize uo" "MaxBatchSize (options server) \<le> vs_MaxBatchSize vo" "0 \<le> Limit req"
  defines "uc \<equiv> MakeMockUserServiceClient seed intn email username uo" and "vc \<equiv> MakeMockVideoServiceClient seed intn fk vo"
  assumes "us_users (um_inMemServer uc) (rq_UserId req) = Some user"
  shows "personalised bf (um_inMemServer uc) (vm_inMemServer vc) user (t1 - t0) req server
    (GetTopVideos bf srt (mockClients rnd now uc vc) t0 t1 req server n)"
proof -
  have o: "um_inMemServer uc = MakeUserServiceServer seed intn email username uo" "vm_inMemServer vc = MakeVideoServiceServer seed intn fk vo"
    by (simp_all add: uc_def vc_def MakeMockUserServiceClient_def MakeMockVideoServiceClient_def)
  have q: "quiet (us_fi (um_inMemServer uc))" "quiet (vs_fi (vm_inMemServer vc))"
    unfolding o using assms(5-8) by (simp_all add: quiet_def MakeUserServiceServer_def MakeVideoServiceServer_def SetInjectionConfig_def split: prod.split)
  have b: "us_options (um_inMemServer uc) = uo" "vs_options (vm_inMemServer vc) = vo"
    unfolding o by (simp_all add: MakeUserServiceServer_def MakeVideoServiceServer_def split: prod.split)
  have d: "set (SubscribedTo u) \<subseteq> dom (us_users (um_inMemServer uc))" "set (LikedVideos u) \<subseteq> dom (vs_videos (vm_inMemServer vc))"
    if "us_users (um_inMemServer uc) i = Some u" for i u
    using same_seed [OF assms(3,4), of seed email username fk] that unfolding o by blast+
  have l: "\<Union> (set ` LikedVideos ` the ` us_users (um_inMemServer uc) ` set (SubscribedTo user)) \<subseteq> dom (vs_videos (vm_inMemServer vc))"
    using d(1) [OF assms(15)] d(2) by fastforce
  show ?thesis
    by (rule personalised_answer [OF assms(1,2) mock_rpc q]) (rule l | simp add: b assms(9-12,15) d(1) [OF assms(15)])+
qed

text \<open>C28: the whole system with mock clients. Start the user and the video service with the same seed, without failure injection, and the recommendation service with a positive batch size within the limits of the two. Then
  \<open>GetTopVideos\<close> gives every user of the user service a personalised answer, from the initial state, whatever the seed and the random numbers.\<close>

theorem mock_system_answers:
  fixes seed :: "int \<Rightarrow> 'r" and email username :: "nat \<Rightarrow> string" and fk :: faker
  assumes "blowfish_ok bf" "sort_ok srt" "intn_ok intn" "us_Seed uo = vs_Seed vo"
    "us_FailureRate uo = 0" "us_ResponseOmissionRate uo = 0" "vs_FailureRate vo = 0" "vs_ResponseOmissionRate vo = 0"
    "0 < MaxBatchSize opts" "MaxBatchSize opts \<le> us_MaxBatchSize uo" "MaxBatchSize opts \<le> vs_MaxBatchSize vo" "0 \<le> Limit req"
  defines "uc \<equiv> MakeMockUserServiceClient seed intn email username uo" and "vc \<equiv> MakeMockVideoServiceClient seed intn fk vo"
    and "server \<equiv> MakeVideoRecServiceServerWithMocks opts"
  assumes "us_users (um_inMemServer uc) (rq_UserId req) = Some user"
  shows "personalised bf (um_inMemServer uc) (vm_inMemServer vc) user (t1 - t0) req server
    (GetTopVideos bf srt (mockClients rnd now uc vc) t0 t1 req server n)"
proof -
  have b: "options server = opts" by (simp add: server_def MakeVideoRecServiceServerWithMocks_def emptyServer_def)
  show ?thesis unfolding uc_def vc_def
    by (rule mock_personalised [OF assms(1-8)]) (use assms(9-12,16) in \<open>simp_all add: b uc_def\<close>)
qed

theorem mock_system_answers_witness:
  "\<exists>user. personalised rotation (um_inMemServer (MakeMockUserServiceClient nat countUp show_nat show_nat DefaultUserServiceOptions))
     (vm_inMemServer (MakeMockVideoServiceClient nat countUp plainFaker DefaultVideoServiceOptions)) user 15 \<lparr>rq_UserId = 200000, Limit = 10\<rparr>
     (MakeVideoRecServiceServerWithMocks (sampleOptions 50))
     (GetTopVideos rotation sampleSort (mockClients id 1700000000 (MakeMockUserServiceClient nat countUp show_nat show_nat DefaultUserServiceOptions)
        (MakeMockVideoServiceClient nat countUp plainFaker DefaultVideoServiceOptions)) 10 25 \<lparr>rq_UserId = 200000, Limit = 10\<rparr>
        (MakeVideoRecServiceServerWithMocks (sampleOptions 50)) 0)"
proof -
  let ?us = "um_inMemServer (MakeMockUserServiceClient nat countUp show_nat show_nat DefaultUserServiceOptions)"
  have "200000 \<in> dom (us_users ?us)"
    using users_data [where r = "nat 42" and email = show_nat and username = show_nat, OF countUp_ok]
    by (auto simp: MakeMockUserServiceClient_def MakeUserServiceServer_def DefaultUserServiceOptions_def USER_ID_OFFSET_def)
  then obtain user where u: "us_users ?us (rq_UserId \<lparr>rq_UserId = 200000, Limit = 10\<rparr>) = Some user" by auto
  show ?thesis
    using mock_system_answers [OF rotation_ok sampleSort_ok countUp_ok _ _ _ _ _ _ _ _ _ u, of DefaultVideoServiceOptions "sampleOptions 50"
        plainFaker 25 10 id 1700000000 0]
    by (auto simp: DefaultUserServiceOptions_def DefaultVideoServiceOptions_def sampleOptions_def)
qed

end
