(* ===== verification/Lab1_Frontend.thy ===== *)
theory Lab1_Frontend
  imports Lab1_Mocks
begin

text \<open>
  The command line client of the recommendation system, \<open>lab1/cmd/frontend/frontend.go\<close>. It picks a user from a name, asks the user service and the recommendation service, and compares the recommendations for two users with recorded ones.

  \<open>dialRec\<close> and \<open>dialUser\<close> say whether \<open>grpc.NewClient\<close> succeeded. A remote call is a function on the state \<open>'w\<close> of the rest of the system and ends with an error or a response, since each has a deadline. \<open>log.Fatalf\<close> ends the program with an
  error; other log lines are left out.
\<close>

datatype frontend_error =
    FailToDial
  | ErrorRetrievingUser nat
  | ErrorRetrievingVideos nat
  | WrongRecommendations nat

type_synonym 'w get_user = "nat list \<Rightarrow> 'w \<Rightarrow> (code + UserInfo list) \<times> 'w"
type_synonym 'w get_top_videos = "GetTopVideosRequest \<Rightarrow> 'w \<Rightarrow> (code + GetTopVideosResponse) \<times> 'w"

definition getUserId :: "string \<Rightarrow> nat" where
  "getUserId netId = unat (fnv64 netId mod 5000 + 200000)"

definition fetchUser :: "bool \<Rightarrow> 'w get_user \<Rightarrow> nat \<Rightarrow> 'w \<Rightarrow> (frontend_error + UserInfo) \<times> 'w" where
  "fetchUser dialUser getUser userId w =
     (if \<not> dialUser then (Inl FailToDial, w)
      else (case getUser [userId] w of
              (Inl err, w) \<Rightarrow> (Inl (ErrorRetrievingUser userId), w)
            | (Inr users, w) \<Rightarrow> (if length users \<noteq> 1 then Inl (ErrorRetrievingUser userId) else Inr (users ! 0), w)))"

definition sendSingleTestRequest :: "nat \<Rightarrow> 'w get_top_videos \<Rightarrow> 'w \<Rightarrow> (frontend_error + VideoInfo list) \<times> 'w" where
  "sendSingleTestRequest userId client w =
     (case client \<lparr>rq_UserId = userId, Limit = 5\<rparr> w of
        (Inl err, w) \<Rightarrow> (Inl (ErrorRetrievingVideos userId), w)
      | (Inr out, w) \<Rightarrow> (Inr (Videos out), w))"

definition wrong :: "nat \<Rightarrow> string \<Rightarrow> nat \<Rightarrow> string \<Rightarrow> string \<Rightarrow> VideoInfo list \<Rightarrow> bool" where
  "wrong id0 author1 id2 url3 title4 vids \<longleftrightarrow>
     length vids \<noteq> 5 \<or> vi_VideoId (vids ! 0) \<noteq> id0 \<or> Author (vids ! 1) \<noteq> author1 \<or> vi_VideoId (vids ! 2) \<noteq> id2 \<or>
     Url (vids ! 3) \<noteq> url3 \<or> Title (vids ! 4) \<noteq> title4"

definition wrong1 :: "VideoInfo list \<Rightarrow> bool" where
  "wrong1 = wrong 1012 ''Harry Boehm'' 1209 ''https://video-data.localhost/blob/1309'' ''precious here''"

definition wrong2 :: "VideoInfo list \<Rightarrow> bool" where
  "wrong2 = wrong 1196 ''Rocky Okuneva'' 1071 ''https://video-data.localhost/blob/1041'' ''witty downstairs''"

text \<open>A statement that may end the program, followed by the rest.\<close>

definition fbind :: "('e + 'a) \<times> 'w \<Rightarrow> ('a \<Rightarrow> 'w \<Rightarrow> ('e + 'b) \<times> 'w) \<Rightarrow> ('e + 'b) \<times> 'w" where
  "fbind r k = (case r of (Inl e, w) \<Rightarrow> (Inl e, w) | (Inr x, w) \<Rightarrow> k x w)"

definition frontend_main :: "bool \<Rightarrow> bool \<Rightarrow> 'w get_user \<Rightarrow> 'w get_top_videos \<Rightarrow> string \<Rightarrow> 'w \<Rightarrow> (frontend_error + unit) \<times> 'w" where
  "frontend_main dialRec dialUser getUser client netId w =
     (if \<not> dialRec then (Inl FailToDial, w)
      else fbind (fetchUser dialUser getUser (getUserId netId) w) (\<lambda>_ w.
        fbind (sendSingleTestRequest (getUserId netId) client w) (\<lambda>_ w.
        fbind (sendSingleTestRequest 204054 client w) (\<lambda>vids w.
        if wrong1 vids then (Inl (WrongRecommendations 1), w)
        else fbind (sendSingleTestRequest 203584 client w) (\<lambda>vids w.
          if wrong2 vids then (Inl (WrongRecommendations 2), w) else (Inr (), w))))))"

section \<open>The whole system\<close>

text \<open>
  The services in front of the client: a call whose handler does not return is an error to the client. The state is that of the recommendation service and the position in the random numbers; \<open>clk n\<close> is the clock at that position.
\<close>

definition rpcUser :: "(nat \<Rightarrow> nat) \<Rightarrow> MockUserServiceClient \<Rightarrow> (VideoRecServiceServer \<times> nat) get_user" where
  "rpcUser rnd uc ids = (\<lambda>(server, n).
     (case mockGetUser (rnd n) (rnd (n + 1)) uc ids of Inl _ \<Rightarrow> Inl Unavailable | Inr r \<Rightarrow> r, (server, n + 2)))"

definition rpcTopVideos ::
    "'c blowfish \<Rightarrow> sorter \<Rightarrow> nat clients \<Rightarrow> (nat \<Rightarrow> 64 word) \<Rightarrow> (VideoRecServiceServer \<times> nat) get_top_videos" where
  "rpcTopVideos bf srt cs clk req = (\<lambda>(server, n).
     (case GetTopVideos bf srt cs (clk n) (clk (n + 1)) req server n of
        None \<Rightarrow> (Inl Unavailable, (server, n))
      | Some ((Inl _, server), n) \<Rightarrow> (Inl Unavailable, (server, n))
      | Some ((Inr r, server), n) \<Rightarrow> (r, (server, n))))"

lemma getUserId_range: "200000 \<le> getUserId netId \<and> getUserId netId < 205000"
proof -
  let ?m = "fnv64 netId mod 5000"
  have m: "unat ?m < 5000" by (simp add: unat_mod_distrib)
  have "unat (?m + 200000) = unat ?m + 200000" using m by (subst unat_add_lem [THEN iffD1]) simp_all
  then show ?thesis using m by (simp add: getUserId_def)
qed

lemma user_exists:
  assumes "intn_ok intn" "200000 \<le> i" "i < 205000"
  shows "\<exists>user. us_users (um_inMemServer (MakeMockUserServiceClient seed intn email username uo)) i = Some user"
proof -
  let ?db = "us_users (um_inMemServer (MakeMockUserServiceClient seed intn email username uo))"
  have "\<exists>n. 5000 \<le> n \<and> dom ?db = {USER_ID_OFFSET ..< USER_ID_OFFSET + n}"
    using users_data [OF assms(1), of email username "seed (us_Seed uo)"] by (auto simp: MakeMockUserServiceClient_def MakeUserServiceServer_def)
  then have "i \<in> dom ?db" using assms(2,3) by (auto simp: USER_ID_OFFSET_def)
  then show ?thesis by blast
qed

lemma rpcTopVideos_answers:
  assumes "personalised bf us vs user ms req server (GetTopVideos bf srt cs (clk n) (clk (n + 1)) req server n)"
  shows "\<exists>out server' n'. rpcTopVideos bf srt cs clk req (server, n) = (Inr out, (server', n')) \<and> options server' = options server"
  using assms by (auto simp: personalised_def rpcTopVideos_def)


text \<open>With the services of the repository behind it, started from the same seed and without failure injection, the client gets all its answers: for every name the chosen user exists, and its four requests succeed, whatever the seed, the random
  numbers and the clock. The only way for it to fail is that the recommendations are not the recorded ones.\<close>

theorem frontend_answered:
  fixes seed :: "int \<Rightarrow> 'r" and email username :: "nat \<Rightarrow> string" and fk :: faker
  assumes "blowfish_ok bf" "sort_ok srt" "intn_ok intn" "us_Seed uo = vs_Seed vo"
    "us_FailureRate uo = 0" "us_ResponseOmissionRate uo = 0" "vs_FailureRate vo = 0" "vs_ResponseOmissionRate vo = 0"
    "0 < MaxBatchSize (options server)" "MaxBatchSize (options server) \<le> us_MaxBatchSize uo" "MaxBatchSize (options server) \<le> vs_MaxBatchSize vo"
  defines "uc \<equiv> MakeMockUserServiceClient seed intn email username uo" and "vc \<equiv> MakeMockVideoServiceClient seed intn fk vo"
  shows "fst (frontend_main True True (rpcUser rnd uc) (rpcTopVideos bf srt (mockClients rnd now uc vc) clk) netId (server, n))
    \<in> {Inr (), Inl (WrongRecommendations 1), Inl (WrongRecommendations 2)}"
proof -
  let ?client = "rpcTopVideos bf srt (mockClients rnd now uc vc) clk" let ?id = "getUserId netId"
  have send: "\<exists>vids s' n'. sendSingleTestRequest i ?client (s, n) = (Inr vids, (s', n')) \<and> options s' = options s"
    if "200000 \<le> i" "i < 205000" "options s = options server" for i s n
  proof -
    note i = that
    obtain user where u: "us_users (um_inMemServer uc) (rq_UserId \<lparr>rq_UserId = i, Limit = 5\<rparr>) = Some user"
      using user_exists [OF assms(3) i(1,2), of seed email username uo] unfolding uc_def by auto
    have "personalised bf (um_inMemServer uc) (vm_inMemServer vc) user (clk (n + 1) - clk n) \<lparr>rq_UserId = i, Limit = 5\<rparr> s
        (GetTopVideos bf srt (mockClients rnd now uc vc) (clk n) (clk (n + 1)) \<lparr>rq_UserId = i, Limit = 5\<rparr> s n)"
      unfolding uc_def vc_def by (rule mock_personalised [OF assms(1-8)]) (use assms(9-11) i(3) u in \<open>simp_all add: uc_def\<close>)
    from rpcTopVideos_answers [OF this] show ?thesis by (auto simp: sendSingleTestRequest_def)
  qed
  obtain user where u: "us_users (um_inMemServer uc) ?id = Some user"
    using user_exists [OF assms(3)] getUserId_range [of netId] unfolding uc_def by blast
  have "GetUser r1 r2 (um_inMemServer uc) [?id] = Inr (Inr [user])" for r1 r2
    using GetUser_ok [of "um_inMemServer uc" "[?id]" r1 r2] u assms(5,6,9,10)
    by (auto simp: uc_def MakeMockUserServiceClient_def MakeUserServiceServer_def SetInjectionConfig_def)
  then obtain k where f: "fetchUser True (rpcUser rnd uc) ?id (server, n) = (Inr user, (server, k))"
    by (simp add: fetchUser_def rpcUser_def mockGetUser_def)
  obtain v1 s1 n1 where 1: "sendSingleTestRequest ?id ?client (server, k) = (Inr v1, (s1, n1))" "options s1 = options server"
    using send [of ?id server k] getUserId_range [of netId] by blast
  obtain v2 s2 n2 where 2: "sendSingleTestRequest 204054 ?client (s1, n1) = (Inr v2, (s2, n2))" "options s2 = options server"
    using send [of 204054 s1 n1] 1(2) by auto
  obtain v3 s3 n3 where 3: "sendSingleTestRequest 203584 ?client (s2, n2) = (Inr v3, (s3, n3))"
    using send [of 203584 s2 n2] 2(2) by auto
  show ?thesis by (simp add: frontend_main_def fbind_def f 1 2 3)
qed

theorem frontend_answered_witness:
  "fst (frontend_main True True (rpcUser id (MakeMockUserServiceClient nat countUp show_nat show_nat DefaultUserServiceOptions))
     (rpcTopVideos rotation sampleSort (mockClients id 1700000000 (MakeMockUserServiceClient nat countUp show_nat show_nat DefaultUserServiceOptions)
        (MakeMockVideoServiceClient nat countUp plainFaker DefaultVideoServiceOptions)) of_nat) ''xs66'' (MakeVideoRecServiceServerWithMocks (sampleOptions 50), 0))
     \<in> {Inr (), Inl (WrongRecommendations 1), Inl (WrongRecommendations 2)}"
  by (rule frontend_answered [OF rotation_ok sampleSort_ok countUp_ok])
    (simp_all add: DefaultUserServiceOptions_def DefaultVideoServiceOptions_def sampleOptions_def MakeVideoRecServiceServerWithMocks_def emptyServer_def)

end
