(* ===== verification/Lab2_Pool.thy ===== *)
theory Lab2_Pool
  imports Lab1_VideoRec
begin

text \<open>
  \<open>lab2/lab1/video_rec_service/server_lib/server_lib.go\<close>: the recommendation service with a pool of connections to each service. The handlers are those of
  \<open>Lab1_VideoRec\<close>, word for word, except that each call takes its connection from the pool; so they are those definitions over the clients \<open>pooled\<close>, whose world holds the pools and
  their indices. A connection is \<open>None\<close> where Go has \<open>nil\<close>; what a call over a connection does is the parameter \<open>rpc\<close>.
\<close>

section \<open>The pool\<close>

record 'conn pool =
  usr_clients :: "'conn option list"
  vid_clients :: "'conn option list"
  usr_client_index :: "64 word"
  vid_client_index :: "64 word"

record PoolOptions = VideoRecServiceOptions +
  ClientPoolSize :: int

definition pickClient :: "'conn option list \<Rightarrow> 64 word \<Rightarrow> 'conn option go" where
  "pickClient clients idx = (if clients = [] then Inl DivideByZero else Inr (clients ! (unat idx mod length clients)))"

definition getUserClient :: "'conn pool \<Rightarrow> 'conn option go \<times> 'conn pool" where
  "getUserClient p = (let idx = usr_client_index p + 1 in (pickClient (usr_clients p) idx, p\<lparr>usr_client_index := idx\<rparr>))"

definition getVideoClient :: "'conn pool \<Rightarrow> 'conn option go \<times> 'conn pool" where
  "getVideoClient p = (let idx = vid_client_index p + 1 in (pickClient (vid_clients p) idx, p\<lparr>vid_client_index := idx\<rparr>))"

definition emptyPool :: "PoolOptions \<Rightarrow> 'conn pool go" where
  "emptyPool opts =
     (if ClientPoolSize opts < 0 then Inl (BadArgument ''makeslice: len out of range'')
      else let nils = replicate (nat (ClientPoolSize opts)) None
           in Inr \<lparr>usr_clients = nils, vid_clients = nils, usr_client_index = 0, vid_client_index = 0\<rparr>)"

text \<open>The loop of the constructor over the indices \<open>is\<close>; \<open>n\<close> counts the calls of \<open>grpc.NewClient\<close>.\<close>

fun dialAll :: "(nat \<Rightarrow> string \<Rightarrow> 'e + 'conn) \<Rightarrow> PoolOptions \<Rightarrow> nat list \<Rightarrow> nat \<Rightarrow> 'conn pool \<Rightarrow> 'e + 'conn pool" where
  "dialAll dial opts [] n p = Inr p"
| "dialAll dial opts (i # is) n p =
     (case dialRetried dial (DisableRetry opts) (UserServiceAddr opts) n of
        (Inl err, n) \<Rightarrow> Inl err
      | (Inr usr_conn, n) \<Rightarrow>
          (case dialRetried dial (DisableRetry opts) (VideoServiceAddr opts) n of
             (Inl err, n) \<Rightarrow> Inl err
           | (Inr vid_conn, n) \<Rightarrow>
               dialAll dial opts is n (p\<lparr>usr_clients := (usr_clients p)[i := Some usr_conn], vid_clients := (vid_clients p)[i := Some vid_conn]\<rparr>)))"

definition baseServer :: "PoolOptions \<Rightarrow> VideoRecServiceServer" where
  "baseServer opts = emptyServer (VideoRecServiceOptions.truncate opts)"

definition MakePooledServer :: "(nat \<Rightarrow> string \<Rightarrow> 'e + 'conn) \<Rightarrow> PoolOptions \<Rightarrow> ('e + (VideoRecServiceServer \<times> 'conn pool)) go" where
  "MakePooledServer dial opts =
     go_bind (emptyPool opts) (\<lambda>p.
     Inr (map_sum id (\<lambda>p. (baseServer opts, p)) (dialAll dial opts [0 ..< nat (ClientPoolSize opts)] 0 p)))"

definition MakePooledServerWithMocks :: "PoolOptions \<Rightarrow> (VideoRecServiceServer \<times> 'conn pool) go" where
  "MakePooledServerWithMocks opts = go_bind (emptyPool opts) (\<lambda>p. Inr (baseServer opts, p))"

text \<open>A call over a connection of the pool: \<open>pick\<close> takes the connection, \<open>call\<close> makes the call.\<close>

definition viaPool :: "('conn pool \<Rightarrow> 'conn option go \<times> 'conn pool) \<Rightarrow> ('conn \<Rightarrow> 'w \<Rightarrow> 'r go \<times> 'w) \<Rightarrow> 'conn pool \<times> 'w \<Rightarrow> 'r go \<times> ('conn pool \<times> 'w)" where
  "viaPool pick call pw =
     (case pw of (p, w) \<Rightarrow>
       (case pick p of
          (Inl f, p) \<Rightarrow> (Inl f, (p, w))
        | (Inr None, p) \<Rightarrow> (Inl NilDereference, (p, w))
        | (Inr (Some conn), p) \<Rightarrow> (case call conn w of (r, w) \<Rightarrow> (r, (p, w)))))"

definition pooled :: "('conn \<Rightarrow> 'w clients) \<Rightarrow> ('conn pool \<times> 'w) clients" where
  "pooled rpc =
     \<lparr>usr_GetUser = (\<lambda>ids. viaPool getUserClient (\<lambda>conn. usr_GetUser (rpc conn) ids)),
      vid_GetVideo = (\<lambda>ids. viaPool getVideoClient (\<lambda>conn. vid_GetVideo (rpc conn) ids)),
      vid_GetTrendingVideos = viaPool getVideoClient (\<lambda>conn. vid_GetTrendingVideos (rpc conn))\<rparr>"

definition refreshPooled ::
    "('conn \<Rightarrow> 'w clients) \<Rightarrow> int \<Rightarrow> int \<Rightarrow> VideoRecServiceServer \<Rightarrow> 'conn pool \<times> 'w \<Rightarrow> (VideoRecServiceServer go \<times> ('conn pool \<times> 'w)) option" where
  "refreshPooled rpc = refreshTrendingVideos (pooled rpc)"

definition GetTopVideosPooled ::
    "'c blowfish \<Rightarrow> sorter \<Rightarrow> ('conn \<Rightarrow> 'w clients) \<Rightarrow> 64 word \<Rightarrow> 64 word \<Rightarrow> GetTopVideosRequest \<Rightarrow> VideoRecServiceServer \<Rightarrow> 'conn pool \<times> 'w \<Rightarrow>
       ('conn pool \<times> 'w) answer" where
  "GetTopVideosPooled bf srt rpc = GetTopVideos bf srt (pooled rpc)"

definition getSubscribedVideosPooled ::
    "('conn \<Rightarrow> 'w clients) \<Rightarrow> VideoRecServiceServer \<Rightarrow> nat list \<Rightarrow> 'conn pool \<times> 'w \<Rightarrow> (nat list go \<times> ('conn pool \<times> 'w)) option" where
  "getSubscribedVideosPooled rpc = getSubscribedVideos (pooled rpc)"

definition getVideoInfoPooled ::
    "('conn \<Rightarrow> 'w clients) \<Rightarrow> VideoRecServiceServer \<Rightarrow> nat list \<Rightarrow> 'conn pool \<times> 'w \<Rightarrow> ((code + VideoInfo list) go \<times> ('conn pool \<times> 'w)) option" where
  "getVideoInfoPooled rpc = getVideoInfo (pooled rpc)"

section \<open>Round robin\<close>

fun takeClients :: "nat \<Rightarrow> 'conn pool \<Rightarrow> 'conn option go list" where
  "takeClients 0 p = []"
| "takeClients (Suc k) p = (case getUserClient p of (c, p) \<Rightarrow> c # takeClients k p)"

lemma unat_succ: "unat (i :: 64 word) + k < 2 ^ 64 \<Longrightarrow> 0 < k \<Longrightarrow> unat (i + 1) = unat i + 1"
  by (simp add: unat_word_ariths)

lemma takeClients_map:
  assumes "usr_clients p \<noteq> []" "unat (usr_client_index p) + k < 2 ^ 64"
  shows "takeClients k p = map (\<lambda>j. Inr (usr_clients p ! ((unat (usr_client_index p) + 1 + j) mod length (usr_clients p)))) [0 ..< k]"
  using assms
proof (induction k arbitrary: p)
  case (Suc k)
  let ?p = "p\<lparr>usr_client_index := usr_client_index p + 1\<rparr>"
  have u: "unat (usr_client_index p + 1) = unat (usr_client_index p) + 1" by (rule unat_succ [OF Suc.prems(2)]) simp
  have "takeClients k ?p = map (\<lambda>j. Inr (usr_clients p ! ((unat (usr_client_index p) + 1 + Suc j) mod length (usr_clients p)))) [0 ..< k]"
    using Suc.IH [of ?p] Suc.prems u by simp
  then show ?case using Suc.prems(1) u
    by (simp add: getUserClient_def pickClient_def Let_def upt_conv_Cons map_Suc_upt [symmetric] comp_def del: upt_Suc)
qed simp

lemma rotation_mset:
  assumes "xs \<noteq> []"
  shows "mset (map (\<lambda>j. xs ! ((s + j) mod length xs)) [0 ..< length xs]) = mset xs"
proof -
  have "map (\<lambda>j. xs ! ((s + j) mod length xs)) [0 ..< length xs] = rotate s xs"
    by (rule nth_equalityI) (simp_all add: nth_rotate add.commute)
  then show ?thesis by (simp add: rotate_drop_take flip: mset_append) (metis append_take_drop_id mset_append union_commute)
qed

text \<open>The pool is fair. As many consecutive calls of \<open>getUserClient\<close> as the pool has connections hand out each connection of the pool exactly once, wherever the index stands, unless the 64-bit index
  wraps around among them.\<close>

theorem pool_round_robin:
  assumes "usr_clients p \<noteq> []" "unat (usr_client_index p) + length (usr_clients p) < 2 ^ 64"
  shows "mset (takeClients (length (usr_clients p)) p) = mset (map Inr (usr_clients p))"
proof -
  let ?u = "unat (usr_client_index p) + 1"
  have "takeClients (length (usr_clients p)) p = map Inr (map (\<lambda>j. usr_clients p ! ((?u + j) mod length (usr_clients p))) [0 ..< length (usr_clients p)])"
    using takeClients_map [OF assms] by simp
  then show ?thesis using rotation_mset [OF assms(1), of ?u] by (simp only: mset_map)
qed

theorem pool_round_robin_witness:
  "mset (takeClients 3 \<lparr>usr_clients = [Some ''a'', Some ''b'', Some ''c''], vid_clients = [], usr_client_index = 7, vid_client_index = 0\<rparr>) =
     {# Inr (Some ''a''), Inr (Some ''b''), Inr (Some ''c'') #}"
  using pool_round_robin [of "\<lparr>usr_clients = [Some ''a'', Some ''b'', Some ''c''], vid_clients = [], usr_client_index = 7, vid_client_index = 0\<rparr>"]
  by (simp add: numeral_3_eq_3 add_mset_commute)

section \<open>The pool is transparent\<close>

text \<open>\<open>good_pool\<close>: both pools have connections. Those of the one lead to the user service and answer \<open>GetUser\<close> like the clients \<open>cs\<close>, those of the other lead to the video service and answer
  \<open>GetVideo\<close> and \<open>GetTrendingVideos\<close> like them; what the other calls do over a connection is left open.\<close>

definition toUsers :: "('conn \<Rightarrow> 'w clients) \<Rightarrow> 'w clients \<Rightarrow> 'conn \<Rightarrow> bool" where
  "toUsers rpc cs conn \<longleftrightarrow> usr_GetUser (rpc conn) = usr_GetUser cs"

definition toVideos :: "('conn \<Rightarrow> 'w clients) \<Rightarrow> 'w clients \<Rightarrow> 'conn \<Rightarrow> bool" where
  "toVideos rpc cs conn \<longleftrightarrow> vid_GetVideo (rpc conn) = vid_GetVideo cs \<and> vid_GetTrendingVideos (rpc conn) = vid_GetTrendingVideos cs"

definition good_pool :: "('conn \<Rightarrow> 'w clients) \<Rightarrow> 'w clients \<Rightarrow> 'conn pool \<Rightarrow> bool" where
  "good_pool rpc cs p \<longleftrightarrow> usr_clients p \<noteq> [] \<and> vid_clients p \<noteq> [] \<and>
     (\<forall>c \<in> set (usr_clients p). \<exists>conn. c = Some conn \<and> toUsers rpc cs conn) \<and>
     (\<forall>c \<in> set (vid_clients p). \<exists>conn. c = Some conn \<and> toVideos rpc cs conn)"

lemma pick_good:
  assumes "clients \<noteq> []" "\<forall>c \<in> set clients. \<exists>conn. c = Some conn \<and> P conn"
  obtains conn where "pickClient clients idx = Inr (Some conn)" "P conn"
proof -
  have "clients ! (unat idx mod length clients) \<in> set clients" using assms(1) by simp
  then obtain conn where "clients ! (unat idx mod length clients) = Some conn" "P conn" using assms(2) by blast
  then show thesis using that assms(1) by (simp add: pickClient_def)
qed

definition same_call :: "('conn \<Rightarrow> 'w clients) \<Rightarrow> 'w clients \<Rightarrow> ('conn pool \<times> 'w \<Rightarrow> 'r \<times> ('conn pool \<times> 'w)) \<Rightarrow> ('w \<Rightarrow> 'r \<times> 'w) \<Rightarrow> bool" where
  "same_call rpc cs f g \<longleftrightarrow> (\<forall>p w. good_pool rpc cs p \<longrightarrow> (\<exists>p'. good_pool rpc cs p' \<and> f (p, w) = (fst (g w), (p', snd (g w)))))"

lemma same_callE:
  assumes "same_call rpc cs f g" "good_pool rpc cs p" "g w = (r, w')"
  obtains p' where "good_pool rpc cs p'" "f (p, w) = (r, (p', w'))"
proof -
  from assms(1,2) obtain p' where "good_pool rpc cs p'" "f (p, w) = (fst (g w), (p', snd (g w)))"
    unfolding same_call_def by blast
  then show thesis using that assms(3) by simp
qed

lemma pooled_user: "same_call rpc cs (usr_GetUser (pooled rpc) ids) (usr_GetUser cs ids)"
  unfolding same_call_def
proof (intro allI impI)
  fix p w
  assume g: "good_pool rpc cs p"
  let ?i = "usr_client_index p + 1"
  obtain conn where c: "pickClient (usr_clients p) ?i = Inr (Some conn)" "toUsers rpc cs conn"
    using g by (auto simp: good_pool_def intro: pick_good [of "usr_clients p" "toUsers rpc cs" ?i])
  have "good_pool rpc cs (p\<lparr>usr_client_index := ?i\<rparr>)" using g by (simp add: good_pool_def)
  then show "\<exists>p'. good_pool rpc cs p' \<and> usr_GetUser (pooled rpc) ids (p, w) = (fst (usr_GetUser cs ids w), (p', snd (usr_GetUser cs ids w)))"
    using c by (auto simp: pooled_def viaPool_def getUserClient_def toUsers_def Let_def split: prod.split)
qed

lemma pooled_video: "same_call rpc cs (vid_GetVideo (pooled rpc) ids) (vid_GetVideo cs ids)"
  unfolding same_call_def
proof (intro allI impI)
  fix p w
  assume g: "good_pool rpc cs p"
  let ?i = "vid_client_index p + 1"
  obtain conn where c: "pickClient (vid_clients p) ?i = Inr (Some conn)" "toVideos rpc cs conn"
    using g by (auto simp: good_pool_def intro: pick_good [of "vid_clients p" "toVideos rpc cs" ?i])
  have "good_pool rpc cs (p\<lparr>vid_client_index := ?i\<rparr>)" using g by (simp add: good_pool_def)
  then show "\<exists>p'. good_pool rpc cs p' \<and> vid_GetVideo (pooled rpc) ids (p, w) = (fst (vid_GetVideo cs ids w), (p', snd (vid_GetVideo cs ids w)))"
    using c by (auto simp: pooled_def viaPool_def getVideoClient_def toVideos_def Let_def split: prod.split)
qed

lemma same_run:
  assumes "\<And>b s. same_call rpc cs (body' b s) (body b s)"
  shows "same_call rpc cs (runBatches body' bs s) (runBatches body bs s)"
proof (induction bs arbitrary: s)
  case Nil
  show ?case by (auto simp: same_call_def)
next
  case (Cons b bs)
  show ?case unfolding same_call_def
  proof (intro allI impI)
    fix p w
    assume g: "good_pool rpc cs p"
    obtain r w' where bd: "body b s w = (r, w')" by (cases "body b s w")
    obtain p' where p': "good_pool rpc cs p'" "body' b s (p, w) = (r, (p', w'))" by (rule same_callE [OF assms g bd])
    show "\<exists>p'. good_pool rpc cs p' \<and> runBatches body' (b # bs) s (p, w) =
        (fst (runBatches body (b # bs) s w), (p', snd (runBatches body (b # bs) s w)))"
    proof (cases r)
      case (Inl f)
      with bd p' show ?thesis by auto
    next
      case (Inr gs)
      obtain go_on s' where gs: "gs = (go_on, s')" by (cases gs)
      show ?thesis using bd p' Inr gs Cons.IH [of s'] by (cases go_on) (auto simp: same_call_def)
    qed
  qed
qed

lemma same_batch:
  "same_call rpc cs (subscribedBatch (pooled rpc) b ids) (subscribedBatch cs b ids)"
  "same_call rpc cs (infoBatch (pooled rpc) b vids) (infoBatch cs b vids)"
proof -
  show "same_call rpc cs (subscribedBatch (pooled rpc) b ids) (subscribedBatch cs b ids)"
    unfolding same_call_def
  proof (intro allI impI)
    fix p w
    assume g: "good_pool rpc cs p"
    obtain r w' where c: "usr_GetUser cs b w = (r, w')" by (cases "usr_GetUser cs b w")
    obtain p' where "good_pool rpc cs p'" "usr_GetUser (pooled rpc) b (p, w) = (r, (p', w'))" by (rule same_callE [OF pooled_user g c])
    with c show "\<exists>p'. good_pool rpc cs p' \<and> subscribedBatch (pooled rpc) b ids (p, w) =
        (fst (subscribedBatch cs b ids w), (p', snd (subscribedBatch cs b ids w)))"
      by (auto simp: subscribedBatch_def split: sum.split)
  qed
  show "same_call rpc cs (infoBatch (pooled rpc) b vids) (infoBatch cs b vids)"
    unfolding same_call_def
  proof (intro allI impI)
    fix p w
    assume g: "good_pool rpc cs p"
    obtain r w' where c: "vid_GetVideo cs b w = (r, w')" by (cases "vid_GetVideo cs b w")
    obtain p' where "good_pool rpc cs p'" "vid_GetVideo (pooled rpc) b (p, w) = (r, (p', w'))" by (rule same_callE [OF pooled_video g c])
    with c show "\<exists>p'. good_pool rpc cs p' \<and> infoBatch (pooled rpc) b vids (p, w) =
        (fst (infoBatch cs b vids w), (p', snd (infoBatch cs b vids w)))"
      by (auto simp: infoBatch_def split: sum.split)
  qed
qed

lemma same_loop:
  assumes "0 < m" "\<And>b s. same_call rpc cs (body' b s) (body b s)" "good_pool rpc cs p"
  obtains p' r w' where "good_pool rpc cs p'" "forBatches m ids body' 0 s (p, w) = Some (r, (p', w'))" "forBatches m ids body 0 s w = Some (r, w')"
proof -
  obtain r w' where r: "runBatches body (chunks (nat m) ids) s w = (r, w')" by (cases "runBatches body (chunks (nat m) ids) s w")
  obtain p' where "good_pool rpc cs p'" "runBatches body' (chunks (nat m) ids) s (p, w) = (r, (p', w'))"
    by (rule same_callE [OF same_run [OF assms(2)] assms(3) r])
  then show thesis using that r by (simp add: forBatches_run [OF assms(1)])
qed

lemma same_ranked:
  assumes "0 < MaxBatchSize (options server)" "good_pool rpc cs p"
  shows "\<exists>p' a w'. good_pool rpc cs p' \<and> rankedAnswer bf srt (pooled rpc) t0 t1 req user server (p, w) = Some (a, (p', w')) \<and>
    rankedAnswer bf srt cs t0 t1 req user server w = Some (a, w')"
proof -
  obtain p1 r1 w1 where 1: "good_pool rpc cs p1" "getSubscribedVideos (pooled rpc) server (SubscribedTo user) (p, w) = Some (r1, (p1, w1))"
      "getSubscribedVideos cs server (SubscribedTo user) w = Some (r1, w1)"
    unfolding getSubscribedVideos_def by (rule same_loop [OF assms(1) same_batch(1) assms(2)])
  show ?thesis
  proof (cases r1)
    case (Inl f)
    with 1 show ?thesis by (simp add: rankedAnswer_def)
  next
    case (Inr ids)
    obtain p2 r2 w2 where 2: "good_pool rpc cs p2" "getVideoInfo (pooled rpc) server (deduplicate ids) (p1, w1) = Some (r2, (p2, w2))"
        "getVideoInfo cs server (deduplicate ids) w1 = Some (r2, w2)"
      unfolding getVideoInfo_def by (rule same_loop [OF assms(1) same_batch(2) 1(1)])
    show ?thesis using 1(2,3) 2 Inr by (auto simp: rankedAnswer_def split: sum.split)
  qed
qed

text \<open>C34: the pool changes nothing but the connections used. If every connection of the one pool leads to the user service and every connection of the other to the video service, the pooled \<open>GetTopVideos\<close> gives the answer, the
  statistics and the effects of \<open>GetTopVideos\<close> over a single connection to each, and leaves a pool of which the same is true. What a connection to the one service does with calls for the other does not
  matter.\<close>

theorem pool_transparent:
  assumes "0 < MaxBatchSize (options server)" "good_pool rpc cs p"
  shows "\<exists>p' a w'. good_pool rpc cs p' \<and> GetTopVideosPooled bf srt rpc t0 t1 req server (p, w) = Some (a, (p', w')) \<and>
    GetTopVideos bf srt cs t0 t1 req server w = Some (a, w')"
proof -
  obtain r w1 where c: "usr_GetUser cs [rq_UserId req] w = (r, w1)" by (cases "usr_GetUser cs [rq_UserId req] w")
  obtain p1 where p1: "good_pool rpc cs p1" "usr_GetUser (pooled rpc) [rq_UserId req] (p, w) = (r, (p1, w1))"
    by (rule same_callE [OF pooled_user assms(2) c])
  show ?thesis
  proof (cases "\<exists>user rest. r = Inr (Inr (user # rest))")
    case True
    then obtain user rest where u: "r = Inr (Inr (user # rest))" by blast
    have "0 < MaxBatchSize (options (begun server))" using assms(1) by simp
    from same_ranked [OF this p1(1)] obtain p2 a w2 where "good_pool rpc cs p2"
        "rankedAnswer bf srt (pooled rpc) t0 t1 req user (begun server) (p1, w1) = Some (a, (p2, w2))"
        "rankedAnswer bf srt cs t0 t1 req user (begun server) w1 = Some (a, w2)" by blast
    then show ?thesis by (cases a) (simp add: GetTopVideosPooled_def GetTopVideos_def Let_def c p1 u)
  next
    case False
    then show ?thesis using c p1
      by (cases "handleFallback req (countError (begun server))")
        (auto simp: GetTopVideosPooled_def GetTopVideos_def Let_def split: sum.split list.split)
  qed
qed

text \<open>Connections to the user service fail calls for videos, those to the video service fail calls for users.\<close>

definition samplePool :: "nat pool" where
  "samplePool = \<lparr>usr_clients = [Some 1, Some 2], vid_clients = [Some 3], usr_client_index = 0, vid_client_index = 0\<rparr>"

definition sampleRpc :: "nat \<Rightarrow> unit clients" where
  "sampleRpc conn =
     (if conn < 3 then (sampleClients sampleVideos)\<lparr>vid_GetVideo := \<lambda>_ w. (Inr (Inl Unavailable), w), vid_GetTrendingVideos := \<lambda>w. (Inr (Inl Unavailable), w)\<rparr>
      else (sampleClients sampleVideos)\<lparr>usr_GetUser := \<lambda>_ w. (Inr (Inl Unavailable), w)\<rparr>)"

lemma samplePool_good: "good_pool sampleRpc (sampleClients sampleVideos) samplePool"
  by (simp add: good_pool_def samplePool_def sampleRpc_def toUsers_def toVideos_def)

theorem pool_transparent_witness:
  "\<exists>p' a w'. GetTopVideosPooled rotation sampleSort sampleRpc 10 25 \<lparr>rq_UserId = 1, Limit = 1\<rparr>
       (emptyServer (sampleOptions 2)) (samplePool, ()) = Some (a, (p', w')) \<and>
     GetTopVideos rotation sampleSort (sampleClients sampleVideos) 10 25 \<lparr>rq_UserId = 1, Limit = 1\<rparr> (emptyServer (sampleOptions 2)) () = Some (a, w')"
proof -
  have m: "0 < MaxBatchSize (options (emptyServer (sampleOptions 2)))" by (simp add: emptyServer_def sampleOptions_def)
  show ?thesis
    using pool_transparent [where bf = rotation and srt = sampleSort and ?t0.0 = 10 and ?t1.0 = 25 and req = "\<lparr>rq_UserId = 1, Limit = 1\<rparr>" and w = "()",
      OF m samplePool_good] by (auto simp del: split_paired_Ex)
qed

section \<open>Constructing the pool\<close>

lemma dialRetried_ok: "(\<And>n addr. \<exists>conn. dial n addr = Inr conn) \<Longrightarrow> \<exists>conn. dialRetried dial d addr n = (Inr conn, Suc n)"
  by (metis dialRetried_def sum.simps(6))

lemma dialAll_ok:
  assumes "\<And>n addr. \<exists>conn. dial n addr = Inr conn" "length (usr_clients p) = m" "length (vid_clients p) = m"
  shows "k \<le> m \<Longrightarrow> \<exists>p'. dialAll dial opts [m - k ..< m] n p = Inr p' \<and> length (usr_clients p') = m \<and> length (vid_clients p') = m \<and>
    (\<forall>i < m - k. usr_clients p' ! i = usr_clients p ! i \<and> vid_clients p' ! i = vid_clients p ! i) \<and>
    (\<forall>i \<in> {m - k ..< m}. usr_clients p' ! i \<noteq> None \<and> vid_clients p' ! i \<noteq> None)"
  using assms(2,3)
proof (induction k arbitrary: n p)
  case (Suc k)
  obtain c where c: "dialRetried dial (DisableRetry opts) (UserServiceAddr opts) n = (Inr c, Suc n)" using dialRetried_ok [of dial, OF assms(1)] by blast
  obtain d where d: "dialRetried dial (DisableRetry opts) (VideoServiceAddr opts) (Suc n) = (Inr d, Suc (Suc n))" using dialRetried_ok [of dial, OF assms(1)] by blast
  let ?i = "m - Suc k"
  let ?p = "p\<lparr>usr_clients := (usr_clients p)[?i := Some c], vid_clients := (vid_clients p)[?i := Some d]\<rparr>"
  have i: "?i < m" "Suc ?i = m - k" using Suc.prems(1) by auto
  have up: "[?i ..< m] = ?i # [m - k ..< m]" using i by (simp add: upt_conv_Cons)
  obtain p' where p': "dialAll dial opts [m - k ..< m] (Suc (Suc n)) ?p = Inr p'" "length (usr_clients p') = m" "length (vid_clients p') = m"
      "\<forall>i < m - k. usr_clients p' ! i = usr_clients ?p ! i \<and> vid_clients p' ! i = vid_clients ?p ! i"
      "\<forall>i \<in> {m - k ..< m}. usr_clients p' ! i \<noteq> None \<and> vid_clients p' ! i \<noteq> None"
    using Suc.IH [of ?p "Suc (Suc n)"] Suc.prems by auto
  have at: "usr_clients p' ! ?i = Some c" "vid_clients p' ! ?i = Some d" using p'(4) i Suc.prems(2,3) by auto
  have "dialAll dial opts [?i ..< m] n p = Inr p'" unfolding up by (simp add: c d p'(1))
  moreover have "\<forall>i < ?i. usr_clients p' ! i = usr_clients p ! i \<and> vid_clients p' ! i = vid_clients p ! i" using p'(4) i by auto
  moreover have "usr_clients p' ! i \<noteq> None \<and> vid_clients p' ! i \<noteq> None" if "i \<in> {?i ..< m}" for i
    using that at p'(5) i by (cases "i = ?i") auto
  ultimately show ?case using p'(2,3) by blast
qed simp

lemma emptyPool_ok:
  "0 \<le> ClientPoolSize opts \<Longrightarrow> emptyPool opts = Inr \<lparr>usr_clients = replicate (nat (ClientPoolSize opts)) None,
     vid_clients = replicate (nat (ClientPoolSize opts)) None, usr_client_index = 0, vid_client_index = 0\<rparr>"
  by (simp add: emptyPool_def Let_def)

text \<open>The constructor fills the pool. If every call of \<open>grpc.NewClient\<close> succeeds, each of the \<open>ClientPoolSize\<close> entries of both pools is a connection and the server
  starts with empty statistics; with mock clients, whose arguments the constructor ignores, every entry is \<open>nil\<close> and the first request panics: with a division by zero if the
  size is 0, and on the nil connection otherwise.\<close>

theorem pool_constructed:
  assumes "0 \<le> ClientPoolSize opts" "\<And>n addr. \<exists>conn. dial n addr = Inr conn"
  shows "(\<exists>p. MakePooledServer dial opts = Inr (Inr (baseServer opts, p)) \<and> length (usr_clients p) = nat (ClientPoolSize opts) \<and>
      length (vid_clients p) = nat (ClientPoolSize opts) \<and> None \<notin> set (usr_clients p) \<union> set (vid_clients p)) \<and>
    (\<exists>server p. MakePooledServerWithMocks opts = Inr (server, p) \<and>
      map_option (fst \<circ> fst) (GetTopVideosPooled bf srt rpc t0 t1 req server (p, w)) =
        Some (Inl (if ClientPoolSize opts = 0 then DivideByZero else NilDereference)))"
proof
  let ?m = "nat (ClientPoolSize opts)"
  let ?p = "\<lparr>usr_clients = replicate ?m None, vid_clients = replicate ?m None, usr_client_index = 0, vid_client_index = 0\<rparr> :: 'a pool"
  obtain p' where p': "dialAll dial opts [0 ..< ?m] 0 ?p = Inr p'" "length (usr_clients p') = ?m" "length (vid_clients p') = ?m"
      "\<forall>i \<in> {0 ..< ?m}. usr_clients p' ! i \<noteq> None \<and> vid_clients p' ! i \<noteq> None"
    using dialAll_ok [where dial = dial and p = ?p and m = ?m and k = ?m and opts = opts and n = 0, OF assms(2)] by auto
  have "None \<notin> set (usr_clients p') \<union> set (vid_clients p')" using p'(2-4) by (auto simp: in_set_conv_nth)
  with p' show "\<exists>p. MakePooledServer dial opts = Inr (Inr (baseServer opts, p)) \<and> length (usr_clients p) = ?m \<and>
      length (vid_clients p) = ?m \<and> None \<notin> set (usr_clients p) \<union> set (vid_clients p)" by (simp add: MakePooledServer_def emptyPool_ok [OF assms(1)])
  show "\<exists>server p. MakePooledServerWithMocks opts = Inr (server, p) \<and>
      map_option (fst \<circ> fst) (GetTopVideosPooled bf srt rpc t0 t1 req server (p, w)) =
        Some (Inl (if ClientPoolSize opts = 0 then DivideByZero else NilDereference))"
    using assms(1) by (auto simp: MakePooledServerWithMocks_def emptyPool_ok [OF assms(1)] GetTopVideosPooled_def GetTopVideos_def Let_def pooled_def viaPool_def
      getUserClient_def pickClient_def)
qed

text \<open>The connections the constructor puts into the pools: those to the address of the user service into the one and those to the address of the video service into the other.\<close>

lemma dialRetried_Inr: "dialRetried dial d addr n = (Inr conn, n') \<Longrightarrow> \<exists>k. dial k addr = Inr conn"
  by (auto simp: dialRetried_def split: sum.splits if_splits)

lemma dialAll_conns:
  assumes "dialAll dial opts is n p = Inr p'"
    "\<forall>c \<in> set (usr_clients p). \<forall>conn. c = Some conn \<longrightarrow> (\<exists>k. dial k (UserServiceAddr opts) = Inr conn)"
    "\<forall>c \<in> set (vid_clients p). \<forall>conn. c = Some conn \<longrightarrow> (\<exists>k. dial k (VideoServiceAddr opts) = Inr conn)"
  shows "(\<forall>c \<in> set (usr_clients p'). \<forall>conn. c = Some conn \<longrightarrow> (\<exists>k. dial k (UserServiceAddr opts) = Inr conn)) \<and>
    (\<forall>c \<in> set (vid_clients p'). \<forall>conn. c = Some conn \<longrightarrow> (\<exists>k. dial k (VideoServiceAddr opts) = Inr conn))"
  using assms
proof (induction "is" arbitrary: n p)
  case (Cons i "is")
  from Cons.prems(1) obtain c n1 d n2 where
    c: "dialRetried dial (DisableRetry opts) (UserServiceAddr opts) n = (Inr c, n1)" "dialRetried dial (DisableRetry opts) (VideoServiceAddr opts) n1 = (Inr d, n2)"
      "dialAll dial opts is n2 (p\<lparr>usr_clients := (usr_clients p)[i := Some c], vid_clients := (vid_clients p)[i := Some d]\<rparr>) = Inr p'"
    by (auto split: prod.splits sum.splits)
  obtain k l where k: "dial k (UserServiceAddr opts) = Inr c" "dial l (VideoServiceAddr opts) = Inr d"
    using dialRetried_Inr [OF c(1)] dialRetried_Inr [OF c(2)] by blast
  show ?case
  proof (rule Cons.IH [OF c(3)])
    show "\<forall>x \<in> set (usr_clients (p\<lparr>usr_clients := (usr_clients p)[i := Some c], vid_clients := (vid_clients p)[i := Some d]\<rparr>)).
        \<forall>conn. x = Some conn \<longrightarrow> (\<exists>k. dial k (UserServiceAddr opts) = Inr conn)"
      using Cons.prems(2) k(1) set_update_subset_insert [of "usr_clients p" i "Some c"] by auto
    show "\<forall>x \<in> set (vid_clients (p\<lparr>usr_clients := (usr_clients p)[i := Some c], vid_clients := (vid_clients p)[i := Some d]\<rparr>)).
        \<forall>conn. x = Some conn \<longrightarrow> (\<exists>k. dial k (VideoServiceAddr opts) = Inr conn)"
      using Cons.prems(3) k(2) set_update_subset_insert [of "vid_clients p" i "Some d"] by auto
  qed
qed simp

text \<open>The pool the constructor builds is one over which requests are answered as over single connections, if connections to the two addresses lead to the two services.\<close>

theorem constructed_pool_good:
  assumes "0 < ClientPoolSize opts" "\<And>n addr. \<exists>conn. dial n addr = Inr conn"
    "\<And>n conn. dial n (UserServiceAddr opts) = Inr conn \<Longrightarrow> toUsers rpc cs conn"
    "\<And>n conn. dial n (VideoServiceAddr opts) = Inr conn \<Longrightarrow> toVideos rpc cs conn"
  shows "\<exists>p. MakePooledServer dial opts = Inr (Inr (baseServer opts, p)) \<and> good_pool rpc cs p"
proof -
  let ?m = "nat (ClientPoolSize opts)"
  let ?p = "\<lparr>usr_clients = replicate ?m None, vid_clients = replicate ?m None, usr_client_index = 0, vid_client_index = 0\<rparr> :: 'a pool"
  obtain p' where p': "dialAll dial opts [0 ..< ?m] 0 ?p = Inr p'" "length (usr_clients p') = ?m" "length (vid_clients p') = ?m"
      "\<forall>i \<in> {0 ..< ?m}. usr_clients p' ! i \<noteq> None \<and> vid_clients p' ! i \<noteq> None"
    using dialAll_ok [where dial = dial and p = ?p and m = ?m and k = ?m and opts = opts and n = 0, OF assms(2)] by auto
  have n: "None \<notin> set (usr_clients p')" "None \<notin> set (vid_clients p')" using p'(2-4) by (auto simp: in_set_conv_nth)
  have d: "(\<forall>c \<in> set (usr_clients p'). \<forall>conn. c = Some conn \<longrightarrow> (\<exists>k. dial k (UserServiceAddr opts) = Inr conn)) \<and>
      (\<forall>c \<in> set (vid_clients p'). \<forall>conn. c = Some conn \<longrightarrow> (\<exists>k. dial k (VideoServiceAddr opts) = Inr conn))"
    by (rule dialAll_conns [OF p'(1)]) simp_all
  have conns: "toUsers rpc cs conn" if "Some conn \<in> set (usr_clients p')" for conn
    using bspec [OF conjunct1 [OF d] that] assms(3) by auto
  have connv: "toVideos rpc cs conn" if "Some conn \<in> set (vid_clients p')" for conn
    using bspec [OF conjunct2 [OF d] that] assms(4) by auto
  have "\<exists>conn. c = Some conn \<and> toUsers rpc cs conn" if "c \<in> set (usr_clients p')" for c
    by (cases c) (use that n(1) conns in auto)
  moreover have "\<exists>conn. c = Some conn \<and> toVideos rpc cs conn" if "c \<in> set (vid_clients p')" for c
    by (cases c) (use that n(2) connv in auto)
  moreover have "usr_clients p' \<noteq> []" "vid_clients p' \<noteq> []" using p'(2,3) assms(1) by auto
  ultimately have "good_pool rpc cs p'" by (simp add: good_pool_def)
  then show ?thesis using p'(1) assms(1) by (simp add: MakePooledServer_def emptyPool_ok)
qed

definition samplePoolOptions :: PoolOptions where
  "samplePoolOptions = \<lparr>UserServiceAddr = ''u'', VideoServiceAddr = ''v'', MaxBatchSize = 50, DisableFallback = False, DisableRetry = False, ClientPoolSize = 4\<rparr>"

theorem pool_constructed_witness:
  "\<exists>p. MakePooledServer (\<lambda>n addr. Inr n :: unit + nat) samplePoolOptions = Inr (Inr (baseServer samplePoolOptions, p)) \<and> length (usr_clients p) = 4 \<and>
     None \<notin> set (usr_clients p)"
  using pool_constructed [of samplePoolOptions "\<lambda>n addr. Inr n :: unit + nat" rotation sampleSort "\<lambda>_ :: nat. sampleClients sampleVideos" 0 1
    "\<lparr>rq_UserId = 1, Limit = 1\<rparr>" "()"] by (auto simp: samplePoolOptions_def)

end
