(* ===== verification/Spec2Isabelle.thy ===== *)
theory Spec2Isabelle
  imports Raft_Tests Labgob Kv_Stress Lab0_Queue Lab0_Semaphore Lab0_Merge Lab1_Frontend Lab2_Pool
begin

text \<open>
  A verification of the Go programs under \<open>src/cs426-fall24\<close>, the laboratories of a course on distributed systems. File names below are relative to that directory.

  \<^bold>\<open>The programs.\<close> \<open>lab0\<close> has queues, a semaphore, and goroutines that merge channels. \<open>lab1\<close> is a recommendation service: it asks a user service and a video service over RPC, ranks videos
  with a deterministic bcrypt, and falls back to cached trending videos. \<open>lab2\<close> gives that service pools of connections; its other files are those of \<open>lab1\<close>. \<open>lab3\<close> is Raft, with the simulated network
  \<open>labrpc\<close>, the encoder \<open>labgob\<close> and the harness that tests use. \<open>lab4\<close> is a key-value store with expiry, sharded and replicated after a shard map, with a client and a stress tester that checks its answers.

  \<^bold>\<open>Conventions.\<close> \<open>Lab_Prelude\<close> holds what the theories share: results \<open>go_fault + 'a\<close>, in which a panic or a call that blocks forever is a value, the operations of slices with their bounds, hashes, and Go maps as
  association lists with distinct keys (\<open>go_map\<close>). A struct is a record with the fields of the source, a method under a lock is one function from the state to the new state, and code that gives up its lock, or runs on
  several goroutines, is a set of steps that interleave in any order. Clock readings, random numbers, schedules and libraries are arguments. Counters of 64 bits are words; Go's \<open>int\<close> is unbounded where the source
  cannot come near its bounds.

  \<^bold>\<open>Raft.\<close> \<open>Raft_Node\<close> models \<open>lab3/lab3/raft/raft.go\<close> function by function (\<open>RequestVote\<close>, \<open>AppendEntries\<close>, \<open>conductElection\<close>, \<open>handleAppendEntries\<close>, \<open>applyEntries\<close>, \<open>Start\<close>, \<open>persist\<close>, \<open>Make\<close> and others). \<open>Raft_Cluster\<close> runs
  peers with the calls between them, one event per critical section; messages are delayed, reordered and lost. There handlers do not panic and terms and votes are stable. \<open>Raft_Election\<close> proves that a term has
  at most one leader (over the locale \<open>ballots\<close> of quorum systems), \<open>Raft_Log\<close> the log matching property, \<open>Raft_Apply\<close> that each peer applies the indices in order, all for executions without crashes of any length and any
  number of peers. \<open>Raft_Crash\<close> adds crashes: what \<open>AppendEntries\<close> acknowledged survives, but votes are not stored, and an execution reaches two leaders in a term. \<open>Raft_Config\<close> models the checks of \<open>config.go\<close> and gives an
  execution in which two peers apply different commands, since \<open>matchIndex\<close> survives a change of leader.

  \<open>Labrpc\<close> models \<open>lab3/lab3/labrpc/labrpc.go\<close>: calls run at most one handler, end, and are delivered over a reliable network. \<open>Raft_Harness\<close> (\<open>config.go\<close>, \<open>persister.go\<close>) starts, crashes and connects servers on that
  network, and \<open>Raft_Tests\<close> has \<open>one\<close>, \<open>wait\<close>, \<open>begin\<close> and \<open>end\<close>. \<open>Labgob\<close> models the checks of \<open>labgob.go\<close>: \<open>checkType\<close> with fuel, one more than the number of types not yet checked, which is shown to suffice, and
  \<open>checkDefault\<close> with the panic of \<open>reflect\<close> on fields that are not exported.

  \<^bold>\<open>The key-value store.\<close> \<open>Shard_Map\<close> models \<open>lab4/kv/shardmap.go\<close>, \<open>file_shardmap.go\<close> and \<open>util.go\<close>. \<open>Kv_Server\<close> models \<open>server.go\<close>: requests, expiry, and the change of shards in two halves, before and after the copying. The
  server implements the locale \<open>expiring_store\<close>; in every state that requests, sweeps and up to two overlapping changes reach, keys are where they belong, and it is stated exactly when a change can be completed; a sweep
  is invisible; a shard is copied with its remaining time to live, and the copy overwrites what was accepted meanwhile. \<open>Kv_Client\<close> models \<open>client.go\<close> and \<open>clientpool.go\<close> over the locale \<open>replica_set\<close>,
  interpreted on the servers: what is written to all replicas is read from any. \<open>Kv_Checker\<close> models \<open>lab4/checker/checker.go\<close> with the requests of \<open>lab4/cmd/stress/tester.go\<close>: which alarms can be false, and that stale values are
  reported. \<open>Kv_Stress\<close> has the final report of the tester.

  \<^bold>\<open>The recommendation service.\<close> \<open>Lab1_Services\<close> models \<open>lab1/failure_injection\<close> and the \<open>server_lib.go\<close> of the user and the video service, with the generation of their data; \<open>Lab1_Bcrypt\<close> and \<open>Lab1_Ranker\<close> model \<open>det_bcrypt.go\<close>
  and \<open>ranker.go\<close>; \<open>Lab1_VideoRec\<close> models \<open>lab1/video_rec_service/server_lib/server_lib.go\<close>: requests always end, with a ranked or a fallback answer and the counters stated, and the batched loops end after as many rounds as
  there are batches. \<open>Lab1_Mocks\<close> joins all of them, as the mock clients do: every user gets a personalised answer. \<open>Lab1_Frontend\<close> models \<open>lab1/cmd/frontend/frontend.go\<close> on top. \<open>Lab2_Pool\<close> models the server of
  \<open>lab2\<close> and shows that its pools change no answer.

  \<^bold>\<open>Lab 0.\<close> \<open>Lab0_Queue\<close> models \<open>queue.go\<close> (both queues implement the locale \<open>fifo\<close>), \<open>Lab0_Semaphore\<close> \<open>semaphore.go\<close>, step by step and call by call, and \<open>Lab0_Merge\<close> \<open>merge_channels.go\<close> and \<open>parallel_fetcher.go\<close>, with bounds on the
  number of steps under every schedule.

  \<^bold>\<open>Parameters.\<close> Code that is not in the repository is an argument with named hypotheses: the Blowfish cipher (\<open>blowfish_ok\<close>), \<open>sort.Slice\<close> (\<open>sort_ok\<close>), random numbers (\<open>intn_ok\<close>), \<open>gofakeit\<close>, \<open>encoding/gob\<close>,
  \<open>grpc\<close>, \<open>fsnotify\<close> and \<open>semaphore.Weighted\<close> (\<open>weighted_ok\<close>). Each property with such a hypothesis has a witness with a concrete instance.

  \<^bold>\<open>Not modelled.\<close> Real time: timers and sleeps only bound when a step happens, and most steps read the clock once. Two requests to the recommendation service do not interleave in the model. Generated protocol code, logging,
  the \<open>main\<close> programs that only parse flags and start servers, the load generator and the statistics client, the deployment scripts and the test programs are left out.
\<close>

end
